(* ===== verification/Go_Prelude.thy ===== *)
theory Go_Prelude
  imports Main "HOL-Library.Word" "HOL-Library.AList" "HOL-Library.Multiset"
begin

unbundle bit_operations_syntax

section \<open>The Go values the components share\<close>

text \<open>
  This theory holds what every component of the database uses of the Go language and of its
  standard library: machine integers as words of their width, byte slices and byte order
  (package \<^verbatim>\<open>encoding/binary\<close>), Go maps, slices, and the errors the repository's functions return.

  A Go map is an association list whose keys are distinct; the order of the list is one order in
  which \<^verbatim>\<open>range\<close> may visit it. Where the visiting order can change the state of the program, the
  operation takes a further argument that permutes the keys, and its theorems hold for every
  permutation.

  The collections \<open>codec_simps\<close>, \<open>gomap_simps\<close> and \<open>slice_simps\<close> are the rewrite rules the
  component proofs share.
\<close>

named_theorems codec_simps \<open>byte order: lengths and round trips\<close>
named_theorems gomap_simps \<open>lookup, length and well-formedness of Go maps\<close>
named_theorems slice_simps \<open>takes and drops of concatenated byte slices\<close>

subsection \<open>Integers, bytes and slices\<close>

type_synonym uint8 = "8 word"
type_synonym uint16 = "16 word"
type_synonym uint32 = "32 word"
type_synonym uint64 = "64 word"
type_synonym bytes = "uint8 list"

text \<open>\<open>slice xs i j\<close> is Go's \<^verbatim>\<open>xs[i:j]\<close> for indices already checked to be in range.\<close>

definition slice :: "'a list \<Rightarrow> nat \<Rightarrow> nat \<Rightarrow> 'a list" where
  "slice xs i j = take (j - i) (drop i xs)"

lemma length_slice [simp]: "length (slice xs i j) = min (j - i) (length xs - i)"
  by (simp add: slice_def)

lemma slice_append_left [slice_simps]: "j \<le> length xs \<Longrightarrow> slice (xs @ ys) i j = slice xs i j"
  by (simp add: slice_def)

lemma slice_append_right [slice_simps]:
  "length xs \<le> i \<Longrightarrow> slice (xs @ ys) i j = slice ys (i - length xs) (j - length xs)"
  by (simp add: slice_def diff_diff_eq)

lemma slice_all [slice_simps]: "length xs \<le> j \<Longrightarrow> slice xs 0 j = xs"
  by (simp add: slice_def)

lemma slice_exact:
  assumes "length pre = i" and "j = i + length mid"
  shows "slice (pre @ mid @ post) i j = mid"
  using assms by (simp add: slice_def)

subsection \<open>Errors\<close>

text \<open>
  One constructor for each error value the modelled functions build; \<open>Wrapped\<close> is
  \<^verbatim>\<open>fmt.Errorf("...: %w", err)\<close> and \<open>GoPanic\<close> a run-time panic.
\<close>

datatype go_error =
    KeywordEmpty | KeywordTooLong | KeywordNotUTF8 | KeywordBadChar
  | TooManyKeywords | KeywordOver255 | KeywordsBlockTooLarge
  | KeywordsTooShort | KeywordLengthEOF | KeywordEOF
  | KeyTooLong | HeaderTooShort | HeaderSizeTooLarge | CRCMismatch | DataTruncated
  | BadVectorIDLength
  | InvalidKeyLength | PayloadTooLarge | IndexOutOfBounds | ItemNotFound | KeyNotFound
  | RecordTooShort | UnexpectedEOF | FileNotFound | DecompressError
  | DimensionMismatch | VectorExists | VectorNotFound | QueryDimensionMismatch
  | WrongMagic | FileDimensionMismatch | FileMetricMismatch
  | NameEmpty | DimensionsZero | InvalidMetric | CollectionExists | CollectionNotFound | BlockNotFound
  | VectorMissing | NotImplemented | IntegrityFailed
  | Wrapped string go_error
  | GoPanic string

subsection \<open>Byte order\<close>

text \<open>
  \<^verbatim>\<open>binary.LittleEndian\<close> and \<^verbatim>\<open>binary.BigEndian\<close>: \<open>put_le n v\<close> writes the \<open>n\<close> low-order
  bytes of \<open>v\<close>, least significant first.
\<close>

fun put_le :: "nat \<Rightarrow> nat \<Rightarrow> bytes" where
  "put_le 0 v = []"
| "put_le (Suc n) v = of_nat v # put_le n (v div 256)"

fun get_le :: "bytes \<Rightarrow> nat" where
  "get_le [] = 0"
| "get_le (b # bs) = unat b + 256 * get_le bs"

definition put_be :: "nat \<Rightarrow> nat \<Rightarrow> bytes" where
  "put_be n v = rev (put_le n v)"

definition get_be :: "bytes \<Rightarrow> nat" where
  "get_be bs = get_le (rev bs)"

lemma length_put_le [simp, codec_simps]: "length (put_le n v) = n"
  by (induction n arbitrary: v) auto

lemma length_put_be [simp, codec_simps]: "length (put_be n v) = n"
  by (simp add: put_be_def)

lemma unat_bound_pow: "unat (x :: 'a::len word) < 2 ^ LENGTH('a)"
  by (rule unsigned_less)

lemma unat_byte_bound: "unat (b :: uint8) < 256"
  using unat_bound_pow [of b] by simp

lemma unat_byte_of_nat: "unat (of_nat v :: uint8) = v mod 256"
  by (simp add: unat_of_nat)

lemma get_le_put_le: "get_le (put_le n v) = v mod 256 ^ n"
proof (induction n arbitrary: v)
  case 0
  then show ?case by simp
next
  case (Suc n)
  have "v mod 256 ^ Suc n = v mod 256 + 256 * (v div 256 mod 256 ^ n)"
    by (simp add: mod_mult2_eq)
  with Suc show ?case by (simp add: unat_byte_of_nat)
qed

lemma get_le_bound: "get_le bs < 256 ^ length bs"
proof (induction bs)
  case Nil
  then show ?case by simp
next
  case (Cons b bs)
  then show ?case using unat_byte_bound [of b] by simp
qed

lemma put_le_get_le: "put_le (length bs) (get_le bs) = bs"
proof (induction bs)
  case Nil
  then show ?case by simp
next
  case (Cons b bs)
  have b: "unat b < 256" by (rule unat_byte_bound)
  have "(of_nat (unat b + 256 * get_le bs) :: uint8) = b"
  proof (rule word_unat_eq_iff [THEN iffD2])
    show "unat (of_nat (unat b + 256 * get_le bs) :: uint8) = unat b"
      using b by (simp add: unat_byte_of_nat del: of_nat_add of_nat_mult)
  qed
  moreover have "(unat b + 256 * get_le bs) div 256 = get_le bs" using b by simp
  ultimately show ?case using Cons by (simp del: of_nat_add of_nat_mult)
qed

lemma get_be_put_be: "get_be (put_be n v) = v mod 256 ^ n"
  by (simp add: get_be_def put_be_def get_le_put_le)

lemma put_be_get_be: "put_be (length bs) (get_be bs) = bs"
  using put_le_get_le [of "rev bs"] by (simp add: get_be_def put_be_def)

text \<open>The fixed-width calls of \<^verbatim>\<open>encoding/binary\<close>.\<close>

definition BE_PutUint16 :: "uint16 \<Rightarrow> bytes" where "BE_PutUint16 v = put_be 2 (unat v)"
definition BE_PutUint32 :: "uint32 \<Rightarrow> bytes" where "BE_PutUint32 v = put_be 4 (unat v)"
definition BE_PutUint64 :: "uint64 \<Rightarrow> bytes" where "BE_PutUint64 v = put_be 8 (unat v)"
definition BE_Uint16 :: "bytes \<Rightarrow> uint16" where "BE_Uint16 bs = of_nat (get_be bs)"
definition BE_Uint32 :: "bytes \<Rightarrow> uint32" where "BE_Uint32 bs = of_nat (get_be bs)"
definition BE_Uint64 :: "bytes \<Rightarrow> uint64" where "BE_Uint64 bs = of_nat (get_be bs)"

definition LE_PutUint16 :: "uint16 \<Rightarrow> bytes" where "LE_PutUint16 v = put_le 2 (unat v)"
definition LE_PutUint32 :: "uint32 \<Rightarrow> bytes" where "LE_PutUint32 v = put_le 4 (unat v)"
definition LE_PutUint64 :: "uint64 \<Rightarrow> bytes" where "LE_PutUint64 v = put_le 8 (unat v)"
definition LE_Uint16 :: "bytes \<Rightarrow> uint16" where "LE_Uint16 bs = of_nat (get_le bs)"
definition LE_Uint32 :: "bytes \<Rightarrow> uint32" where "LE_Uint32 bs = of_nat (get_le bs)"
definition LE_Uint64 :: "bytes \<Rightarrow> uint64" where "LE_Uint64 bs = of_nat (get_le bs)"

lemmas byte_order_defs =
  BE_PutUint16_def BE_PutUint32_def BE_PutUint64_def BE_Uint16_def BE_Uint32_def BE_Uint64_def
  LE_PutUint16_def LE_PutUint32_def LE_PutUint64_def LE_Uint16_def LE_Uint32_def LE_Uint64_def

subsection \<open>The interface of a fixed-width codec\<close>

text \<open>
  What the record formats rely on: an encoder of constant width whose decoder inverts it in both
  directions. \<open>read_items\<close> is the loop that reads a counted sequence of fixed-width items.
\<close>

fun read_items :: "nat \<Rightarrow> (bytes \<Rightarrow> 'a) \<Rightarrow> nat \<Rightarrow> bytes \<Rightarrow> ('a list \<times> bytes) option" where
  "read_items w dec 0 bs = Some ([], bs)"
| "read_items w dec (Suc n) bs =
     (if length bs < w then None
      else case read_items w dec n (drop w bs) of
        None \<Rightarrow> None
      | Some (xs, rest) \<Rightarrow> Some (dec (take w bs) # xs, rest))"

locale fixed_codec =
  fixes width :: nat
    and enc :: "'a \<Rightarrow> bytes"
    and dec :: "bytes \<Rightarrow> 'a"
  assumes enc_length: "length (enc x) = width"
    and dec_enc: "dec (enc x) = x"
    and enc_dec: "length bs = width \<Longrightarrow> enc (dec bs) = bs"
begin

lemma enc_eq_iff: "enc x = enc y \<longleftrightarrow> x = y"
  by (metis dec_enc)

lemma dec_eq_iff: "length bs = width \<Longrightarrow> length cs = width \<Longrightarrow> dec bs = dec cs \<longleftrightarrow> bs = cs"
  by (metis enc_dec)

lemma dec_take: "dec (take width (enc x @ rest)) = x"
  by (simp add: enc_length dec_enc)

lemma read_items_concat:
  "read_items width dec (length xs) (concat (map enc xs) @ rest) = Some (xs, rest)"
  by (induction xs) (simp_all add: enc_length dec_enc)

lemma length_concat_enc: "length (concat (map enc xs)) = width * length xs"
  by (induction xs) (simp_all add: enc_length)

end

lemma le_word_inverse: "(256::nat) ^ n = 2 ^ LENGTH('a) \<Longrightarrow>
    (of_nat (get_le (put_le n (unat x))) :: 'a::len word) = x"
  by (simp add: get_le_put_le unat_bound_pow)

lemma le_bytes_inverse: "(256::nat) ^ n = 2 ^ LENGTH('a) \<Longrightarrow> length bs = n \<Longrightarrow>
    put_le n (unat (of_nat (get_le bs) :: 'a::len word)) = bs"
  using put_le_get_le [of bs] get_le_bound [of bs] by (simp add: unat_of_nat)

lemma be_word_inverse: "(256::nat) ^ n = 2 ^ LENGTH('a) \<Longrightarrow>
    (of_nat (get_be (put_be n (unat x))) :: 'a::len word) = x"
  by (simp add: get_be_put_be unat_bound_pow)

lemma be_bytes_inverse: "(256::nat) ^ n = 2 ^ LENGTH('a) \<Longrightarrow> length bs = n \<Longrightarrow>
    put_be n (unat (of_nat (get_be bs) :: 'a::len word)) = bs"
  using le_bytes_inverse [where 'a = 'a and bs = "rev bs" and n = n]
  by (simp add: put_be_def get_be_def)

interpretation be16: fixed_codec 2 BE_PutUint16 BE_Uint16
  by unfold_locales (simp_all add: byte_order_defs be_word_inverse be_bytes_inverse)

interpretation be32: fixed_codec 4 BE_PutUint32 BE_Uint32
  by unfold_locales (simp_all add: byte_order_defs be_word_inverse be_bytes_inverse)

interpretation be64: fixed_codec 8 BE_PutUint64 BE_Uint64
  by unfold_locales (simp_all add: byte_order_defs be_word_inverse be_bytes_inverse)

interpretation le16: fixed_codec 2 LE_PutUint16 LE_Uint16
  by unfold_locales (simp_all add: byte_order_defs le_word_inverse le_bytes_inverse)

interpretation le32: fixed_codec 4 LE_PutUint32 LE_Uint32
  by unfold_locales (simp_all add: byte_order_defs le_word_inverse le_bytes_inverse)

interpretation le64: fixed_codec 8 LE_PutUint64 LE_Uint64
  by unfold_locales (simp_all add: byte_order_defs le_word_inverse le_bytes_inverse)

lemmas codec_laws [codec_simps] =
  be16.enc_length be32.enc_length be64.enc_length le16.enc_length le32.enc_length le64.enc_length
  be16.dec_enc be32.dec_enc be64.dec_enc le16.dec_enc le32.dec_enc le64.dec_enc

lemma unat_of_nat_small: "n < 2 ^ LENGTH('a) \<Longrightarrow> unat (of_nat n :: 'a::len word) = n"
  by (simp add: unat_of_nat)

subsection \<open>Go maps\<close>

type_synonym ('k, 'v) gomap = "('k \<times> 'v) list"

abbreviation mget :: "('k, 'v) gomap \<Rightarrow> 'k \<Rightarrow> 'v option" where
  "mget \<equiv> map_of"

abbreviation mput :: "'k \<Rightarrow> 'v \<Rightarrow> ('k, 'v) gomap \<Rightarrow> ('k, 'v) gomap" where
  "mput \<equiv> AList.update"

abbreviation mdel :: "'k \<Rightarrow> ('k, 'v) gomap \<Rightarrow> ('k, 'v) gomap" where
  "mdel \<equiv> AList.delete"

abbreviation mkeys :: "('k, 'v) gomap \<Rightarrow> 'k list" where
  "mkeys m \<equiv> map fst m"

text \<open>Indexing a map that lacks the key gives the zero value of the element type.\<close>

definition mget0 :: "'v \<Rightarrow> ('k, 'v) gomap \<Rightarrow> 'k \<Rightarrow> 'v" where
  "mget0 z m k = (case mget m k of None \<Rightarrow> z | Some v \<Rightarrow> v)"

definition wf_map :: "('k, 'v) gomap \<Rightarrow> bool" where
  "wf_map m \<longleftrightarrow> distinct (mkeys m)"

lemma mget_mput [simp, gomap_simps]: "mget (mput k v m) k' = (if k' = k then Some v else mget m k')"
  by (simp add: update_conv)

lemma mput_twice: "mput k v (mput k w m) = mput k v m"
  by (induction m) auto

lemma mget_mdel [simp, gomap_simps]: "mget (mdel k m) k' = (if k' = k then None else mget m k')"
  by (simp add: delete_conv)

lemma mget0_mput [simp, gomap_simps]: "mget0 z (mput k v m) k' = (if k' = k then v else mget0 z m k')"
  by (simp add: mget0_def)

lemma mget0_mdel [simp, gomap_simps]: "mget0 z (mdel k m) k' = (if k' = k then z else mget0 z m k')"
  by (simp add: mget0_def)

lemma mget0_Nil [simp, gomap_simps]: "mget0 z [] k = z"
  by (simp add: mget0_def)

lemma wf_map_Nil [simp, gomap_simps]: "wf_map []"
  by (simp add: wf_map_def)

lemma wf_map_mput [simp, gomap_simps]: "wf_map m \<Longrightarrow> wf_map (mput k v m)"
  by (simp add: wf_map_def distinct_update)

lemma wf_map_mdel [simp, gomap_simps]: "wf_map m \<Longrightarrow> wf_map (mdel k m)"
  by (simp add: wf_map_def distinct_delete)

lemma set_mkeys: "set (mkeys m) = dom (mget m)"
  by (simp add: dom_map_of_conv_image_fst)

lemma mget_in_set: "wf_map m \<Longrightarrow> mget m k = Some v \<longleftrightarrow> (k, v) \<in> set m"
  by (simp add: wf_map_def)

lemma mget_None_iff: "mget m k = None \<longleftrightarrow> k \<notin> set (mkeys m)"
  by (simp add: map_of_eq_None_iff)

text \<open>Adding the entries of one map to another, as decoding into an existing map does.\<close>

lemma mput_fresh: "k \<notin> fst ` set m \<Longrightarrow> mput k v m = m @ [(k, v)]"
  by (induction m) auto

lemma wf_fold_mput: "wf_map acc \<Longrightarrow> wf_map (fold (\<lambda>(k, v). mput k v) m acc)"
  by (induction m arbitrary: acc) auto

lemma mget_fold_mput:
  "wf_map m \<Longrightarrow> mget (fold (\<lambda>(k, v). mput k v) m acc) k =
     (case mget m k of Some v \<Rightarrow> Some v | None \<Rightarrow> mget acc k)"
proof (induction m arbitrary: acc)
  case Nil
  then show ?case by simp
next
  case (Cons kv m)
  obtain k' v' where kv: "kv = (k', v')" by (cases kv)
  with Cons.prems have "mget m k' = None" and "wf_map m"
    by (auto simp: wf_map_def map_of_eq_None_iff)
  with Cons.IH [of "mput k' v' acc"] show ?case
    by (cases "k = k'") (simp_all add: kv split: option.split)
qed

subsection \<open>Counting loops\<close>

text \<open>The invariant rule of a loop \<^verbatim>\<open>for k := a; k < b; k++\<close>.\<close>

lemma fold_upt_invariant:
  assumes "a \<le> b" and "P a s"
    and "\<And>k t. a \<le> k \<Longrightarrow> k < b \<Longrightarrow> P k t \<Longrightarrow> P (Suc k) (f k t)"
  shows "P b (fold f [a..<b] s)"
  using assms(1,3)
proof (induction b)
  case 0
  then show ?case using assms(2) by simp
next
  case (Suc b)
  show ?case
  proof (cases "a = Suc b")
    case True
    then show ?thesis using assms(2) by simp
  next
    case False
    with Suc.prems have "a \<le> b" by simp
    with Suc have "P b (fold f [a..<b] s)" by simp
    with Suc.prems(2) \<open>a \<le> b\<close> show ?thesis by simp
  qed
qed

end
