(* ===== verification/Go_Strings.thy ===== *)
theory Go_Strings
  imports Go_Prelude "HOL-Library.Sublist"
begin

section \<open>Go strings\<close>

text \<open>
  A Go string is a sequence of bytes, as an Isabelle string is. This theory models what the storage
  package uses of strings: the conversions to and from byte slices, UTF-8 (the conversions to and
  from rune slices and \<^verbatim>\<open>utf8.ValidString\<close>, with Go's table of the accepted second bytes and one
  replacement rune for each byte that starts no valid sequence), \<^verbatim>\<open>strings.ToLower\<close>,
  \<^verbatim>\<open>strings.HasPrefix\<close> and \<^verbatim>\<open>strings.TrimPrefix\<close>.

  \<^verbatim>\<open>strings.ToLower\<close> is exact on ASCII strings. On other strings it applies the Unicode
  case tables of the Go release, which are the parameter \<open>ul\<close> of every operation that calls it.
\<close>

type_synonym rune = nat

abbreviation code :: "char \<Rightarrow> nat" where
  "code c \<equiv> of_char c"

subsection \<open>Bytes of a string\<close>

definition bytes_of_string :: "string \<Rightarrow> bytes" where
  "bytes_of_string s = map (\<lambda>c. of_nat (code c)) s"

definition string_of_bytes :: "bytes \<Rightarrow> string" where
  "string_of_bytes bs = map (\<lambda>b. char_of (unat b)) bs"

lemma length_bytes_of_string [simp]: "length (bytes_of_string s) = length s"
  by (simp add: bytes_of_string_def)

lemma string_of_bytes_of_string [simp, codec_simps]: "string_of_bytes (bytes_of_string s) = s"
  by (simp add: string_of_bytes_def bytes_of_string_def comp_def unat_byte_of_nat)

lemma bytes_of_string_of_bytes [simp, codec_simps]: "bytes_of_string (string_of_bytes bs) = bs"
  using unat_byte_bound
  by (simp add: string_of_bytes_def bytes_of_string_def comp_def of_char_of map_idI)

lemma bytes_of_string_append [simp]:
  "bytes_of_string (s @ t) = bytes_of_string s @ bytes_of_string t"
  by (simp add: bytes_of_string_def)

lemma bytes_of_string_eq_iff [simp]: "bytes_of_string s = bytes_of_string t \<longleftrightarrow> s = t"
  by (metis string_of_bytes_of_string)

lemma bytes_of_string_Nil_iff [simp]: "bytes_of_string s = [] \<longleftrightarrow> s = []"
  by (simp add: bytes_of_string_def)

subsection \<open>UTF-8\<close>

definition in_range :: "nat \<Rightarrow> nat \<Rightarrow> char \<Rightarrow> bool" where
  "in_range lo hi c \<longleftrightarrow> lo \<le> code c \<and> code c \<le> hi"

text \<open>The accepted range of the second byte, by the first byte (\<^verbatim>\<open>unicode/utf8\<close>).\<close>

definition second_ok :: "nat \<Rightarrow> char \<Rightarrow> bool" where
  "second_ok b0 c =
     (if b0 = 0xE0 then in_range 0xA0 0xBF c
      else if b0 = 0xED then in_range 0x80 0x9F c
      else if b0 = 0xF0 then in_range 0x90 0xBF c
      else if b0 = 0xF4 then in_range 0x80 0x8F c
      else in_range 0x80 0xBF c)"

abbreviation cont_bits :: "char \<Rightarrow> nat" where
  "cont_bits c \<equiv> code c mod 64"

text \<open>\<open>decode_rune\<close> returns the rune and its width, or \<open>None\<close> for an invalid first sequence.\<close>

fun decode_rune :: "string \<Rightarrow> (rune \<times> nat) option" where
  "decode_rune [] = None"
| "decode_rune (c # cs) =
     (let b0 = code c in
      if b0 < 0x80 then Some (b0, 1)
      else if b0 < 0xC2 then None
      else if b0 < 0xE0 then
        (case cs of c1 # _ \<Rightarrow>
           if in_range 0x80 0xBF c1 then Some ((b0 mod 32) * 64 + cont_bits c1, 2) else None
         | _ \<Rightarrow> None)
      else if b0 < 0xF0 then
        (case cs of c1 # c2 # _ \<Rightarrow>
           if second_ok b0 c1 \<and> in_range 0x80 0xBF c2
           then Some (((b0 mod 16) * 64 + cont_bits c1) * 64 + cont_bits c2, 3) else None
         | _ \<Rightarrow> None)
      else if b0 < 0xF5 then
        (case cs of c1 # c2 # c3 # _ \<Rightarrow>
           if second_ok b0 c1 \<and> in_range 0x80 0xBF c2 \<and> in_range 0x80 0xBF c3
           then Some ((((b0 mod 8) * 64 + cont_bits c1) * 64 + cont_bits c2) * 64 + cont_bits c3, 4)
           else None
         | _ \<Rightarrow> None)
      else None)"

lemma decode_rune_width: "decode_rune s = Some (r, w) \<Longrightarrow> 1 \<le> w \<and> w \<le> 4"
  by (cases s) (auto simp: Let_def split: if_splits list.splits)

text \<open>\<^verbatim>\<open>[]rune(s)\<close>: an invalid sequence gives the replacement rune and skips one byte.\<close>

function runes :: "string \<Rightarrow> rune list" where
  "runes [] = []"
| "runes (c # cs) =
     (case decode_rune (c # cs) of
        None \<Rightarrow> 0xFFFD # runes cs
      | Some (r, w) \<Rightarrow> r # runes (drop (w - 1) cs))"
  by pat_completeness auto
termination
  by (relation "measure length") auto

function ValidString :: "string \<Rightarrow> bool" where
  "ValidString [] = True"
| "ValidString (c # cs) =
     (case decode_rune (c # cs) of
        None \<Rightarrow> False
      | Some (r, w) \<Rightarrow> ValidString (drop (w - 1) cs))"
  by pat_completeness auto
termination
  by (relation "measure length") auto

definition encode_rune :: "rune \<Rightarrow> string" where
  "encode_rune r =
     (let q = (if 0x10FFFF < r \<or> (0xD800 \<le> r \<and> r \<le> 0xDFFF) then 0xFFFD else r) in
      if q < 0x80 then [char_of q]
      else if q < 0x800 then [char_of (0xC0 + q div 64), char_of (0x80 + q mod 64)]
      else if q < 0x10000 then
        [char_of (0xE0 + q div 4096), char_of (0x80 + q div 64 mod 64), char_of (0x80 + q mod 64)]
      else [char_of (0xF0 + q div 262144), char_of (0x80 + q div 4096 mod 64),
            char_of (0x80 + q div 64 mod 64), char_of (0x80 + q mod 64)])"

text \<open>\<^verbatim>\<open>string(rs)\<close> for a rune slice.\<close>

definition string_of_runes :: "rune list \<Rightarrow> string" where
  "string_of_runes rs = concat (map encode_rune rs)"

subsection \<open>ASCII strings\<close>

definition is_ascii :: "string \<Rightarrow> bool" where
  "is_ascii s \<longleftrightarrow> list_all (\<lambda>c. code c < 0x80) s"

lemma is_ascii_Nil [simp]: "is_ascii []"
  by (simp add: is_ascii_def)

lemma is_ascii_Cons [simp]: "is_ascii (c # cs) \<longleftrightarrow> code c < 0x80 \<and> is_ascii cs"
  by (simp add: is_ascii_def)

lemma is_ascii_append [simp]: "is_ascii (s @ t) \<longleftrightarrow> is_ascii s \<and> is_ascii t"
  by (simp add: is_ascii_def)

lemma runes_ascii: "is_ascii s \<Longrightarrow> runes s = map code s"
  by (induction s) simp_all

lemma ValidString_ascii: "is_ascii s \<Longrightarrow> ValidString s"
  by (induction s) simp_all

lemma string_of_runes_ascii: "is_ascii s \<Longrightarrow> string_of_runes (map code s) = s"
  by (induction s) (simp_all add: string_of_runes_def encode_rune_def Let_def)

definition ascii_lower :: "char \<Rightarrow> char" where
  "ascii_lower c = (if in_range 65 90 c then char_of (code c + 32) else c)"

lemma code_ascii_lower: "code (ascii_lower c) = (if in_range 65 90 c then code c + 32 else code c)"
  by (auto simp: ascii_lower_def in_range_def of_char_of)

lemma ascii_lower_idem [simp]: "ascii_lower (ascii_lower c) = ascii_lower c"
  by (auto simp: ascii_lower_def in_range_def of_char_of)

lemma ascii_lower_ascii: "code c < 0x80 \<Longrightarrow> code (ascii_lower c) < 0x80"
  by (auto simp: code_ascii_lower in_range_def)

subsection \<open>Package strings\<close>

definition ToLower :: "(string \<Rightarrow> string) \<Rightarrow> string \<Rightarrow> string" where
  "ToLower ul s = (if is_ascii s then map ascii_lower s else ul s)"

lemma is_ascii_map_lower: "is_ascii s \<Longrightarrow> is_ascii (map ascii_lower s)"
  by (induction s) (simp_all add: ascii_lower_ascii)

lemma ToLower_ascii_idem: "is_ascii s \<Longrightarrow> ToLower ul (ToLower ul s) = ToLower ul s"
  by (simp add: ToLower_def is_ascii_map_lower comp_def)

abbreviation HasPrefix :: "string \<Rightarrow> string \<Rightarrow> bool" where
  "HasPrefix s p \<equiv> prefix p s"

definition TrimPrefix :: "string \<Rightarrow> string \<Rightarrow> string" where
  "TrimPrefix s p = (if HasPrefix s p then drop (length p) s else s)"

lemma TrimPrefix_append [simp]: "TrimPrefix (p @ s) p = s"
  by (simp add: TrimPrefix_def)

end
