(* ===== verification/Types.thy ===== *)
theory Types
  imports Go_Strings
begin

section \<open>Shared data types\<close>

text \<open>
  The data types of \<^verbatim>\<open>internal/types\<close>: the metric names, the flags byte of an entry
  with its parser and printer, the configurations of the server and of a collection, block data and
  search filters. No function of the repository uses \<open>KeywordEntry\<close> and \<open>VectorSearchResult\<close>.
  A \<^verbatim>\<open>float32\<close> is its IEEE bit pattern.
\<close>

type_synonym float32 = uint32

type_synonym DistanceMetric = string

definition MetricL2 :: DistanceMetric where "MetricL2 = ''l2''"
definition MetricCosine :: DistanceMetric where "MetricCosine = ''cosine''"
definition MetricIP :: DistanceMetric where "MetricIP = ''ip''"

lemmas metric_defs = MetricL2_def MetricCosine_def MetricIP_def

definition DataTypeBinary :: uint8 where "DataTypeBinary = 0"
definition DataTypeVector :: uint8 where "DataTypeVector = 1"

record EntryFlags =
  DataType :: uint8
  Compressed :: bool
  Tombstone :: bool

record CollectionConfig =
  Name :: string
  Dimensions :: uint32
  Metric :: DistanceMetric

record KeywordEntry =
  EntryKeywords :: "string list"
  EntryVectorID :: uint64
  KeyName :: string

record VectorSearchResult =
  ResultKey :: string
  ResultDistance :: float32
  ResultVectorID :: uint64
  ResultData :: bytes

record DBSchemaConfig =
  PayloadSize :: int
  DataPath :: string
  SyncMode :: string

record BlockData =
  Primary :: string
  Vector :: "float32 list"
  BlockKeywords :: "string list"

record SearchFilter =
  FilterKeys :: "string list"
  FilterKeywords :: "string list"
  KeywordMode :: string
  MaxDistance :: uint32

record SearchResultItem =
  ItemKey :: string
  ItemIndex :: uint32
  ItemDistance :: float32
  ItemBlock :: "BlockData option"

definition ParseFlags :: "uint8 \<Rightarrow> EntryFlags" where
  "ParseFlags flags =
     \<lparr>DataType = flags AND 0b00000111,
      Compressed = ((flags AND 0b00001000) \<noteq> 0),
      Tombstone = ((flags AND 0b00010000) \<noteq> 0)\<rparr>"

definition EncodeFlags :: "EntryFlags \<Rightarrow> uint8" where
  "EncodeFlags ef =
     (let flags = DataType ef AND 0b00000111;
          flags = (if Compressed ef then flags OR 0b00001000 else flags);
          flags = (if Tombstone ef then flags OR 0b00010000 else flags)
      in flags)"

text \<open>
  The flags byte keeps three bits of the data type and both status bits; its parser returns exactly
  what the printer kept, and printing a parsed byte clears the three reserved bits.
\<close>

lemma and_or_distrib_byte: "(a OR b) AND c = (a AND c) OR (b AND c)" for a b c :: uint8
  by (rule bit_eqI) (auto simp: bit_and_iff bit_or_iff)

lemma and_assoc_byte: "(a AND b) AND c = a AND (b AND c)" for a b c :: uint8
  by (rule and.assoc)

lemma ParseFlags_EncodeFlags:
  "ParseFlags (EncodeFlags ef) = ef\<lparr>DataType := DataType ef AND 7\<rparr>"
  by (cases ef) (simp add: ParseFlags_def EncodeFlags_def Let_def and_or_distrib_byte and_assoc_byte)

lemma flag_bit_3: "(x AND 8 = 0) \<longleftrightarrow> \<not> bit x 3" for x :: uint8
  using and_exp_eq_0_iff_not_bit [of x 3] by simp

lemma flag_bit_4: "(x AND 16 = 0) \<longleftrightarrow> \<not> bit x 4" for x :: uint8
  using and_exp_eq_0_iff_not_bit [of x 4] by simp

lemma EncodeFlags_ParseFlags: "EncodeFlags (ParseFlags b) = b AND 0x1F"
proof (rule bit_word_eqI)
  fix n
  assume "n < LENGTH(8)"
  then have "n \<in> {0, 1, 2, 3, 4, 5, 6, 7}" by auto
  then show "bit (EncodeFlags (ParseFlags b)) n = bit (b AND 0x1F) n"
    by (auto simp: EncodeFlags_def ParseFlags_def Let_def flag_bit_3 flag_bit_4 bit_and_iff bit_or_iff)
qed

end
