(* ===== verification/Logger.thy ===== *)
theory Logger
  imports Types
begin

section \<open>The logger\<close>

text \<open>
  \<^verbatim>\<open>internal/logger/logger.go\<close>: the level and the output of the standard logger are its state. A
  logged line is kept with the writer that received it; the date, time and place that package \<^verbatim>\<open>log\<close>
  puts in front of it are left out. \<open>Fatal\<close> returns the exit code of the process with the line.
\<close>

datatype Level = LevelError | LevelInfo

instantiation Level :: linorder
begin

definition less_eq_Level :: "Level \<Rightarrow> Level \<Rightarrow> bool" where
  "less_eq_Level a b \<longleftrightarrow> a = LevelError \<or> b = LevelInfo"

definition less_Level :: "Level \<Rightarrow> Level \<Rightarrow> bool" where
  "less_Level a b \<longleftrightarrow> a = LevelError \<and> b = LevelInfo"

instance
proof
  fix x y z :: Level
  show "(x < y) = (x \<le> y \<and> \<not> y \<le> x)" by (cases x; cases y) (simp_all add: less_eq_Level_def less_Level_def)
  show "x \<le> x" by (cases x) (simp_all add: less_eq_Level_def)
  show "x \<le> y \<Longrightarrow> y \<le> z \<Longrightarrow> x \<le> z" by (auto simp: less_eq_Level_def)
  show "x \<le> y \<Longrightarrow> y \<le> x \<Longrightarrow> x = y" by (auto simp: less_eq_Level_def)
  show "x \<le> y \<or> y \<le> x" by (cases x) (auto simp: less_eq_Level_def)
qed

end

text \<open>The writers: standard error, the default, or what \<^verbatim>\<open>main\<close> sets, standard output together with the log file.\<close>

datatype writer = Stderr | StdoutAndFile

record Logger =
  currentLevel :: Level
  log_writer :: writer
  log_lines :: "(writer \<times> string) list"

text \<open>
  \<^verbatim>\<open>fmt.Sprintf\<close> for the verbs of one letter the code uses; an argument is given as the text it
  prints, and a verb without an argument is marked as missing.
\<close>

fun Sprintf :: "string \<Rightarrow> string list \<Rightarrow> string" where
  "Sprintf [] v = []"
| "Sprintf [c] v = (if c = CHR ''%'' then ''%!(NOVERB)'' else [c])"
| "Sprintf (c # d # format) v =
     (if c \<noteq> CHR ''%'' then c # Sprintf (d # format) v
      else case v of
             [] \<Rightarrow> ''%!'' @ d # ''(MISSING)'' @ Sprintf format []
           | a # v \<Rightarrow> a @ Sprintf format v)"

definition SetLevel :: "Level \<Rightarrow> Logger \<Rightarrow> Logger" where
  "SetLevel l lg = lg\<lparr>currentLevel := l\<rparr>"

definition Setup :: "writer \<Rightarrow> Logger \<Rightarrow> Logger" where
  "Setup w lg = lg\<lparr>log_writer := w\<rparr>"

definition log_output :: "string \<Rightarrow> string list \<Rightarrow> Logger \<Rightarrow> Logger" where
  "log_output format v lg = lg\<lparr>log_lines := log_lines lg @ [(log_writer lg, Sprintf format v)]\<rparr>"

definition Info :: "string \<Rightarrow> string list \<Rightarrow> Logger \<Rightarrow> Logger" where
  "Info format v lg = (if currentLevel lg \<ge> LevelInfo then log_output (''INFO: '' @ format) v lg else lg)"

definition log_Error :: "string \<Rightarrow> string list \<Rightarrow> Logger \<Rightarrow> Logger" where
  "log_Error format v lg = (if currentLevel lg \<ge> LevelError then log_output (''ERROR: '' @ format) v lg else lg)"

definition Fatal :: "string \<Rightarrow> string list \<Rightarrow> Logger \<Rightarrow> Logger \<times> nat" where
  "Fatal format v lg = (log_output (''FATAL: '' @ format) v lg, 1)"

text \<open>
  The level only filters: errors are always written, information exactly at the level \<open>LevelInfo\<close>, and
  no message changes the level or the writer.
\<close>

lemma log_Error_always: "log_Error format v lg = log_output (''ERROR: '' @ format) v lg"
  by (simp add: log_Error_def less_eq_Level_def)

lemma Info_level: "Info format v lg = (if currentLevel lg = LevelInfo then log_output (''INFO: '' @ format) v lg else lg)"
  by (cases "currentLevel lg") (simp_all add: Info_def less_eq_Level_def)

lemma log_output_fields [simp]:
  "currentLevel (log_output f v lg) = currentLevel lg" "log_writer (log_output f v lg) = log_writer lg"
  "log_lines (log_output f v lg) = log_lines lg @ [(log_writer lg, Sprintf f v)]"
  by (simp_all add: log_output_def)

lemma Sprintf_text: "CHR ''%'' \<notin> set s \<Longrightarrow> Sprintf (s @ t) v = s @ Sprintf t v"
proof (induction s)
  case (Cons c s)
  then show ?case by (cases "s @ t") auto
qed simp

end
