(* ===== verification/CRC32.thy ===== *)
theory CRC32
  imports Go_Prelude
begin

section \<open>The checksum of an entry\<close>

text \<open>
  \<^verbatim>\<open>crc32.ChecksumIEEE\<close> of the standard library, bit by bit with the reversed IEEE polynomial (the
  table-driven code of \<^verbatim>\<open>hash/crc32\<close> computes the same function). What the entry format relies
  on is proved here: the register update is injective in the register and in the byte, so two
  slices of one length that differ in exactly one byte have different checksums.
\<close>

definition crc_poly :: uint32 where
  "crc_poly = 0xEDB88320"

definition crc_shift :: "uint32 \<Rightarrow> uint32" where
  "crc_shift c = (if bit c 0 then drop_bit 1 c XOR crc_poly else drop_bit 1 c)"

definition crc_byte :: "uint32 \<Rightarrow> uint8 \<Rightarrow> uint32" where
  "crc_byte c b = (crc_shift ^^ 8) (c XOR ucast b)"

definition ChecksumIEEE :: "bytes \<Rightarrow> uint32" where
  "ChecksumIEEE bs = NOT (foldl crc_byte (NOT 0) bs)"

lemma xor_right_cancel: "a XOR c = b XOR c \<longleftrightarrow> a = (b :: uint32)"
  by (auto simp: bit_eq_iff bit_xor_iff)

lemma xor_left_cancel: "c XOR a = c XOR b \<longleftrightarrow> a = (b :: uint32)"
  by (auto simp: bit_eq_iff bit_xor_iff)

lemma crc_shift_top_bit: "bit (crc_shift c) 31 = bit c 0"
proof -
  have "\<not> bit (drop_bit 1 c) 31"
    using bit_imp_le_length [of c 32] by (auto simp: bit_drop_bit_eq)
  moreover have "bit crc_poly 31"
    by (simp add: crc_poly_def)
  ultimately show ?thesis
    by (simp add: crc_shift_def bit_xor_iff)
qed

lemma crc_shift_inject: "crc_shift c = crc_shift d \<longleftrightarrow> c = d"
proof
  assume eq: "crc_shift c = crc_shift d"
  then have low: "bit c 0 = bit d 0"
    by (metis crc_shift_top_bit)
  with eq have high: "drop_bit 1 c = drop_bit 1 d"
    by (auto simp: crc_shift_def xor_right_cancel split: if_splits)
  show "c = d"
  proof (rule bit_eqI)
    fix n
    show "bit c n = bit d n"
    proof (cases n)
      case 0
      then show ?thesis using low by simp
    next
      case (Suc m)
      have "bit (drop_bit 1 c) m = bit (drop_bit 1 d) m" using high by simp
      then show ?thesis using Suc by (simp add: bit_drop_bit_eq)
    qed
  qed
qed simp

lemma crc_shift_iter_inject: "(crc_shift ^^ n) c = (crc_shift ^^ n) d \<longleftrightarrow> c = d"
  by (induction n) (simp_all add: crc_shift_inject)

lemma ucast_byte_inject: "(ucast a :: uint32) = ucast b \<longleftrightarrow> a = (b :: uint8)"
proof
  assume eq: "(ucast a :: uint32) = ucast b"
  show "a = b"
  proof (rule bit_word_eqI)
    fix n
    assume "n < LENGTH(8)"
    moreover have "bit (ucast a :: uint32) n = bit (ucast b :: uint32) n" using eq by simp
    ultimately show "bit a n = bit b n" by (simp add: bit_ucast_iff)
  qed
qed simp

lemma crc_byte_inject_register: "crc_byte c b = crc_byte d b \<longleftrightarrow> c = d"
  by (simp only: crc_byte_def crc_shift_iter_inject xor_right_cancel)

lemma crc_byte_inject_byte: "crc_byte c a = crc_byte c b \<longleftrightarrow> a = b"
  by (simp only: crc_byte_def crc_shift_iter_inject xor_left_cancel ucast_byte_inject)

lemma foldl_crc_inject: "foldl crc_byte c bs = foldl crc_byte d bs \<longleftrightarrow> c = d"
  by (induction bs arbitrary: c d) (simp_all add: crc_byte_inject_register)

lemma not_inject: "NOT a = NOT b \<longleftrightarrow> a = (b :: uint32)"
  by (metis bit.double_compl)

lemma ChecksumIEEE_one_byte:
  assumes "i < length bs" and "b \<noteq> bs ! i"
  shows "ChecksumIEEE (bs[i := b]) \<noteq> ChecksumIEEE bs"
proof -
  define r where "r = foldl crc_byte (NOT 0) (take i bs)"
  have "foldl crc_byte (NOT 0) (bs[i := b]) = foldl crc_byte (crc_byte r b) (drop (Suc i) bs)"
    using assms(1) by (simp add: upd_conv_take_nth_drop r_def)
  moreover have "foldl crc_byte (NOT 0) bs = foldl crc_byte (crc_byte r (bs ! i)) (drop (Suc i) bs)"
    using assms(1) by (subst id_take_nth_drop [of i bs]) (simp_all add: r_def)
  ultimately show ?thesis
    using assms(2)
    by (simp add: ChecksumIEEE_def not_inject foldl_crc_inject crc_byte_inject_byte)
qed

end
