(* ===== verification/Entry_Codec.thy ===== *)
theory Entry_Codec
  imports CRC32 Types
begin

section \<open>The on-disk entry format\<close>

text \<open>
  \<^verbatim>\<open>internal/storage/entry.go\<close>: keyword validation and normalisation, the keywords block,
  the 18-byte entry header and the checksummed entry. Errors are values of the sum type; a
  wrapped error keeps the message of the outer \<^verbatim>\<open>fmt.Errorf\<close>.
\<close>

definition CurrentHeaderSize :: nat where "CurrentHeaderSize = 18"
definition MaxKeyLength :: nat where "MaxKeyLength = 65535"
definition MaxKeywordLength :: nat where "MaxKeywordLength = 128"
definition MaxKeywordsBlockSize :: nat where "MaxKeywordsBlockSize = 65535"

lemmas entry_limits = CurrentHeaderSize_def MaxKeyLength_def MaxKeywordLength_def
  MaxKeywordsBlockSize_def

record Entry =
  Flags :: EntryFlags
  Key :: bytes
  Keywords :: "string list"
  PrimaryData :: bytes
  SecondaryData :: bytes

record EntryHeader =
  HeaderSize :: uint8
  HeaderFlags :: uint8
  KeyLen :: uint16
  PrimaryLen :: uint32
  SecondaryLen :: uint32
  KwLen :: uint16
  HeaderCRC32 :: uint32

subsection \<open>Keywords\<close>

text \<open>\<open>keywordRegex\<close> is the match of \<^verbatim>\<open>^[a-z0-9_-]+$\<close>.\<close>

definition keyword_char :: "char \<Rightarrow> bool" where
  "keyword_char c \<longleftrightarrow>
     in_range 97 122 c \<or> in_range 48 57 c \<or> c = CHR ''_'' \<or> c = CHR ''-''"

definition keywordRegex :: "string \<Rightarrow> bool" where
  "keywordRegex s \<longleftrightarrow> s \<noteq> [] \<and> list_all keyword_char s"

text \<open>\<^verbatim>\<open>nil\<close> is \<open>None\<close>.\<close>

definition ValidateKeyword :: "(string \<Rightarrow> string) \<Rightarrow> string \<Rightarrow> go_error option" where
  "ValidateKeyword ul keyword =
     (if length keyword = 0 then Some KeywordEmpty
      else if length keyword > MaxKeywordLength then Some KeywordTooLong
      else if \<not> ValidString keyword then Some KeywordNotUTF8
      else let normalized = ToLower ul keyword in
        if \<not> keywordRegex normalized then Some KeywordBadChar
        else None)"

definition NormalizeKeyword :: "(string \<Rightarrow> string) \<Rightarrow> string \<Rightarrow> string" where
  "NormalizeKeyword ul keyword = ToLower ul keyword"

fun write_keywords :: "(string \<Rightarrow> string) \<Rightarrow> bytes \<Rightarrow> string list \<Rightarrow> go_error + bytes" where
  "write_keywords ul buf [] = Inr buf"
| "write_keywords ul buf (kw # kws) =
     (let normalized = NormalizeKeyword ul kw in
      case ValidateKeyword ul normalized of
        Some err \<Rightarrow> Inl (Wrapped ''invalid keyword'' err)
      | None \<Rightarrow>
          let kwBytes = bytes_of_string normalized in
          if length kwBytes > 255 then Inl KeywordOver255
          else write_keywords ul (buf @ [of_nat (length kwBytes)] @ kwBytes) kws)"

definition EncodeKeywords :: "(string \<Rightarrow> string) \<Rightarrow> string list \<Rightarrow> go_error + bytes" where
  "EncodeKeywords ul kws =
     (if length kws > 65535 then Inl TooManyKeywords
      else case write_keywords ul (BE_PutUint16 (of_nat (length kws))) kws of
        Inl err \<Rightarrow> Inl err
      | Inr buf \<Rightarrow>
          if length buf > MaxKeywordsBlockSize then Inl KeywordsBlockTooLarge else Inr buf)"

text \<open>
  \<^verbatim>\<open>bytes.Reader.Read\<close> fails at the end of the data even for an empty buffer, and fills less
  than the buffer when fewer bytes are left; the rest of the buffer keeps its zeros.
\<close>

fun read_keywords :: "nat \<Rightarrow> bytes \<Rightarrow> go_error + string list" where
  "read_keywords 0 buf = Inr []"
| "read_keywords (Suc cnt) buf =
     (case buf of
        [] \<Rightarrow> Inl KeywordLengthEOF
      | lenByte # rest \<Rightarrow>
          if rest = [] then Inl KeywordEOF
          else
            let n = unat lenByte;
                kwBytes = take n rest @ replicate (n - length rest) 0
            in case read_keywords cnt (drop n rest) of
                 Inl err \<Rightarrow> Inl err
               | Inr kws \<Rightarrow> Inr (string_of_bytes kwBytes # kws))"

definition DecodeKeywords :: "bytes \<Rightarrow> go_error + string list" where
  "DecodeKeywords data =
     (if length data < 2 then Inl KeywordsTooShort
      else read_keywords (unat (BE_Uint16 (take 2 data))) (drop 2 data))"

subsection \<open>Entries\<close>

definition header_bytes :: "EntryHeader \<Rightarrow> bytes" where
  "header_bytes h =
     [HeaderSize h, HeaderFlags h] @ BE_PutUint16 (KeyLen h) @ BE_PutUint32 (PrimaryLen h) @
     BE_PutUint32 (SecondaryLen h) @ BE_PutUint16 (KwLen h) @ BE_PutUint32 (HeaderCRC32 h)"

text \<open>\<^verbatim>\<open>binary.BigEndian.PutUint32(buf[14:18], v)\<close>.\<close>

definition put_crc :: "uint32 \<Rightarrow> bytes \<Rightarrow> bytes" where
  "put_crc v buf = take 14 buf @ BE_PutUint32 v @ drop 18 buf"

definition EncodeEntry :: "(string \<Rightarrow> string) \<Rightarrow> Entry \<Rightarrow> go_error + bytes" where
  "EncodeEntry ul entry =
     (case EncodeKeywords ul (Keywords entry) of
        Inl err \<Rightarrow> Inl (Wrapped ''failed to encode keywords'' err)
      | Inr kwBytes \<Rightarrow>
          if length (Key entry) > MaxKeyLength then Inl KeyTooLong
          else
            let header = \<lparr>HeaderSize = of_nat CurrentHeaderSize,
                          HeaderFlags = EncodeFlags (Flags entry),
                          KeyLen = of_nat (length (Key entry)),
                          PrimaryLen = of_nat (length (PrimaryData entry)),
                          SecondaryLen = of_nat (length (SecondaryData entry)),
                          KwLen = of_nat (length kwBytes),
                          HeaderCRC32 = 0\<rparr>;
                result = header_bytes header @ Key entry @ kwBytes @
                         PrimaryData entry @ SecondaryData entry
            in Inr (put_crc (ChecksumIEEE result) result))"

definition DecodeEntryHeader :: "bytes \<Rightarrow> go_error + EntryHeader" where
  "DecodeEntryHeader data =
     (if length data < CurrentHeaderSize then Inl HeaderTooShort
      else if unat (data ! 0) > length data then Inl HeaderSizeTooLarge
      else Inr \<lparr>HeaderSize = data ! 0, HeaderFlags = data ! 1,
                KeyLen = BE_Uint16 (slice data 2 4),
                PrimaryLen = BE_Uint32 (slice data 4 8),
                SecondaryLen = BE_Uint32 (slice data 8 12),
                KwLen = BE_Uint16 (slice data 12 14),
                HeaderCRC32 = BE_Uint32 (slice data 14 18)\<rparr>)"

definition DecodeEntry :: "bytes \<Rightarrow> go_error + Entry" where
  "DecodeEntry data =
     (case DecodeEntryHeader data of
        Inl err \<Rightarrow> Inl err
      | Inr header \<Rightarrow>
          if HeaderCRC32 header \<noteq> ChecksumIEEE (put_crc 0 data) then Inl CRCMismatch
          else
            let keyStart = unat (HeaderSize header);
                keyEnd = keyStart + unat (KeyLen header);
                kwEnd = keyEnd + unat (KwLen header);
                primaryEnd = kwEnd + unat (PrimaryLen header);
                secondaryEnd = primaryEnd + unat (SecondaryLen header)
            in if secondaryEnd > length data then Inl DataTruncated
               else case DecodeKeywords (slice data keyEnd kwEnd) of
                 Inl err \<Rightarrow> Inl (Wrapped ''failed to decode keywords'' err)
               | Inr keywords \<Rightarrow>
                   Inr \<lparr>Flags = ParseFlags (HeaderFlags header),
                        Key = slice data keyStart keyEnd,
                        Keywords = keywords,
                        PrimaryData = slice data kwEnd primaryEnd,
                        SecondaryData = slice data primaryEnd secondaryEnd\<rparr>)"

definition CalculateTotalSize :: "(string \<Rightarrow> string) \<Rightarrow> Entry \<Rightarrow> go_error + nat" where
  "CalculateTotalSize ul entry =
     (case EncodeKeywords ul (Keywords entry) of
        Inl err \<Rightarrow> Inl err
      | Inr kwBytes \<Rightarrow>
          Inr (CurrentHeaderSize + length (Key entry) + length kwBytes +
               length (PrimaryData entry) + length (SecondaryData entry)))"

subsection \<open>Facts about the keywords block\<close>

definition good_keyword :: "(string \<Rightarrow> string) \<Rightarrow> string \<Rightarrow> bool" where
  "good_keyword ul kw \<longleftrightarrow> ValidateKeyword ul (NormalizeKeyword ul kw) = None"

lemma ValidateKeyword_None:
  "ValidateKeyword ul kw = None \<longleftrightarrow>
     kw \<noteq> [] \<and> length kw \<le> 128 \<and> ValidString kw \<and> keywordRegex (ToLower ul kw)"
  by (auto simp: ValidateKeyword_def entry_limits Let_def)

lemma good_keyword_length:
  "good_keyword ul kw \<Longrightarrow> NormalizeKeyword ul kw \<noteq> [] \<and> length (NormalizeKeyword ul kw) \<le> 128"
  by (simp add: good_keyword_def ValidateKeyword_None)

definition keyword_block :: "(string \<Rightarrow> string) \<Rightarrow> string list \<Rightarrow> bytes" where
  "keyword_block ul kws =
     concat (map (\<lambda>kw. of_nat (length (NormalizeKeyword ul kw)) #
                       bytes_of_string (NormalizeKeyword ul kw)) kws)"

lemma write_keywords_good:
  "\<forall>kw \<in> set kws. good_keyword ul kw \<Longrightarrow> write_keywords ul buf kws = Inr (buf @ keyword_block ul kws)"
proof (induction kws arbitrary: buf)
  case Nil
  then show ?case by (simp add: keyword_block_def)
next
  case (Cons kw kws)
  then have "ValidateKeyword ul (NormalizeKeyword ul kw) = None" and
    "length (NormalizeKeyword ul kw) \<le> 128"
    using good_keyword_length by (auto simp: good_keyword_def)
  with Cons show ?case by (simp add: keyword_block_def Let_def)
qed

lemma write_keywords_bad:
  "\<exists>kw \<in> set kws. \<not> good_keyword ul kw \<Longrightarrow>
   \<exists>err. write_keywords ul buf kws = Inl (Wrapped ''invalid keyword'' err)"
proof (induction kws arbitrary: buf)
  case Nil
  then show ?case by simp
next
  case (Cons kw kws)
  show ?case
  proof (cases "good_keyword ul kw")
    case True
    with Cons.prems have "\<exists>kw \<in> set kws. \<not> good_keyword ul kw" by auto
    with Cons.IH True good_keyword_length [OF True] show ?thesis
      by (simp add: good_keyword_def Let_def)
  next
    case False
    then show ?thesis by (auto simp: good_keyword_def)
  qed
qed

lemma EncodeKeywords_Inr:
  "EncodeKeywords ul kws = Inr bs \<longleftrightarrow>
     length kws \<le> 65535 \<and> (\<forall>kw \<in> set kws. good_keyword ul kw) \<and>
     2 + length (keyword_block ul kws) \<le> 65535 \<and>
     bs = BE_PutUint16 (of_nat (length kws)) @ keyword_block ul kws"
proof (cases "\<forall>kw \<in> set kws. good_keyword ul kw")
  case True
  then show ?thesis
    by (auto simp: EncodeKeywords_def write_keywords_good entry_limits codec_simps)
next
  case False
  then obtain err where "write_keywords ul (BE_PutUint16 (of_nat (length kws))) kws =
      Inl (Wrapped ''invalid keyword'' err)"
    using write_keywords_bad by blast
  with False show ?thesis
    by (auto simp: EncodeKeywords_def)
qed

lemma read_keywords_block:
  "\<forall>kw \<in> set kws. good_keyword ul kw \<Longrightarrow>
   read_keywords (length kws) (keyword_block ul kws @ rest) = Inr (map (NormalizeKeyword ul) kws)"
proof (induction kws)
  case Nil
  then show ?case by simp
next
  case (Cons kw kws)
  then have len: "NormalizeKeyword ul kw \<noteq> []" "length (NormalizeKeyword ul kw) \<le> 128"
    using good_keyword_length by auto
  then have "unat (of_nat (length (NormalizeKeyword ul kw)) :: uint8) = length (NormalizeKeyword ul kw)"
    by (intro unat_of_nat_small) simp
  with Cons len show ?case
    by (simp add: keyword_block_def Let_def)
qed

lemma DecodeKeywords_EncodeKeywords:
  assumes "EncodeKeywords ul kws = Inr bs"
  shows "DecodeKeywords bs = Inr (map (NormalizeKeyword ul) kws)"
proof -
  have "unat (of_nat (length kws) :: uint16) = length kws"
    using assms by (intro unat_of_nat_small) (simp add: EncodeKeywords_Inr)
  moreover have "read_keywords (length kws) (keyword_block ul kws) = Inr (map (NormalizeKeyword ul) kws)"
    using assms read_keywords_block [of kws ul "[]"] by (simp add: EncodeKeywords_Inr)
  ultimately show ?thesis
    using assms by (simp add: EncodeKeywords_Inr DecodeKeywords_def codec_simps)
qed

subsection \<open>Facts about the header\<close>

lemma length_header_bytes [simp]: "length (header_bytes h) = 18"
  by (simp add: header_bytes_def codec_simps)

lemma put_crc_header: "put_crc v (header_bytes h @ body) = header_bytes (h\<lparr>HeaderCRC32 := v\<rparr>) @ body"
  by (simp add: put_crc_def header_bytes_def codec_simps)

lemma DecodeEntryHeader_header:
  assumes "unat (HeaderSize h) \<le> 18 + length body"
  shows "DecodeEntryHeader (header_bytes h @ body) = Inr h"
proof -
  let ?a = "[HeaderSize h, HeaderFlags h]"
  have f: "slice (header_bytes h @ body) 2 4 = BE_PutUint16 (KeyLen h)"
    "slice (header_bytes h @ body) 4 8 = BE_PutUint32 (PrimaryLen h)"
    "slice (header_bytes h @ body) 8 12 = BE_PutUint32 (SecondaryLen h)"
    "slice (header_bytes h @ body) 12 14 = BE_PutUint16 (KwLen h)"
    "slice (header_bytes h @ body) 14 18 = BE_PutUint32 (HeaderCRC32 h)"
    by (simp_all add: header_bytes_def slice_def codec_simps)
  have "(header_bytes h @ body) ! 0 = HeaderSize h" "(header_bytes h @ body) ! Suc 0 = HeaderFlags h"
    by (simp_all add: header_bytes_def)
  with f assms show ?thesis
    by (simp add: DecodeEntryHeader_def entry_limits codec_simps)
qed

subsection \<open>Round trip of an entry\<close>

text \<open>The header \<^verbatim>\<open>EncodeEntry\<close> builds, and the entry it stores.\<close>

definition entry_header :: "Entry \<Rightarrow> bytes \<Rightarrow> uint32 \<Rightarrow> EntryHeader" where
  "entry_header e kw crc =
     \<lparr>HeaderSize = 18, HeaderFlags = EncodeFlags (Flags e), KeyLen = of_nat (length (Key e)),
      PrimaryLen = of_nat (length (PrimaryData e)), SecondaryLen = of_nat (length (SecondaryData e)),
      KwLen = of_nat (length kw), HeaderCRC32 = crc\<rparr>"

definition entry_body :: "Entry \<Rightarrow> bytes \<Rightarrow> bytes" where
  "entry_body e kw = Key e @ kw @ PrimaryData e @ SecondaryData e"

definition stored_entry :: "(string \<Rightarrow> string) \<Rightarrow> Entry \<Rightarrow> Entry" where
  "stored_entry ul e =
     e\<lparr>Flags := (Flags e)\<lparr>DataType := DataType (Flags e) AND 7\<rparr>,
       Keywords := map (NormalizeKeyword ul) (Keywords e)\<rparr>"

lemma EncodeEntry_Inr:
  "EncodeEntry ul e = Inr bs \<longleftrightarrow>
     (\<exists>kw. EncodeKeywords ul (Keywords e) = Inr kw \<and> length (Key e) \<le> 65535 \<and>
        bs = header_bytes (entry_header e kw
               (ChecksumIEEE (header_bytes (entry_header e kw 0) @ entry_body e kw))) @ entry_body e kw)"
  by (auto simp: EncodeEntry_def entry_limits Let_def entry_header_def entry_body_def put_crc_header
      split: sum.splits)

lemma entry_sections:
  fixes h :: EntryHeader and k kw p q :: bytes
  defines "d \<equiv> header_bytes h @ k @ kw @ p @ q"
  shows "slice d 18 (18 + length k) = k"
    and "slice d (18 + length k) (18 + length k + length kw) = kw"
    and "slice d (18 + length k + length kw) (18 + length k + length kw + length p) = p"
    and "slice d (18 + length k + length kw + length p)
           (18 + length k + length kw + length p + length q) = q"
  by (simp_all add: d_def slice_def)

lemma entry_roundtrip:
  assumes "EncodeEntry ul e = Inr bs"
    and "length (PrimaryData e) < 2 ^ 32" and "length (SecondaryData e) < 2 ^ 32"
  shows "DecodeEntry bs = Inr (stored_entry ul e)"
proof -
  from assms(1) obtain kw where kw: "EncodeKeywords ul (Keywords e) = Inr kw"
    and key: "length (Key e) \<le> 65535"
    and bs: "bs = header_bytes (entry_header e kw
        (ChecksumIEEE (header_bytes (entry_header e kw 0) @ entry_body e kw))) @ entry_body e kw"
    by (auto simp: EncodeEntry_Inr)
  define h where "h = entry_header e kw
        (ChecksumIEEE (header_bytes (entry_header e kw 0) @ entry_body e kw))"
  have bs': "bs = header_bytes h @ Key e @ kw @ PrimaryData e @ SecondaryData e"
    by (simp add: bs h_def entry_body_def)
  have kwlen: "length kw \<le> 65535"
    using kw by (auto simp: EncodeKeywords_Inr codec_simps)
  have lens: "unat (HeaderSize h) = 18" "unat (KeyLen h) = length (Key e)"
    "unat (KwLen h) = length kw" "unat (PrimaryLen h) = length (PrimaryData e)"
    "unat (SecondaryLen h) = length (SecondaryData e)"
    using key kwlen assms(2,3) by (simp_all add: h_def entry_header_def unat_of_nat_small)
  have hdr: "DecodeEntryHeader bs = Inr h"
    unfolding bs' using lens(1) by (intro DecodeEntryHeader_header) simp
  have crc: "HeaderCRC32 h = ChecksumIEEE (put_crc 0 bs)"
    by (simp add: bs put_crc_header h_def entry_header_def)
  have flags: "ParseFlags (HeaderFlags h) = (Flags e)\<lparr>DataType := DataType (Flags e) AND 7\<rparr>"
    by (simp add: h_def entry_header_def ParseFlags_EncodeFlags)
  show ?thesis
    using DecodeKeywords_EncodeKeywords [OF kw] flags
      entry_sections [of h "Key e" kw "PrimaryData e" "SecondaryData e", folded bs']
    by (simp add: DecodeEntry_def hdr crc lens Let_def stored_entry_def) (simp add: bs')
qed

text \<open>
  C4. Decoding what \<^verbatim>\<open>EncodeEntry\<close> wrote gives back the entry: the key, the primary data and the
  secondary data byte for byte, the keywords in their normalised (lower-case) form and the flags
  with the data type reduced to its three bits. The data sections must be shorter than 4 GiB, since
  their lengths are stored as 32-bit words.
\<close>

theorem DecodeEntry_EncodeEntry:
  assumes "EncodeEntry ul e = Inr bs"
    and "length (PrimaryData e) < 2 ^ 32" and "length (SecondaryData e) < 2 ^ 32"
  shows "DecodeEntry bs = Inr (stored_entry ul e)"
  using assms by (rule entry_roundtrip)

text \<open>A concrete entry for the witnesses: key \<open>k1\<close>, two keywords, three bytes of payload.\<close>

definition sample_entry :: Entry where
  "sample_entry =
     \<lparr>Flags = \<lparr>DataType = 1, Compressed = False, Tombstone = True\<rparr>,
      Key = bytes_of_string ''k1'', Keywords = [''Q4'', ''net-sales''],
      PrimaryData = [1, 2, 255], SecondaryData = [0, 7]\<rparr>"

lemma sample_keywords_good: "\<forall>kw \<in> set (Keywords sample_entry). good_keyword id kw"
  by (simp add: sample_entry_def good_keyword_def ValidateKeyword_def NormalizeKeyword_def ToLower_def
      ascii_lower_def in_range_def keywordRegex_def keyword_char_def entry_limits Let_def)

lemma sample_entry_encodes: "\<exists>bs. EncodeEntry id sample_entry = Inr bs"
proof -
  have "\<exists>kw. EncodeKeywords id (Keywords sample_entry) = Inr kw"
    using sample_keywords_good
    by (simp add: EncodeKeywords_Inr) (simp add: sample_entry_def keyword_block_def NormalizeKeyword_def
        ToLower_def)
  then show ?thesis
    by (auto simp: EncodeEntry_Inr) (simp add: sample_entry_def)
qed

theorem DecodeEntry_EncodeEntry_witness:
  "\<exists>bs. EncodeEntry id sample_entry = Inr bs \<and> length (PrimaryData sample_entry) < 2 ^ 32 \<and>
        length (SecondaryData sample_entry) < 2 ^ 32 \<and>
        DecodeEntry bs = Inr (stored_entry id sample_entry)"
proof -
  obtain bs where bs: "EncodeEntry id sample_entry = Inr bs"
    using sample_entry_encodes by blast
  have p: "length (PrimaryData sample_entry) < 2 ^ 32" and q: "length (SecondaryData sample_entry) < 2 ^ 32"
    by (simp_all add: sample_entry_def)
  show ?thesis
    using DecodeEntry_EncodeEntry [OF bs p q] bs p q by blast
qed

subsection \<open>Corruption of a stored entry\<close>

lemma length_put_crc: "18 \<le> length bs \<Longrightarrow> length (put_crc v bs) = length bs"
  by (simp add: put_crc_def codec_simps)

lemma put_crc_nth: "18 \<le> length bs \<Longrightarrow> i < 14 \<or> 18 \<le> i \<Longrightarrow> i < length bs \<Longrightarrow> put_crc v bs ! i = bs ! i"
  by (auto simp: put_crc_def nth_append codec_simps)

lemma put_crc_update_outside:
  assumes "18 \<le> length bs" and "i < 14 \<or> 18 \<le> i"
  shows "put_crc v (bs[i := b]) = (put_crc v bs)[i := b]"
  using assms
  by (auto simp: put_crc_def list_update_append take_update_swap drop_update_swap list_update_beyond
      codec_simps)

lemma put_crc_update_inside: "14 \<le> i \<Longrightarrow> i < 18 \<Longrightarrow> put_crc v (bs[i := b]) = put_crc v bs"
  by (simp add: put_crc_def)

lemma crc_field_update_outside: "i < 14 \<or> 18 \<le> i \<Longrightarrow> slice (bs[i := b]) 14 18 = slice bs 14 18"
  by (auto simp: slice_def drop_update_swap)

lemma crc_field_update_inside:
  assumes "14 \<le> i" "i < 18" "18 \<le> length bs" "b \<noteq> bs ! i"
  shows "BE_Uint32 (slice (bs[i := b]) 14 18) \<noteq> BE_Uint32 (slice bs 14 18)"
proof -
  have "slice (bs[i := b]) 14 18 ! (i - 14) = b" "slice bs 14 18 ! (i - 14) = bs ! i"
    using assms by (simp_all add: slice_def)
  with assms(4) have "slice (bs[i := b]) 14 18 \<noteq> slice bs 14 18" by auto
  with assms(3) show ?thesis by (simp add: be32.dec_eq_iff)
qed

lemma DecodeEntryHeader_Inr:
  "DecodeEntryHeader bs = Inr h \<Longrightarrow> 18 \<le> length bs \<and> HeaderCRC32 h = BE_Uint32 (slice bs 14 18)"
  by (auto simp: DecodeEntryHeader_def entry_limits split: if_splits)

lemma DecodeEntry_Inr_crc:
  "DecodeEntry bs = Inr e \<Longrightarrow>
   18 \<le> length bs \<and> BE_Uint32 (slice bs 14 18) = ChecksumIEEE (put_crc 0 bs)"
  by (auto simp: DecodeEntry_def dest: DecodeEntryHeader_Inr split: sum.splits if_splits)

lemma DecodeEntry_crc_mismatch:
  "BE_Uint32 (slice bs 14 18) \<noteq> ChecksumIEEE (put_crc 0 bs) \<Longrightarrow> \<exists>err. DecodeEntry bs = Inl err"
  using DecodeEntry_Inr_crc [of bs] by (cases "DecodeEntry bs") auto

text \<open>
  C31. The checksum catches every corruption of a single byte: when a byte slice decodes to an entry,
  the slice obtained by changing any one of its bytes, in the header, in the checksum field or in
  the data, is rejected with an error.
\<close>

theorem DecodeEntry_detects_corruption:
  assumes "DecodeEntry bs = Inr e" and "i < length bs" and "b \<noteq> bs ! i"
  shows "\<exists>err. DecodeEntry (bs[i := b]) = Inl err"
proof (rule DecodeEntry_crc_mismatch)
  from assms(1) have len: "18 \<le> length bs"
    and crc: "BE_Uint32 (slice bs 14 18) = ChecksumIEEE (put_crc 0 bs)"
    by (auto dest: DecodeEntry_Inr_crc)
  show "BE_Uint32 (slice (bs[i := b]) 14 18) \<noteq> ChecksumIEEE (put_crc 0 (bs[i := b]))"
  proof (cases "14 \<le> i \<and> i < 18")
    case True
    with len crc assms(3) show ?thesis
      using crc_field_update_inside [of i bs b] by (simp add: put_crc_update_inside)
  next
    case False
    then have out: "i < 14 \<or> 18 \<le> i" by auto
    have "ChecksumIEEE ((put_crc 0 bs)[i := b]) \<noteq> ChecksumIEEE (put_crc 0 bs)"
      using assms(2,3) len out by (intro ChecksumIEEE_one_byte) (simp_all add: length_put_crc put_crc_nth)
    with len crc out show ?thesis
      by (simp add: put_crc_update_outside crc_field_update_outside)
  qed
qed

theorem DecodeEntry_detects_corruption_witness:
  "\<exists>bs e. DecodeEntry bs = Inr e \<and> 0 < length bs \<and> 19 \<noteq> bs ! 0 \<and>
     (\<exists>err. DecodeEntry (bs[0 := 19]) = Inl err)"
proof -
  obtain bs where bs: "EncodeEntry id sample_entry = Inr bs"
    using sample_entry_encodes by blast
  then have first: "bs ! 0 = 18" and "bs \<noteq> []"
    by (auto simp: EncodeEntry_Inr header_bytes_def entry_header_def)
  have "DecodeEntry bs = Inr (stored_entry id sample_entry)"
    using bs by (rule entry_roundtrip) (simp_all add: sample_entry_def)
  moreover from this have "\<exists>err. DecodeEntry (bs[0 := 19]) = Inl err"
    by (rule DecodeEntry_detects_corruption) (simp_all add: first \<open>bs \<noteq> []\<close>)
  ultimately show ?thesis using first \<open>bs \<noteq> []\<close> by auto
qed

subsection \<open>What is accepted\<close>

lemma length_keyword_block:
  "length (keyword_block ul kws) = (\<Sum>kw\<leftarrow>kws. Suc (length (NormalizeKeyword ul kw)))"
  by (induction kws) (simp_all add: keyword_block_def)

lemma EncodeEntry_length:
  "EncodeEntry ul e = Inr bs \<Longrightarrow> CalculateTotalSize ul e = Inr (length bs)"
  by (auto simp: EncodeEntry_Inr CalculateTotalSize_def entry_body_def entry_limits)

text \<open>
  C32. \<^verbatim>\<open>EncodeEntry\<close> succeeds exactly when the key has at most 65535 bytes, there are at most
  65535 keywords, each of them validates after normalisation, and the keywords block fits into
  65535 bytes; the encoded entry then has the size \<^verbatim>\<open>CalculateTotalSize\<close> announces.
\<close>

theorem EncodeEntry_accepts:
  "(\<exists>bs. EncodeEntry ul e = Inr bs \<and> CalculateTotalSize ul e = Inr (length bs)) \<longleftrightarrow>
     length (Key e) \<le> MaxKeyLength \<and> length (Keywords e) \<le> 65535 \<and>
     list_all (\<lambda>kw. ValidateKeyword ul (NormalizeKeyword ul kw) = None) (Keywords e) \<and>
     2 + (\<Sum>kw\<leftarrow>Keywords e. Suc (length (NormalizeKeyword ul kw))) \<le> MaxKeywordsBlockSize"
proof -
  have "(\<exists>bs. EncodeEntry ul e = Inr bs \<and> CalculateTotalSize ul e = Inr (length bs)) \<longleftrightarrow>
      (\<exists>bs. EncodeEntry ul e = Inr bs)"
    by (auto simp: EncodeEntry_length)
  also have "\<dots> \<longleftrightarrow> length (Key e) \<le> 65535 \<and> (\<exists>kw. EncodeKeywords ul (Keywords e) = Inr kw)"
    by (auto simp: EncodeEntry_Inr)
  finally show ?thesis
    by (auto simp: EncodeKeywords_Inr length_keyword_block good_keyword_def list_all_iff entry_limits)
qed

text \<open>For an ASCII keyword, validation is a condition on its letters and its length.\<close>

lemma keyword_char_ascii: "keyword_char c \<Longrightarrow> code c < 0x80"
  by (auto simp: keyword_char_def in_range_def)

lemma good_keyword_ascii:
  "is_ascii kw \<Longrightarrow> good_keyword ul kw \<longleftrightarrow>
     kw \<noteq> [] \<and> length kw \<le> 128 \<and> list_all (\<lambda>c. keyword_char (ascii_lower c)) kw"
  by (auto simp: good_keyword_def NormalizeKeyword_def ValidateKeyword_None ToLower_def is_ascii_map_lower
      ValidString_ascii keywordRegex_def list.pred_map comp_def)

end
