(* ===== verification/Forward_Index.thy ===== *)
theory Forward_Index
  imports Types
begin

section \<open>The forward index\<close>

text \<open>
  \<^verbatim>\<open>internal/storage/forward_index.go\<close>: the map from vector ids to (key, block index), the
  allocation of ids, the eight-byte form of an id, and persistence. A file written with
  \<^verbatim>\<open>encoding/gob\<close> is the value that was encoded (\<open>GobFile\<close>), is missing (\<open>NoFile\<close>) or
  does not decode (\<open>BadFile\<close>); decoding a map into an existing map adds its entries to it, as
  the package documents. The locale \<open>doc_map\<close> is what a collection relies on.
\<close>

datatype 'a gob_file = NoFile | BadFile | GobFile 'a

record DocLocation =
  LocKey :: string
  LocIndex :: uint32

record ForwardIndex =
  mapping :: "(uint64, DocLocation) gomap"

definition NewForwardIndex :: ForwardIndex where
  "NewForwardIndex = \<lparr>mapping = []\<rparr>"

definition FI_Add :: "uint64 \<Rightarrow> string \<Rightarrow> uint32 \<Rightarrow> ForwardIndex \<Rightarrow> ForwardIndex" where
  "FI_Add vectorID key index fi =
     fi\<lparr>mapping := mput vectorID \<lparr>LocKey = key, LocIndex = index\<rparr> (mapping fi)\<rparr>"

definition FI_Get :: "ForwardIndex \<Rightarrow> uint64 \<Rightarrow> DocLocation option" where
  "FI_Get fi vectorID = mget (mapping fi) vectorID"

definition FI_Delete :: "uint64 \<Rightarrow> ForwardIndex \<Rightarrow> ForwardIndex" where
  "FI_Delete vectorID fi = fi\<lparr>mapping := mdel vectorID (mapping fi)\<rparr>"

definition FI_Count :: "ForwardIndex \<Rightarrow> nat" where
  "FI_Count fi = length (mapping fi)"

definition FI_Save :: "ForwardIndex \<Rightarrow> (uint64, DocLocation) gomap gob_file" where
  "FI_Save fi = GobFile (mapping fi)"

definition FI_Load ::
  "(uint64, DocLocation) gomap gob_file \<Rightarrow> ForwardIndex \<Rightarrow> ForwardIndex \<times> go_error option" where
  "FI_Load file fi =
     (case file of
        NoFile \<Rightarrow> (fi\<lparr>mapping := []\<rparr>, None)
      | BadFile \<Rightarrow> (fi, Some UnexpectedEOF)
      | GobFile m \<Rightarrow> (fi\<lparr>mapping := fold (\<lambda>(k, v). mput k v) m (mapping fi)\<rparr>, None))"

definition GetNextVectorID :: "ForwardIndex \<Rightarrow> uint64" where
  "GetNextVectorID fi =
     fold (\<lambda>id maxID. if id > maxID then id else maxID) (mkeys (mapping fi)) 0 + 1"

definition VectorIDToBytes :: "uint64 \<Rightarrow> bytes" where
  "VectorIDToBytes vid = BE_PutUint64 vid"

definition BytesToVectorID :: "bytes \<Rightarrow> go_error + uint64" where
  "BytesToVectorID data =
     (if length data \<noteq> 8 then Inl BadVectorIDLength else Inr (BE_Uint64 data))"

subsection \<open>Allocation of ids\<close>

lemma fold_max_ge:
  "m \<le> fold (\<lambda>id maxID. if id > maxID then id else maxID) ids m" for m :: "'a::linorder"
proof (induction ids arbitrary: m)
  case (Cons id ids)
  have "(if id > m then id else m) \<le>
      fold (\<lambda>id maxID. if id > maxID then id else maxID) ids (if id > m then id else m)"
    by (rule Cons.IH)
  then show ?case by (auto split: if_splits)
qed simp

lemma word_less_succ: "m \<noteq> - 1 \<Longrightarrow> m < m + 1" for m :: uint64
  by (metis inc_less_eq_triv_imp linorder_less_linear word_le_less_eq)

lemma fold_max_upper:
  "v \<in> set ids \<Longrightarrow> v \<le> fold (\<lambda>id maxID. if id > maxID then id else maxID) ids m" for m :: "'a::linorder"
proof (induction ids arbitrary: m)
  case (Cons x ids)
  show ?case
  proof (cases "v = x")
    case True
    then have "v \<le> (if x > m then x else m)" by auto
    also have "\<dots> \<le> fold (\<lambda>id maxID. if id > maxID then id else maxID) ids (if x > m then x else m)"
      by (rule fold_max_ge)
    finally show ?thesis by simp
  next
    case False
    with Cons show ?thesis by simp
  qed
qed simp

lemma fold_max_mem:
  "fold (\<lambda>id maxID. if id > maxID then id else maxID) ids m \<in> insert m (set ids)" for m :: "'a::linorder"
proof (induction ids arbitrary: m)
  case (Cons x ids)
  show ?case using Cons [of "if x > m then x else m"] by (auto split: if_splits)
qed simp

text \<open>Unless the largest id is taken, the next id is above every id of the index.\<close>

lemma GetNextVectorID_above:
  assumes "FI_Get fi (- 1) = None" and "FI_Get fi v = Some loc"
  shows "v < GetNextVectorID fi"
proof -
  define ids where "ids = mkeys (mapping fi)"
  define mx where "mx = fold (\<lambda>id maxID. if id > maxID then id else maxID) ids 0"
  have v: "v \<in> set ids" and top: "- 1 \<notin> set ids"
    using assms mget_None_iff [of "mapping fi" v] mget_None_iff [of "mapping fi" "- 1"]
    by (simp_all add: FI_Get_def ids_def del: set_map)
  from v have "v \<le> mx"
    unfolding mx_def by (rule fold_max_upper)
  moreover have "mx \<in> insert 0 (set ids)"
    unfolding mx_def by (rule fold_max_mem)
  with top have "mx \<noteq> - 1" by auto
  then have "mx < mx + 1"
    by (rule word_less_succ)
  ultimately show ?thesis
    by (simp add: GetNextVectorID_def mx_def ids_def)
qed

lemma GetNextVectorID_wraps:
  assumes "FI_Get fi (- 1) = Some loc"
  shows "GetNextVectorID fi = 0"
proof -
  have "- 1 \<in> set (mkeys (mapping fi))"
    using assms by (metis FI_Get_def mget_None_iff option.distinct(1))
  then have "(- 1 :: uint64) \<le> fold (\<lambda>id maxID. if id > maxID then id else maxID) (mkeys (mapping fi)) 0"
    by (rule fold_max_upper)
  then have "fold (\<lambda>id maxID. if id > maxID then id else maxID) (mkeys (mapping fi)) 0 = (- 1 :: uint64)"
    by (simp add: word_order.extremum_unique)
  then show ?thesis by (simp add: GetNextVectorID_def)
qed

subsection \<open>The interface\<close>

lemma FI_Get_Add [simp]:
  "FI_Get (FI_Add v k i fi) w = (if w = v then Some \<lparr>LocKey = k, LocIndex = i\<rparr> else FI_Get fi w)"
  by (simp add: FI_Get_def FI_Add_def)

lemma FI_Get_Delete [simp]: "FI_Get (FI_Delete v fi) w = (if w = v then None else FI_Get fi w)"
  by (simp add: FI_Get_def FI_Delete_def)

lemma FI_Get_New [simp]: "FI_Get NewForwardIndex v = None"
  by (simp add: FI_Get_def NewForwardIndex_def)

locale doc_map =
  fixes lookup :: "'m \<Rightarrow> uint64 \<Rightarrow> DocLocation option"
    and add :: "uint64 \<Rightarrow> string \<Rightarrow> uint32 \<Rightarrow> 'm \<Rightarrow> 'm"
    and remove :: "uint64 \<Rightarrow> 'm \<Rightarrow> 'm"
    and next_id :: "'m \<Rightarrow> uint64"
  assumes lookup_add: "lookup (add v k i m) w =
        (if w = v then Some \<lparr>LocKey = k, LocIndex = i\<rparr> else lookup m w)"
    and lookup_remove: "lookup (remove v m) w = (if w = v then None else lookup m w)"
    and next_above: "lookup m (- 1) = None \<Longrightarrow> lookup m v = Some loc \<Longrightarrow> v < next_id m"
begin

lemma next_fresh: "lookup m (- 1) = None \<Longrightarrow> lookup m (next_id m) = None"
  using next_above [of m "next_id m"] by (cases "lookup m (next_id m)") auto

lemma append_keeps:
  "lookup m (- 1) = None \<Longrightarrow> lookup m w = Some loc \<Longrightarrow> lookup (add (next_id m) k i m) w = Some loc"
  using next_fresh by (auto simp: lookup_add)

lemma append_new: "lookup (add (next_id m) k i m) (next_id m) = Some \<lparr>LocKey = k, LocIndex = i\<rparr>"
  by (simp add: lookup_add)

lemma remove_all: "lookup (fold remove vs m) w = (if w \<in> set vs then None else lookup m w)"
  by (induction vs arbitrary: m) (auto simp: lookup_remove)

end

interpretation fwd: doc_map FI_Get FI_Add FI_Delete GetNextVectorID
  by unfold_locales (simp_all add: GetNextVectorID_above)

text \<open>
  Allocation of vector ids: as long as the id \<^verbatim>\<open>2^64 - 1\<close> is not in use,
  \<^verbatim>\<open>GetNextVectorID\<close> returns an id that is not in the index and is above every id in it; once that
  id is in use the addition wraps around and every call returns 0.
\<close>

theorem GetNextVectorID_fresh:
  "(FI_Get fi (- 1) = None \<longrightarrow>
      FI_Get fi (GetNextVectorID fi) = None \<and>
      (\<forall>v loc. FI_Get fi v = Some loc \<longrightarrow> v < GetNextVectorID fi)) \<and>
   (FI_Get fi (- 1) \<noteq> None \<longrightarrow> GetNextVectorID fi = 0)"
  using fwd.next_fresh GetNextVectorID_above GetNextVectorID_wraps by blast

theorem GetNextVectorID_fresh_witness:
  "FI_Get (FI_Add 7 ''a'' 0 NewForwardIndex) (- 1) = None \<and>
   FI_Get (FI_Add 7 ''a'' 0 NewForwardIndex) (GetNextVectorID (FI_Add 7 ''a'' 0 NewForwardIndex)) = None \<and>
   7 < GetNextVectorID (FI_Add 7 ''a'' 0 NewForwardIndex)"
  using GetNextVectorID_fresh [of "FI_Add 7 ''a'' 0 NewForwardIndex"] by simp

text \<open>
  The eight-byte form of a vector id: \<^verbatim>\<open>BytesToVectorID\<close> accepts a slice exactly when
  \<^verbatim>\<open>VectorIDToBytes\<close> wrote it, and returns the id it was written for.
\<close>

theorem VectorID_bytes_roundtrip: "BytesToVectorID bs = Inr v \<longleftrightarrow> bs = VectorIDToBytes v"
  by (auto simp: BytesToVectorID_def VectorIDToBytes_def be64.enc_length be64.dec_enc be64.enc_dec)

subsection \<open>Persistence\<close>

lemma FI_Load_Save:
  "wf_map (mapping fi) \<Longrightarrow> FI_Get (fst (FI_Load (FI_Save fi) NewForwardIndex)) v = FI_Get fi v"
  by (simp add: FI_Load_def FI_Save_def FI_Get_def NewForwardIndex_def mget_fold_mput split: option.split)

end
