(* ===== verification/Shard_Store.thy ===== *)
theory Shard_Store
  imports Forward_Index
begin

section \<open>The sharded record store\<close>

text \<open>
  \<^verbatim>\<open>internal/storage/storage.go\<close> and \<^verbatim>\<open>compress.go\<close>: sixteen append-only files of records
  \<^verbatim>\<open>[KeyLen(4)][Key][PayloadLen(4)][Payload]\<close>, each with an in-memory index from keys to the
  offsets of their records, an index file, and a rebuild of the index from the data file.

  An open file is the list of its bytes; every write goes to the end of the file or to an explicit
  offset, so the file position is not part of the state. The two external packages are the fields of
  \<open>Libs\<close>: the BLAKE3 digest and the zstd encoder and decoder. The theorems rely on one documented
  property of them, \<open>zstd_ok\<close>: the decoder returns what the encoder was given. Failures of the
  operating system other than the end of a file are not modelled.
\<close>

record Libs =
  blake3_sum :: "bytes \<Rightarrow> bytes"
  zstd_EncodeAll :: "bytes \<Rightarrow> bytes"
  zstd_DecodeAll :: "bytes \<Rightarrow> bytes option"

definition CompressBytes :: "Libs \<Rightarrow> bytes \<Rightarrow> bytes" where
  "CompressBytes lib src = zstd_EncodeAll lib src"

definition DecompressBytes :: "Libs \<Rightarrow> bytes \<Rightarrow> go_error + bytes" where
  "DecompressBytes lib src =
     (case zstd_DecodeAll lib src of None \<Rightarrow> Inl DecompressError | Some out \<Rightarrow> Inr out)"

definition zstd_ok :: "Libs \<Rightarrow> bool" where
  "zstd_ok lib \<longleftrightarrow> (\<forall>src. zstd_DecodeAll lib (zstd_EncodeAll lib src) = Some src)"

definition PartitionCount :: uint32 where "PartitionCount = 16"
definition maxKeyLen :: nat where "maxKeyLen = 1024"
definition MaxInt32 :: nat where "MaxInt32 = 2147483647"

type_synonym offset_index = "(string, nat list) gomap"

record Bucket =
  BucketFile :: bytes
  Index :: offset_index
  IndexFile :: "offset_index gob_file"

record Manager =
  Buckets :: "(uint32, Bucket) gomap"

definition getBucketID :: "Libs \<Rightarrow> string \<Rightarrow> uint32" where
  "getBucketID lib key =
     BE_Uint32 (take 4 (blake3_sum lib (bytes_of_string key))) mod PartitionCount"

text \<open>\<^verbatim>\<open>m.Buckets[m.getBucketID(key)]\<close>; the fields of a nil bucket cannot be accessed.\<close>

definition bucket_of :: "Libs \<Rightarrow> Manager \<Rightarrow> string \<Rightarrow> go_error + Bucket" where
  "bucket_of lib m key =
     (case mget (Buckets m) (getBucketID lib key) of
        None \<Rightarrow> Inl (GoPanic ''nil bucket'')
      | Some b \<Rightarrow> Inr b)"

definition set_bucket :: "uint32 \<Rightarrow> Bucket \<Rightarrow> Manager \<Rightarrow> Manager" where
  "set_bucket bid b m = m\<lparr>Buckets := mput bid b (Buckets m)\<rparr>"

subsection \<open>Files\<close>

text \<open>
  \<^verbatim>\<open>ReadAt\<close> with a buffer of \<open>k\<close> bytes returns the bytes it got and whether it met the end of
  the file before the buffer was full. \<^verbatim>\<open>WriteAt\<close> past the end leaves a hole of zeros.
\<close>

definition ReadAt :: "bytes \<Rightarrow> nat \<Rightarrow> nat \<Rightarrow> bytes \<times> bool" where
  "ReadAt file k off = (let got = take k (drop off file) in (got, length got < k))"

definition WriteAt :: "bytes \<Rightarrow> bytes \<Rightarrow> nat \<Rightarrow> bytes" where
  "WriteAt file p off =
     (if p = [] then file
      else take off (file @ replicate (off - length file) 0) @ p @ drop (off + length p) file)"

subsection \<open>Records\<close>

definition record_bytes :: "string \<Rightarrow> bytes \<Rightarrow> bytes" where
  "record_bytes key compressed =
     BE_PutUint32 (of_nat (length key)) @ bytes_of_string key @
     BE_PutUint32 (of_nat (length compressed)) @ compressed"

definition readRecordAt :: "Libs \<Rightarrow> Bucket \<Rightarrow> nat \<Rightarrow> go_error + bytes" where
  "readRecordAt lib b offset =
     (let bufSize = 4096;
          buf = fst (ReadAt (BucketFile b) bufSize offset);
          n = length buf
      in if n < 4 then Inl RecordTooShort
         else
           let keyLen = BE_Uint32 (slice buf 0 4);
               headerEnd = 4 + unat keyLen + 4
           in if n < headerEnd then
                (case ReadAt (BucketFile b) (headerEnd - n) (offset + n) of
                   (_, True) \<Rightarrow> Inl UnexpectedEOF
                 | (remainingHeader, False) \<Rightarrow>
                     let fullHeader = buf @ remainingHeader;
                         payloadLen = BE_Uint32 (take 4 (drop (unat (4 + keyLen)) fullHeader))
                     in case ReadAt (BucketFile b) (unat payloadLen) (offset + headerEnd) of
                          (_, True) \<Rightarrow> Inl UnexpectedEOF
                        | (payload, False) \<Rightarrow> DecompressBytes lib payload)
              else
                let payloadLen = BE_Uint32 (slice buf (unat (4 + keyLen)) headerEnd);
                    totalSize = headerEnd + unat payloadLen
                in if n \<ge> totalSize then DecompressBytes lib (slice buf headerEnd totalSize)
                   else
                     (case ReadAt (BucketFile b) (unat payloadLen - (n - headerEnd)) (offset + n) of
                        (_, True) \<Rightarrow> Inl UnexpectedEOF
                      | (remainingPayload, False) \<Rightarrow>
                          DecompressBytes lib (slice buf headerEnd n @ remainingPayload)))"

subsection \<open>Operations\<close>

definition Mgr_Append :: "Libs \<Rightarrow> string \<Rightarrow> bytes \<Rightarrow> Manager \<Rightarrow> Manager \<times> go_error option" where
  "Mgr_Append lib key payload m =
     (if length key = 0 \<or> length key > maxKeyLen then (m, Some InvalidKeyLength)
      else case bucket_of lib m key of
        Inl err \<Rightarrow> (m, Some err)
      | Inr bucket \<Rightarrow>
          let offset = length (BucketFile bucket);
              compressedPayload = CompressBytes lib payload
          in if length compressedPayload \<ge> MaxInt32 then (m, Some PayloadTooLarge)
             else
               let bucket = bucket\<lparr>BucketFile := BucketFile bucket @ record_bytes key compressedPayload,
                     Index := mput key (mget0 [] (Index bucket) key @ [offset]) (Index bucket)\<rparr>
               in (set_bucket (getBucketID lib key) bucket m, None))"

definition group_by_bucket ::
  "Libs \<Rightarrow> (string, bytes) gomap \<Rightarrow> (uint32, (string \<times> bytes) list) gomap" where
  "group_by_bucket lib entries =
     fold (\<lambda>(k, v) grouped.
             let bid = getBucketID lib k in mput bid (mget0 [] grouped bid @ [(k, v)]) grouped)
       entries []"

text \<open>The loop that writes the prepared records of one bucket: the file, the running offset and the
  new index entries.\<close>

fun write_batch ::
  "(string \<times> bytes) list \<Rightarrow> bytes \<times> nat \<times> (string, nat) gomap \<Rightarrow> bytes \<times> nat \<times> (string, nat) gomap" where
  "write_batch [] st = st"
| "write_batch ((k, buf) # ps) (file, offset, newIndexEntries) =
     (if length buf = 0 then write_batch ps (file, offset, newIndexEntries)
      else write_batch ps (file @ buf, offset + length buf, mput k offset newIndexEntries))"

definition batch_bucket :: "Libs \<Rightarrow> (string \<times> bytes) list \<Rightarrow> Bucket \<Rightarrow> Bucket" where
  "batch_bucket lib items bucket =
     (let prepared = map (\<lambda>(k, p). (k, record_bytes k (CompressBytes lib p))) items;
          (file, offset, newIndexEntries) =
            write_batch prepared (BucketFile bucket, length (BucketFile bucket), []);
          index = fold (\<lambda>(k, off) idx. mput k (mget0 [] idx k @ [off]) idx) newIndexEntries (Index bucket)
      in bucket\<lparr>BucketFile := file, Index := index\<rparr>)"

definition Mgr_BatchAppend ::
  "Libs \<Rightarrow> (string, bytes) gomap \<Rightarrow> Manager \<Rightarrow> Manager \<times> go_error option" where
  "Mgr_BatchAppend lib entries m =
     fold (\<lambda>(bid, items) (m, err).
             case mget (Buckets m) bid of
               None \<Rightarrow> (m, Some (GoPanic ''nil bucket''))
             | Some bucket \<Rightarrow> (set_bucket bid (batch_bucket lib items bucket) m, err))
       (group_by_bucket lib entries) (m, None)"

definition Mgr_Get :: "Libs \<Rightarrow> string \<Rightarrow> int \<Rightarrow> Manager \<Rightarrow> go_error + bytes" where
  "Mgr_Get lib key index m =
     (case bucket_of lib m key of
        Inl err \<Rightarrow> Inl err
      | Inr bucket \<Rightarrow>
          (case mget (Index bucket) key of
             None \<Rightarrow> Inl IndexOutOfBounds
           | Some offsets \<Rightarrow>
               if index \<ge> int (length offsets) \<or> index < 0 then Inl IndexOutOfBounds
               else readRecordAt lib bucket (offsets ! nat index)))"

definition Mgr_GetLength :: "Libs \<Rightarrow> string \<Rightarrow> Manager \<Rightarrow> go_error + nat" where
  "Mgr_GetLength lib key m =
     (case bucket_of lib m key of
        Inl err \<Rightarrow> Inl err
      | Inr bucket \<Rightarrow> Inr (length (mget0 [] (Index bucket) key)))"

definition Mgr_Update ::
  "Libs \<Rightarrow> string \<Rightarrow> int \<Rightarrow> bytes \<Rightarrow> Manager \<Rightarrow> Manager \<times> go_error option" where
  "Mgr_Update lib key index payload m =
     (case bucket_of lib m key of
        Inl err \<Rightarrow> (m, Some err)
      | Inr bucket \<Rightarrow>
          (case mget (Index bucket) key of
             None \<Rightarrow> (m, Some ItemNotFound)
           | Some offsets \<Rightarrow>
               if index \<ge> int (length offsets) then (m, Some ItemNotFound)
               else if index < 0 then (m, Some (GoPanic ''index out of range''))
               else
                 let payloadOffset = offsets ! nat index + (4 + length key + 4)
                 in (set_bucket (getBucketID lib key)
                       (bucket\<lparr>BucketFile := WriteAt (BucketFile bucket) payload payloadOffset\<rparr>) m,
                     None)))"

definition Mgr_DeleteKey :: "Libs \<Rightarrow> string \<Rightarrow> Manager \<Rightarrow> Manager \<times> go_error option" where
  "Mgr_DeleteKey lib key m =
     (case bucket_of lib m key of
        Inl err \<Rightarrow> (m, Some err)
      | Inr bucket \<Rightarrow>
          (set_bucket (getBucketID lib key) (bucket\<lparr>Index := mdel key (Index bucket)\<rparr>) m, None))"

text \<open>\<^verbatim>\<open>bytes.Contains\<close>.\<close>

fun bytes_Contains :: "bytes \<Rightarrow> bytes \<Rightarrow> bool" where
  "bytes_Contains [] p \<longleftrightarrow> p = []"
| "bytes_Contains (x # xs) p \<longleftrightarrow> take (length p) (x # xs) = p \<or> bytes_Contains xs p"

definition scan :: "Libs \<Rightarrow> bytes \<Rightarrow> Bucket \<Rightarrow> bytes list" where
  "scan lib pattern b =
     concat (map (\<lambda>(key, offsets).
         concat (map (\<lambda>offset. case readRecordAt lib b offset of
             Inl err \<Rightarrow> []
           | Inr val \<Rightarrow> if bytes_Contains val pattern then [val] else []) offsets)) (Index b))"

definition SearchGlobal :: "Libs \<Rightarrow> bytes \<Rightarrow> Manager \<Rightarrow> bytes list" where
  "SearchGlobal lib pattern m = concat (map (\<lambda>(bid, b). scan lib pattern b) (Buckets m))"

definition Mgr_GetKeys :: "Manager \<Rightarrow> string list" where
  "Mgr_GetKeys m = concat (map (\<lambda>(bid, b). mkeys (Index b)) (Buckets m))"

fun read_all :: "Libs \<Rightarrow> Bucket \<Rightarrow> nat list \<Rightarrow> go_error + bytes list" where
  "read_all lib b [] = Inr []"
| "read_all lib b (offset # offsets) =
     (case readRecordAt lib b offset of
        Inl err \<Rightarrow> Inl err
      | Inr val \<Rightarrow>
          (case read_all lib b offsets of Inl err \<Rightarrow> Inl err | Inr vals \<Rightarrow> Inr (val # vals)))"

definition Mgr_GetAllValues :: "Libs \<Rightarrow> string \<Rightarrow> Manager \<Rightarrow> go_error + bytes list" where
  "Mgr_GetAllValues lib key m =
     (case bucket_of lib m key of
        Inl err \<Rightarrow> Inl err
      | Inr bucket \<Rightarrow>
          (case mget (Index bucket) key of
             None \<Rightarrow> Inl KeyNotFound
           | Some offsets \<Rightarrow> read_all lib bucket offsets))"

text \<open>A snapshot directory holds one copy of every data file, here under the number of its shard.\<close>

definition Snapshot :: "Manager \<Rightarrow> (uint32, bytes) gomap" where
  "Snapshot m = map (\<lambda>(bid, b). (bid, BucketFile b)) (Buckets m)"

subsection \<open>Persistence\<close>

definition saveIndex :: "Bucket \<Rightarrow> Bucket" where
  "saveIndex b = b\<lparr>IndexFile := GobFile (Index b)\<rparr>"

definition loadIndex :: "Bucket \<Rightarrow> Bucket \<times> go_error option" where
  "loadIndex b =
     (case IndexFile b of
        NoFile \<Rightarrow> (b, Some FileNotFound)
      | BadFile \<Rightarrow> (b, Some UnexpectedEOF)
      | GobFile m \<Rightarrow> (b\<lparr>Index := fold (\<lambda>(k, v). mput k v) m (Index b)\<rparr>, None))"

function rebuild_from :: "bytes \<Rightarrow> nat \<Rightarrow> offset_index \<Rightarrow> offset_index" where
  "rebuild_from file offset idx =
     (if offset \<ge> length file then idx
      else if length file < offset + 4 then idx
      else
        let keyLen = unat (BE_Uint32 (slice file offset (offset + 4)));
            keyStart = offset + 4;
            keyEnd = keyStart + keyLen
        in if length file < keyEnd then idx
           else
             let key = string_of_bytes (slice file keyStart keyEnd)
             in if length file < keyEnd + 4 then idx
                else
                  let payloadLen = unat (BE_Uint32 (slice file keyEnd (keyEnd + 4)))
                  in rebuild_from file (keyEnd + 4 + payloadLen)
                       (mput key (mget0 [] idx key @ [offset]) idx))"
  by pat_completeness auto
termination
  by (relation "measure (\<lambda>(file, offset, idx). length file - offset)") auto

declare rebuild_from.simps [simp del]

definition rebuildIndex :: "Bucket \<Rightarrow> Bucket" where
  "rebuildIndex b = b\<lparr>Index := rebuild_from (BucketFile b) 0 []\<rparr>"

text \<open>
  The files of one shard: the data file and the index file. \<^verbatim>\<open>NewManager\<close> opens (and creates)
  the sixteen data files; a missing file is empty.
\<close>

type_synonym shard_disk = "bytes \<times> offset_index gob_file"

definition open_bucket :: "shard_disk \<Rightarrow> Bucket" where
  "open_bucket d =
     (let b = \<lparr>BucketFile = fst d, Index = [], IndexFile = snd d\<rparr>
      in case loadIndex b of
           (b, None) \<Rightarrow> b
         | (b, Some err) \<Rightarrow> saveIndex (rebuildIndex b))"

definition NewManager :: "(uint32, shard_disk) gomap \<Rightarrow> Manager" where
  "NewManager disk =
     \<lparr>Buckets = fold (\<lambda>i bs. let bucketID = of_nat i
                in mput bucketID (open_bucket (mget0 ([], NoFile) disk bucketID)) bs)
        [0..<unat PartitionCount] []\<rparr>"

definition Mgr_Close :: "Manager \<Rightarrow> (uint32, shard_disk) gomap" where
  "Mgr_Close m = map (\<lambda>(bid, b). (bid, (BucketFile b, IndexFile (saveIndex b)))) (Buckets m)"

end
