(* ===== verification/Shard_Refinement.thy ===== *)
theory Shard_Refinement
  imports Shard_Store "HOL-Library.Sublist"
begin

section \<open>Correctness of the record store\<close>

text \<open>
  The specification of the store is a map from keys to the list of their payloads (\<open>contents\<close>) and
  the log of all records ever appended. \<open>store_rep\<close> relates a manager to both; the operations of
  \<open>Shard_Store\<close> preserve it, and restarts relate it to what is on disk. The locale
  \<open>record_store\<close> is the interface the vector manager uses.
\<close>

subsection \<open>The reference reader\<close>

definition parse_record :: "Libs \<Rightarrow> bytes \<Rightarrow> go_error + bytes" where
  "parse_record lib d =
     (if length d < 4 then Inl RecordTooShort
      else
        let kl = unat (BE_Uint32 (take 4 d))
        in if length d < 8 + kl then Inl UnexpectedEOF
           else
             let pl = unat (BE_Uint32 (take 4 (drop (4 + kl) d)))
             in if length d < 8 + kl + pl then Inl UnexpectedEOF
                else DecompressBytes lib (take pl (drop (8 + kl) d)))"

lemma take_drop_stitch:
  assumes "h \<le> n" and "n - h \<le> p"
  shows "take (n - h) (drop h d) @ take (p - (n - h)) (drop n d) = take p (drop h d)"
  using take_add [of "n - h" "p - (n - h)" "drop h d"] assms by simp

text \<open>
  The two ways of the reader: the payload length lies beyond the first buffer and is read on its own,
  or the buffer holds it, with the payload or with its beginning. Here \<open>d\<close> is the rest of the file from
  the offset on, \<open>kl\<close> the length of the key and \<open>p\<close> that of the payload.
\<close>

lemma ReadAt_rest:
  "0 < k \<or> i \<le> length (drop off f) \<Longrightarrow> ReadAt f k (off + i) = (take k (drop i (drop off f)), length (drop off f) < i + k)"
  by (auto simp: ReadAt_def Let_def add.commute)

lemma buffer_stitch: "take n d @ take k (drop n d) = take (n + k) d"
  by (simp add: take_add)

lemma parse_record_long:
  assumes "\<not> length d < 4" and "kl = unat (BE_Uint32 (take 4 d))" and "p = BE_Uint32 (take 4 (drop (4 + kl) d))"
  shows "parse_record lib d = (if length d < 8 + kl \<or> length d < 8 + kl + unat p then Inl UnexpectedEOF
     else DecompressBytes lib (take (unat p) (drop (8 + kl) d)))"
  using assms by (simp add: parse_record_def Let_def)

lemma readRecordAt_far:
  fixes b off
  defines "d \<equiv> drop off (BucketFile b)"
  defines "n \<equiv> min 4096 (length d)"
  assumes kl: "kl = unat (BE_Uint32 (take 4 d))" "kl + 4 < 2 ^ 32" and len: "\<not> length d < 4" and far: "n < 4 + kl + 4"
  shows "readRecordAt lib b off = parse_record lib d"
proof -
  let ?w = "BE_Uint32 (take 4 d)" and ?p = "BE_Uint32 (take 4 (drop (4 + kl) d))"
  note rd = ReadAt_rest [of _ _ off "BucketFile b", folded d_def]
  have buf: "fst (ReadAt (BucketFile b) 4096 off) = take n d" by (simp add: ReadAt_def d_def n_def min_def)
  have w: "unat (4 + ?w) = 4 + kl" using kl by (simp add: unat_word_ariths)
  have n4: "\<not> n < 4" and ln: "length (take n d) = n" and w': "BE_Uint32 (slice (take n d) 0 4) = ?w"
    using len by (simp_all add: n_def slice_def)
  have p': "BE_Uint32 (take 4 (drop (4 + kl) (take n d @ take (4 + kl + 4 - n) (drop n d)))) = ?p"
    using far by (simp add: buffer_stitch drop_take)
  have "readRecordAt lib b off =
      (case (take (8 + kl - n) (drop n d), length d < 8 + kl) of
         (_, True) \<Rightarrow> Inl UnexpectedEOF
       | (x, False) \<Rightarrow> (case ReadAt (BucketFile b) (unat ?p) (off + (8 + kl)) of
            (_, True) \<Rightarrow> Inl UnexpectedEOF | (y, False) \<Rightarrow> DecompressBytes lib y))"
    using far n4 p' rd [of "4 + kl + 4 - n" n]
    unfolding readRecordAt_def Let_def buf ln w' w kl(1) [symmetric]
    by (simp add: add.commute del: take_append drop_append)
  then show ?thesis
    unfolding parse_record_long [OF len kl(1) refl] by (cases "length d < 8 + kl") (simp_all add: rd split: bool.split)
qed

lemma readRecordAt_near:
  fixes b off
  defines "d \<equiv> drop off (BucketFile b)"
  defines "n \<equiv> min 4096 (length d)"
  assumes kl: "kl = unat (BE_Uint32 (take 4 d))" "kl + 4 < 2 ^ 32" and len: "\<not> length d < 4" and near: "\<not> n < 4 + kl + 4"
  shows "readRecordAt lib b off = parse_record lib d"
proof -
  let ?w = "BE_Uint32 (take 4 d)" and ?p = "BE_Uint32 (take 4 (drop (4 + kl) d))" and ?buf = "take n d"
  note rd = ReadAt_rest [of _ _ off "BucketFile b", folded d_def]
  have buf: "fst (ReadAt (BucketFile b) 4096 off) = ?buf" by (simp add: ReadAt_def d_def n_def min_def)
  have w: "unat (4 + ?w) = 4 + kl" using kl by (simp add: unat_word_ariths)
  have n4: "\<not> n < 4" and ln: "length ?buf = n" and w': "BE_Uint32 (slice ?buf 0 4) = ?w"
    using len by (simp_all add: n_def slice_def)
  have sl: "slice ?buf (4 + kl) (4 + kl + 4) = take 4 (drop (4 + kl) d)" using near by (simp add: slice_def drop_take)
  have "readRecordAt lib b off =
      (if n \<ge> 4 + kl + 4 + unat ?p then DecompressBytes lib (slice ?buf (4 + kl + 4) (4 + kl + 4 + unat ?p))
       else (case (take (unat ?p - (n - (4 + kl + 4))) (drop n d), length d < 8 + kl + unat ?p) of
         (_, True) \<Rightarrow> Inl UnexpectedEOF
       | (y, False) \<Rightarrow> DecompressBytes lib (slice ?buf (4 + kl + 4) n @ y)))"
    using near n4 rd [of "unat ?p - (n - (4 + kl + 4))" n]
    unfolding readRecordAt_def Let_def buf ln w' w kl(1) [symmetric] sl
    by (simp add: add.commute split del: if_split) (simp add: add.commute)
  moreover have "slice ?buf (4 + kl + 4) n @ take (unat ?p - (n - (4 + kl + 4))) (drop n d) =
      take (unat ?p) (drop (8 + kl) d)" if "\<not> n \<ge> 4 + kl + 4 + unat ?p"
    using near that take_drop_stitch [of "4 + kl + 4" n "unat ?p" d] by (simp add: slice_def drop_take add.commute)
  moreover have "slice ?buf (4 + kl + 4) (4 + kl + 4 + unat ?p) = take (unat ?p) (drop (8 + kl) d)"
    "\<not> length d < 8 + kl + unat ?p" if "n \<ge> 4 + kl + 4 + unat ?p"
    using that by (auto simp: slice_def drop_take add.commute n_def min_def split: if_splits)
  ultimately show ?thesis
    using near unfolding parse_record_long [OF len kl(1) refl] by (auto simp: n_def split: bool.split)
qed

lemma readRecordAt_parse:
  assumes "unat (BE_Uint32 (take 4 (drop off (BucketFile b)))) + 4 < 2 ^ 32"
  shows "readRecordAt lib b off = parse_record lib (drop off (BucketFile b))"
proof (cases "length (drop off (BucketFile b)) < 4")
  case True
  then show ?thesis by (auto simp: readRecordAt_def parse_record_def ReadAt_def Let_def)
next
  case False
  from readRecordAt_far [OF refl assms False, of lib] readRecordAt_near [OF refl assms False, of lib] show ?thesis by blast
qed

subsection \<open>The log of a bucket\<close>

text \<open>
  A record can be read back when its two lengths fit their four-byte fields (with room for the
  header arithmetic); \<^verbatim>\<open>Append\<close> admits only such records.
\<close>

definition record_ok :: "Libs \<Rightarrow> string \<times> bytes \<Rightarrow> bool" where
  "record_ok lib kp \<longleftrightarrow> length (fst kp) + 4 < 2 ^ 32 \<and> length (CompressBytes lib (snd kp)) < 2 ^ 32"

definition rec_bytes :: "Libs \<Rightarrow> string \<times> bytes \<Rightarrow> bytes" where
  "rec_bytes lib kp = record_bytes (fst kp) (CompressBytes lib (snd kp))"

definition log_bytes :: "Libs \<Rightarrow> (string \<times> bytes) list \<Rightarrow> bytes" where
  "log_bytes lib log = concat (map (rec_bytes lib) log)"

lemma log_bytes_simps [simp]:
  "log_bytes lib [] = []" "log_bytes lib (kp # log) = rec_bytes lib kp @ log_bytes lib log"
  "log_bytes lib (log @ log') = log_bytes lib log @ log_bytes lib log'"
  by (simp_all add: log_bytes_def)

lemma length_record_bytes [simp]:
  "length (record_bytes k c) = 8 + length k + length c"
  by (simp add: record_bytes_def codec_simps)

lemma rec_bytes_fields:
  fixes lib k p
  assumes "record_ok lib (k, p)"
  defines "d \<equiv> rec_bytes lib (k, p)"
  shows "unat (BE_Uint32 (take 4 d)) = length k"
    and "take (length k) (drop 4 d) = bytes_of_string k"
    and "unat (BE_Uint32 (take 4 (drop (4 + length k) d))) = length (CompressBytes lib p)"
    and "drop (8 + length k) d = CompressBytes lib p"
    and "length d = 8 + length k + length (CompressBytes lib p)"
  using assms(1)
  by (simp_all add: d_def rec_bytes_def record_bytes_def codec_simps record_ok_def unat_of_nat_small)

definition bucket_append :: "Libs \<Rightarrow> string \<times> bytes \<Rightarrow> Bucket \<Rightarrow> Bucket" where
  "bucket_append lib kp b =
     b\<lparr>BucketFile := BucketFile b @ rec_bytes lib kp,
       Index := mput (fst kp) (mget0 [] (Index b) (fst kp) @ [length (BucketFile b)]) (Index b)\<rparr>"

lemma BucketFile_fold_append:
  "BucketFile (fold (bucket_append lib) log b) = BucketFile b @ log_bytes lib log"
  by (induction log arbitrary: b) (simp_all add: bucket_append_def)

lemma slice_shift: "slice (pre @ d) (length pre + i) (length pre + j) = slice d i j"
  by (simp add: slice_def)

text \<open>Rebuilding reads back exactly the index that appending the records one by one builds.\<close>

lemma rebuild_from_step:
  assumes "record_ok lib (k, p)"
  shows "rebuild_from (pre @ rec_bytes lib (k, p) @ post) (length pre) idx =
     rebuild_from (pre @ rec_bytes lib (k, p) @ post) (length (pre @ rec_bytes lib (k, p)))
       (mput k (mget0 [] idx k @ [length pre]) idx)"
proof -
  let ?d = "rec_bytes lib (k, p)"
  let ?f = "pre @ ?d @ post"
  note f = rec_bytes_fields [OF assms]
  have s: "slice ?f (length pre) (length pre + 4) = take 4 ?d"
    "slice ?f (length pre + 4) (length pre + (4 + length k)) = take (length k) (drop 4 ?d)"
    "slice ?f (length pre + (4 + length k)) (length pre + (8 + length k)) = take 4 (drop (4 + length k) ?d)"
    using f(5) by (simp_all add: slice_def)
  show ?thesis
    by (subst rebuild_from.simps) (simp add: Let_def s f add.assoc)
qed

lemma rebuild_from_log:
  "list_all (record_ok lib) log \<Longrightarrow>
   rebuild_from (BucketFile b @ log_bytes lib log) (length (BucketFile b)) (Index b) =
     Index (fold (bucket_append lib) log b)"
proof (induction log arbitrary: b)
  case Nil
  then show ?case by (simp add: rebuild_from.simps)
next
  case (Cons kp log)
  obtain k p where kp: "kp = (k, p)" by (cases kp)
  show ?case
    using Cons.IH [of "bucket_append lib kp b"] Cons.prems
      rebuild_from_step [of lib k p "BucketFile b" "log_bytes lib log" "Index b"]
    by (simp add: kp bucket_append_def)
qed

subsection \<open>What a bucket stores\<close>

text \<open>The specification of the store: a map from keys to the list of their payloads.\<close>

type_synonym contents = "string \<Rightarrow> bytes list option"

definition spec_append :: "string \<times> bytes \<Rightarrow> contents \<Rightarrow> contents" where
  "spec_append kp A = A(fst kp \<mapsto> (case A (fst kp) of None \<Rightarrow> [] | Some ps \<Rightarrow> ps) @ [snd kp])"

definition log_view :: "(string \<times> bytes) list \<Rightarrow> contents" where
  "log_view log = fold spec_append log Map.empty"

definition record_at :: "Libs \<Rightarrow> bytes \<Rightarrow> string \<Rightarrow> nat \<Rightarrow> bytes \<Rightarrow> bool" where
  "record_at lib file k off p \<longleftrightarrow>
     record_ok lib (k, p) \<and> (\<exists>pre post. file = pre @ rec_bytes lib (k, p) @ post \<and> length pre = off)"

definition bucket_rep :: "Libs \<Rightarrow> Bucket \<Rightarrow> contents \<Rightarrow> bool" where
  "bucket_rep lib b A \<longleftrightarrow> wf_map (Index b) \<and>
     (\<forall>k. rel_option (list_all2 (record_at lib (BucketFile b) k)) (mget (Index b) k) (A k))"

lemma record_at_append: "record_at lib file k off p \<Longrightarrow> record_at lib (file @ extra) k off p"
  by (auto simp: record_at_def) blast

lemma record_at_end: "record_ok lib (k, p) \<Longrightarrow> record_at lib (file @ rec_bytes lib (k, p)) k (length file) p"
  unfolding record_at_def by (metis append_Nil2)

lemma read_raw_record:
  assumes f: "BucketFile b = pre @ record_bytes k c @ post"
    and k: "length k + 4 < 2 ^ 32" and c: "length c < 2 ^ 32"
  shows "readRecordAt lib b (length pre) = DecompressBytes lib c"
proof -
  let ?d = "record_bytes k c @ post"
  have d: "drop (length pre) (BucketFile b) = ?d" using f by simp
  have len: "length ?d = 8 + length k + length c + length post"
    by simp
  have g: "unat (BE_Uint32 (take 4 ?d)) = length k"
    "unat (BE_Uint32 (take 4 (drop (4 + length k) ?d))) = length c"
    "drop (8 + length k) ?d = c @ post"
    using k c by (simp_all add: record_bytes_def codec_simps unat_of_nat_small)
  have "readRecordAt lib b (length pre) = parse_record lib ?d"
    unfolding d [symmetric]
    by (rule readRecordAt_parse) (use k in \<open>simp add: d g(1) del: take_append\<close>)
  also have "\<dots> = DecompressBytes lib c"
    unfolding parse_record_def g Let_def len by simp
  finally show ?thesis .
qed

lemma read_record_at:
  assumes "zstd_ok lib" and "record_at lib (BucketFile b) k off p"
  shows "readRecordAt lib b off = Inr p"
proof -
  from assms(2) obtain pre post
    where "BucketFile b = pre @ record_bytes k (CompressBytes lib p) @ post" "length pre = off"
      "length k + 4 < 2 ^ 32" "length (CompressBytes lib p) < 2 ^ 32"
    by (auto simp: record_at_def rec_bytes_def record_ok_def)
  then have "readRecordAt lib b off = DecompressBytes lib (CompressBytes lib p)"
    using read_raw_record by blast
  with assms(1) show ?thesis
    by (simp add: DecompressBytes_def CompressBytes_def zstd_ok_def)
qed

lemma bucket_rep_append:
  assumes "bucket_rep lib b A" and "record_ok lib kp"
  shows "bucket_rep lib (bucket_append lib kp b) (spec_append kp A)"
proof -
  obtain k p where kp: "kp = (k, p)" by (cases kp)
  have old: "rel_option (list_all2 (record_at lib (BucketFile b @ extra) k')) (mget (Index b) k') (A k')" for extra k'
    using assms(1) unfolding bucket_rep_def
    by (auto elim!: option.rel_mono_strong list_all2_mono record_at_append)
  have "list_all2 (record_at lib (BucketFile b @ rec_bytes lib kp) k)
      (mget0 [] (Index b) k @ [length (BucketFile b)]) ((case A k of None \<Rightarrow> [] | Some ps \<Rightarrow> ps) @ [p])"
    using old [of "rec_bytes lib kp" k] record_at_end [of lib k p "BucketFile b"] assms(2)
    by (cases "mget (Index b) k"; cases "A k") (simp_all add: kp mget0_def list_all2_appendI)
  with assms(1) old show ?thesis
    by (simp add: bucket_rep_def bucket_append_def spec_append_def kp)
qed

lemma bucket_rep_fold:
  "bucket_rep lib b A \<Longrightarrow> list_all (record_ok lib) log \<Longrightarrow>
   bucket_rep lib (fold (bucket_append lib) log b) (fold spec_append log A)"
  by (induction log arbitrary: b A) (simp_all add: bucket_rep_append)

lemma bucket_rep_empty: "Index b = [] \<Longrightarrow> bucket_rep lib b Map.empty"
  by (simp add: bucket_rep_def)

lemma bucket_rep_cong: "BucketFile b = BucketFile c \<Longrightarrow> Index b = Index c \<Longrightarrow> bucket_rep lib b = bucket_rep lib c"
  by (simp add: bucket_rep_def fun_eq_iff)

lemma rebuildIndex_rep:
  assumes "BucketFile b = log_bytes lib log" and "list_all (record_ok lib) log"
  shows "bucket_rep lib (rebuildIndex b) (log_view log)"
proof -
  let ?e = "\<lparr>BucketFile = [], Index = [], IndexFile = NoFile\<rparr>"
  have "bucket_rep lib (fold (bucket_append lib) log ?e) (log_view log)"
    unfolding log_view_def using bucket_rep_empty [of ?e lib] assms(2) by (intro bucket_rep_fold) simp_all
  moreover have "Index (rebuildIndex b) = Index (fold (bucket_append lib) log ?e)"
    using rebuild_from_log [OF assms(2), of ?e] assms(1) by (simp add: rebuildIndex_def)
  moreover have "BucketFile (rebuildIndex b) = BucketFile (fold (bucket_append lib) log ?e)"
    using assms(1) by (simp add: rebuildIndex_def BucketFile_fold_append)
  ultimately show ?thesis
    using bucket_rep_cong by metis
qed

subsection \<open>What the store holds\<close>

definition shard_log :: "Libs \<Rightarrow> uint32 \<Rightarrow> (string \<times> bytes) list \<Rightarrow> (string \<times> bytes) list" where
  "shard_log lib i L = filter (\<lambda>kp. getBucketID lib (fst kp) = i) L"

definition shard_view :: "Libs \<Rightarrow> uint32 \<Rightarrow> contents \<Rightarrow> contents" where
  "shard_view lib i A = (\<lambda>k. if getBucketID lib k = i then A k else None)"

text \<open>
  \<open>store_rep lib m A L\<close>: the sixteen shards hold the log \<open>L\<close> of all records ever appended,
  each shard the part of it that hashes there, and their indexes show the contents \<open>A\<close>.
\<close>

definition store_rep :: "Libs \<Rightarrow> Manager \<Rightarrow> contents \<Rightarrow> (string \<times> bytes) list \<Rightarrow> bool" where
  "store_rep lib m A L \<longleftrightarrow>
     wf_map (Buckets m) \<and> list_all (record_ok lib) L \<and>
     (\<forall>i. mget (Buckets m) i = None \<longleftrightarrow> PartitionCount \<le> i) \<and>
     (\<forall>i b. mget (Buckets m) i = Some b \<longrightarrow>
        BucketFile b = log_bytes lib (shard_log lib i L) \<and> bucket_rep lib b (shard_view lib i A))"

lemma getBucketID_less: "getBucketID lib k < PartitionCount"
  by (simp add: getBucketID_def PartitionCount_def word_less_nat_alt unat_mod)

lemma shard_view_append:
  "shard_view lib i (spec_append kp A) =
     (if getBucketID lib (fst kp) = i then spec_append kp (shard_view lib i A) else shard_view lib i A)"
  by (auto simp: shard_view_def spec_append_def fun_eq_iff)

lemma shard_view_fold:
  "shard_view lib i (fold spec_append L A) = fold spec_append (shard_log lib i L) (shard_view lib i A)"
  by (induction L arbitrary: A) (simp_all add: shard_log_def shard_view_append)

lemma shard_view_log_view: "shard_view lib i (log_view L) = log_view (shard_log lib i L)"
  by (simp add: log_view_def shard_view_fold) (simp add: shard_view_def)

lemma shard_log_ok: "list_all (record_ok lib) L \<Longrightarrow> list_all (record_ok lib) (shard_log lib i L)"
  by (simp add: shard_log_def list_all_iff)

lemma store_rep_bucket:
  assumes "store_rep lib m A L"
  obtains b where "bucket_of lib m k = Inr b" "mget (Buckets m) (getBucketID lib k) = Some b"
    "BucketFile b = log_bytes lib (shard_log lib (getBucketID lib k) L)"
    "bucket_rep lib b (shard_view lib (getBucketID lib k) A)"
    "rel_option (list_all2 (record_at lib (BucketFile b) k)) (mget (Index b) k) (A k)"
proof -
  have "mget (Buckets m) (getBucketID lib k) \<noteq> None"
    using assms getBucketID_less [of lib k] by (auto simp: store_rep_def)
  then obtain b where b: "mget (Buckets m) (getBucketID lib k) = Some b" by auto
  then have r: "bucket_rep lib b (shard_view lib (getBucketID lib k) A)"
    and f: "BucketFile b = log_bytes lib (shard_log lib (getBucketID lib k) L)"
    using assms by (auto simp: store_rep_def)
  from r have "rel_option (list_all2 (record_at lib (BucketFile b) k)) (mget (Index b) k) (A k)"
    by (simp add: bucket_rep_def shard_view_def) (metis (full_types))
  with that b r f show thesis by (simp add: bucket_of_def)
qed

text \<open>Replacing one shard by one with more records.\<close>

lemma store_rep_extend:
  assumes "store_rep lib m A L" and "list_all (record_ok lib) new"
    and "wf_map (Buckets m')"
    and "\<And>i. mget (Buckets m') i = map_option (\<lambda>b. 
       if shard_log lib i new = [] then b else f i b) (mget (Buckets m) i)"
    and "\<And>i b. mget (Buckets m) i = Some b \<Longrightarrow> shard_log lib i new \<noteq> [] \<Longrightarrow>
        BucketFile (f i b) = BucketFile (fold (bucket_append lib) (shard_log lib i new) b) \<and>
        Index (f i b) = Index (fold (bucket_append lib) (shard_log lib i new) b)"
  shows "store_rep lib m' (fold spec_append new A) (L @ new)"
  unfolding store_rep_def
proof (intro conjI allI impI)
  show "wf_map (Buckets m')" by fact
  show "list_all (record_ok lib) (L @ new)"
    using assms(1,2) by (simp add: store_rep_def)
  fix i
  show "mget (Buckets m') i = None \<longleftrightarrow> PartitionCount \<le> i"
    using assms(1,4) by (simp add: store_rep_def)
  fix b'
  assume "mget (Buckets m') i = Some b'"
  with assms(4) obtain b where b: "mget (Buckets m) i = Some b"
    and b': "b' = (if shard_log lib i new = [] then b else f i b)" by auto
  let ?c = "fold (bucket_append lib) (shard_log lib i new) b"
  from b' assms(5) [OF b] have eq: "BucketFile b' = BucketFile ?c" "Index b' = Index ?c"
    by (auto split: if_splits)
  have old: "BucketFile b = log_bytes lib (shard_log lib i L)" "bucket_rep lib b (shard_view lib i A)"
    using assms(1) b by (auto simp: store_rep_def)
  show "BucketFile b' = log_bytes lib (shard_log lib i (L @ new))"
    by (simp add: eq BucketFile_fold_append old shard_log_def)
  have "bucket_rep lib ?c (shard_view lib i (fold spec_append new A))"
    using bucket_rep_fold [OF old(2) shard_log_ok [OF assms(2)]] by (simp add: shard_view_fold)
  with eq show "bucket_rep lib b' (shard_view lib i (fold spec_append new A))"
    using bucket_rep_cong by metis
qed

subsection \<open>Append\<close>

definition append_accepts :: "Libs \<Rightarrow> string \<Rightarrow> bytes \<Rightarrow> bool" where
  "append_accepts lib k p \<longleftrightarrow>
     0 < length k \<and> length k \<le> maxKeyLen \<and> length (CompressBytes lib p) < MaxInt32"

lemma append_accepts_record_ok: "append_accepts lib k p \<Longrightarrow> record_ok lib (k, p)"
  by (simp add: append_accepts_def record_ok_def maxKeyLen_def MaxInt32_def)

lemma Mgr_Append_ok:
  assumes "store_rep lib m A L" and "append_accepts lib k p"
  shows "snd (Mgr_Append lib k p m) = None \<and>
    store_rep lib (fst (Mgr_Append lib k p m)) (spec_append (k, p) A) (L @ [(k, p)])"
proof -
  obtain b where b: "bucket_of lib m k = Inr b" "mget (Buckets m) (getBucketID lib k) = Some b"
    using store_rep_bucket [OF assms(1)] by metis
  have r: "Mgr_Append lib k p m = (set_bucket (getBucketID lib k) (bucket_append lib (k, p) b) m, None)"
    using assms(2) b by (simp add: Mgr_Append_def append_accepts_def bucket_append_def rec_bytes_def Let_def)
  have "store_rep lib (set_bucket (getBucketID lib k) (bucket_append lib (k, p) b) m)
      (fold spec_append [(k, p)] A) (L @ [(k, p)])"
  proof (rule store_rep_extend [OF assms(1), where f = "\<lambda>i. bucket_append lib (k, p)"])
    show "list_all (record_ok lib) [(k, p)]" using append_accepts_record_ok [OF assms(2)] by simp
    show "wf_map (Buckets (set_bucket (getBucketID lib k) (bucket_append lib (k, p) b) m))"
      using assms(1) by (simp add: set_bucket_def store_rep_def)
  qed (use b in \<open>auto simp: set_bucket_def shard_log_def option.map_ident split: option.split\<close>)
  with r show ?thesis by simp
qed

lemma Mgr_Append_rejects:
  assumes "store_rep lib m A L" and "\<not> append_accepts lib k p"
  shows "\<exists>err. Mgr_Append lib k p m = (m, Some err)"
proof -
  obtain b where "bucket_of lib m k = Inr b" using store_rep_bucket [OF assms(1)] by metis
  with assms(2) show ?thesis by (auto simp: Mgr_Append_def append_accepts_def Let_def)
qed

subsection \<open>Reading\<close>

lemma list_all2_read:
  assumes "zstd_ok lib" and "list_all2 (record_at lib (BucketFile b) k) offs ps"
  shows "read_all lib b offs = Inr ps \<and> (\<forall>i < length offs. readRecordAt lib b (offs ! i) = Inr (ps ! i))"
  using assms(2)
proof (induction rule: list_all2_induct)
  case Nil
  then show ?case by simp
next
  case (Cons off offs p ps)
  then show ?case
    using read_record_at [OF assms(1)] by (auto simp: nth_Cons split: nat.split)
qed

lemma Mgr_reads:
  assumes "store_rep lib m A L" and "zstd_ok lib"
  shows "Mgr_Get lib k i m =
      (case A k of None \<Rightarrow> Inl IndexOutOfBounds
       | Some ps \<Rightarrow> if 0 \<le> i \<and> i < int (length ps) then Inr (ps ! nat i) else Inl IndexOutOfBounds)"
    and "Mgr_GetAllValues lib k m = (case A k of None \<Rightarrow> Inl KeyNotFound | Some ps \<Rightarrow> Inr ps)"
    and "Mgr_GetLength lib k m = Inr (case A k of None \<Rightarrow> 0 | Some ps \<Rightarrow> length ps)"
proof -
  obtain b where b: "bucket_of lib m k = Inr b"
    and rel: "rel_option (list_all2 (record_at lib (BucketFile b) k)) (mget (Index b) k) (A k)"
    using store_rep_bucket [OF assms(1)] by metis
  from rel consider "mget (Index b) k = None" "A k = None"
    | offs ps where "mget (Index b) k = Some offs" "A k = Some ps"
        "list_all2 (record_at lib (BucketFile b) k) offs ps"
    by (cases "mget (Index b) k"; cases "A k") auto
  then show "Mgr_Get lib k i m =
      (case A k of None \<Rightarrow> Inl IndexOutOfBounds
       | Some ps \<Rightarrow> if 0 \<le> i \<and> i < int (length ps) then Inr (ps ! nat i) else Inl IndexOutOfBounds)"
    "Mgr_GetAllValues lib k m = (case A k of None \<Rightarrow> Inl KeyNotFound | Some ps \<Rightarrow> Inr ps)"
    "Mgr_GetLength lib k m = Inr (case A k of None \<Rightarrow> 0 | Some ps \<Rightarrow> length ps)"
    using list_all2_read [OF assms(2)] list_all2_lengthD
    by (cases; fastforce simp: Mgr_Get_def Mgr_GetAllValues_def Mgr_GetLength_def mget0_def b)+
qed

lemma bucket_rep_delete:
  "bucket_rep lib b A \<Longrightarrow> bucket_rep lib (b\<lparr>Index := mdel k (Index b)\<rparr>) (A(k := None))"
  by (simp add: bucket_rep_def)

lemma store_rep_same_files:
  assumes "store_rep lib m A L" and "mget (Buckets m) i = Some b"
    and "BucketFile b' = BucketFile b" and "bucket_rep lib b' (shard_view lib i A')"
    and "\<And>j. j \<noteq> i \<Longrightarrow> shard_view lib j A' = shard_view lib j A"
  shows "store_rep lib (set_bucket i b' m) A' L"
proof -
  have "\<not> PartitionCount \<le> i"
    using assms(1,2) unfolding store_rep_def by (metis option.distinct(1))
  with assms show ?thesis
    by (simp add: store_rep_def set_bucket_def)
qed

lemma Mgr_DeleteKey_ok:
  assumes "store_rep lib m A L"
  shows "snd (Mgr_DeleteKey lib k m) = None \<and> store_rep lib (fst (Mgr_DeleteKey lib k m)) (A(k := None)) L"
proof -
  obtain b where b: "bucket_of lib m k = Inr b" "mget (Buckets m) (getBucketID lib k) = Some b"
    "bucket_rep lib b (shard_view lib (getBucketID lib k) A)"
    using store_rep_bucket [OF assms] by metis
  have v: "shard_view lib i (A(k := None)) = (if getBucketID lib k = i then (shard_view lib i A)(k := None)
      else shard_view lib i A)" for i
    by (auto simp: shard_view_def fun_eq_iff)
  show ?thesis
    using store_rep_same_files [OF assms b(2), of "b\<lparr>Index := mdel k (Index b)\<rparr>" "A(k := None)"]
      bucket_rep_delete [OF b(3), of k] b(1)
    by (simp add: Mgr_DeleteKey_def v)
qed

subsection \<open>Batches\<close>

lemma mget_group_by_bucket:
  "wf_map (group_by_bucket lib entries) \<and>
   mget (group_by_bucket lib entries) i =
     (if shard_log lib i entries = [] then None else Some (shard_log lib i entries))"
proof -
  define f where "f = (\<lambda>(k, v) grouped. let bid = getBucketID lib k
     in mput bid (mget0 [] grouped bid @ [(k :: string, v :: bytes)]) grouped)"
  have "wf_map (fold f entries g) \<and> mget (fold f entries g) i =
      (if mget g i = None \<and> shard_log lib i entries = [] then None
       else Some (mget0 [] g i @ shard_log lib i entries))" if "wf_map g" for g
    using that
  proof (induction entries arbitrary: g)
    case Nil
    then show ?case by (auto simp: shard_log_def mget0_def)
  next
    case (Cons kv entries)
    then show ?case
      by (cases kv) (auto simp: f_def shard_log_def Let_def)
  qed
  from this [of "[]"] show ?thesis
    by (simp add: group_by_bucket_def f_def [symmetric])
qed

primrec batch_entries :: "Libs \<Rightarrow> nat \<Rightarrow> (string \<times> bytes) list \<Rightarrow> (string, nat) gomap" where
  "batch_entries lib off [] = []"
| "batch_entries lib off (kp # items) = (fst kp, off) # batch_entries lib (off + length (rec_bytes lib kp)) items"

lemma write_batch_log:
  assumes "distinct (map fst items)" and "set (map fst items) \<inter> set (mkeys new) = {}"
  shows "write_batch (map (\<lambda>(k, p). (k, record_bytes k (CompressBytes lib p))) items) (fl, off, new) =
    (fl @ log_bytes lib items, off + length (log_bytes lib items), new @ batch_entries lib off items)"
  using assms
proof (induction items arbitrary: fl off new)
  case Nil
  then show ?case by simp
next
  case (Cons kp items)
  obtain k p where kp: "kp = (k, p)" by (cases kp)
  have fresh: "mput k off new = new @ [(k, off)]"
    using Cons.prems(2) by (intro mput_fresh) (auto simp: kp simp flip: set_mkeys)
  show ?case
    using Cons.prems Cons.IH [of "new @ [(k, off)]"]
    by (auto simp: kp fresh rec_bytes_def add.assoc)
qed

lemma Index_fold_append:
  "Index (fold (bucket_append lib) items b) =
     fold (\<lambda>(k, off) idx. mput k (mget0 [] idx k @ [off]) idx)
       (batch_entries lib (length (BucketFile b)) items) (Index b)"
  by (induction items arbitrary: b) (simp_all add: bucket_append_def)

lemma batch_bucket_appends:
  assumes "distinct (map fst items)"
  shows "BucketFile (batch_bucket lib items b) = BucketFile (fold (bucket_append lib) items b) \<and>
    Index (batch_bucket lib items b) = Index (fold (bucket_append lib) items b)"
  using write_batch_log [OF assms, of "[]" lib "BucketFile b" "length (BucketFile b)"]
  by (simp add: batch_bucket_def Let_def BucketFile_fold_append Index_fold_append)

lemma fold_set_bucket:
  fixes lib :: Libs and err :: "go_error option"
  assumes "wf_map groups" and "\<And>i. mget groups i \<noteq> None \<Longrightarrow> mget (Buckets m) i \<noteq> None" and "wf_map (Buckets m)"
  defines "st \<equiv> fold (\<lambda>(bid, items) (m, err).
             case mget (Buckets m) bid of
               None \<Rightarrow> (m, Some (GoPanic ''nil bucket''))
             | Some bucket \<Rightarrow> (set_bucket bid (batch_bucket lib items bucket) m, err)) groups (m, err)"
  shows "snd st = err \<and> wf_map (Buckets (fst st)) \<and>
    (\<forall>i. mget (Buckets (fst st)) i = map_option (\<lambda>b. case mget groups i of None \<Rightarrow> b
       | Some items \<Rightarrow> batch_bucket lib items b) (mget (Buckets m) i))"
  unfolding st_def using assms(1-3)
proof (induction groups arbitrary: m)
  case Nil
  then show ?case by (simp add: option.map_ident)
next
  case (Cons g groups)
  obtain bid items where g: "g = (bid, items)" by (cases g)
  obtain b where b: "mget (Buckets m) bid = Some b"
    using Cons.prems(2) [of bid] by (auto simp: g)
  have none: "mget groups bid = None" "wf_map groups"
    using Cons.prems(1) by (auto simp: g wf_map_def map_of_eq_None_iff)
  let ?m = "set_bucket bid (batch_bucket lib items b) m"
  have "mget (Buckets ?m) i \<noteq> None" if "mget groups i \<noteq> None" for i
    using Cons.prems(2) [of i] that by (auto simp: g set_bucket_def)
  then show ?case
    using Cons.IH [of ?m] none Cons.prems(3) b by (auto simp: g set_bucket_def)
qed

lemma Mgr_BatchAppend_ok:
  assumes rep: "store_rep lib m A L" and wf: "wf_map entries" and ok: "list_all (record_ok lib) entries"
  shows "snd (Mgr_BatchAppend lib entries m) = None \<and>
    store_rep lib (fst (Mgr_BatchAppend lib entries m)) (fold spec_append entries A) (L @ entries)"
proof -
  let ?g = "group_by_bucket lib entries"
  have g: "wf_map ?g" "mget ?g i = (if shard_log lib i entries = [] then None else Some (shard_log lib i entries))" for i
    using mget_group_by_bucket by auto
  have dom: "mget (Buckets m) i \<noteq> None" if "mget ?g i \<noteq> None" for i
  proof -
    from that have "shard_log lib i entries \<noteq> []" by (auto simp: g(2))
    then obtain kp where "kp \<in> set (shard_log lib i entries)"
      using hd_in_set by blast
    then have "i < PartitionCount" using getBucketID_less [of lib "fst kp"] by (auto simp: shard_log_def)
    with rep show ?thesis by (auto simp: store_rep_def)
  qed
  have wfm: "wf_map (Buckets m)" using rep by (simp add: store_rep_def)
  note r = fold_set_bucket [OF g(1) dom wfm, of lib None, folded Mgr_BatchAppend_def]
  have dist: "distinct (map fst (shard_log lib i entries))" for i
    using wf by (simp add: wf_map_def shard_log_def distinct_map_filter)
  have "store_rep lib (fst (Mgr_BatchAppend lib entries m)) (fold spec_append entries A) (L @ entries)"
    by (rule store_rep_extend [OF rep ok, where f = "\<lambda>i. batch_bucket lib (shard_log lib i entries)"])
      (use r batch_bucket_appends [OF dist] in \<open>auto simp: g(2) intro!: option.map_cong0\<close>)
  with r show ?thesis by simp
qed

subsection \<open>Restarts\<close>

text \<open>What a process that stops leaves on disk; \<^verbatim>\<open>Close\<close> saves every index first.\<close>

definition disk_of :: "Manager \<Rightarrow> (uint32, shard_disk) gomap" where
  "disk_of m = map (\<lambda>(bid, b). (bid, (BucketFile b, IndexFile b))) (Buckets m)"

lemma mget_disk_of: "mget (disk_of m) i = map_option (\<lambda>b. (BucketFile b, IndexFile b)) (mget (Buckets m) i)"
  by (simp add: disk_of_def map_of_map)

lemma mget_Mgr_Close:
  "mget (Mgr_Close m) i = map_option (\<lambda>b. (BucketFile b, GobFile (Index b))) (mget (Buckets m) i)"
  by (simp add: Mgr_Close_def saveIndex_def map_of_map)

lemma mget_fold_of_nat:
  "mget (fold (\<lambda>n bs. mput (of_nat n) (f (of_nat n)) bs) ns acc) i =
     (if i \<in> of_nat ` set ns then Some (f i) else mget acc i)"
  by (induction ns arbitrary: acc) auto

lemma wf_fold_mput_by: "wf_map acc \<Longrightarrow> wf_map (fold (\<lambda>n. mput (g n) (f n)) ns acc)"
  by (induction ns arbitrary: acc) auto

lemma Buckets_NewManager:
  "mget (Buckets (NewManager disk)) i =
     (if i < PartitionCount then Some (open_bucket (mget0 ([], NoFile) disk i)) else None)"
  "wf_map (Buckets (NewManager disk))"
proof -
  have "i \<in> of_nat ` set [0..<unat PartitionCount] \<longleftrightarrow> i < PartitionCount"
  proof
    assume "i < PartitionCount"
    then have "unat i \<in> set [0..<unat PartitionCount]" by (simp add: word_less_nat_alt)
    then have "of_nat (unat i) \<in> (of_nat :: nat \<Rightarrow> uint32) ` set [0..<unat PartitionCount]" by (rule imageI)
    then show "i \<in> of_nat ` set [0..<unat PartitionCount]" by simp
  next
    assume "i \<in> of_nat ` set [0..<unat PartitionCount]"
    then show "i < PartitionCount"
      by (auto simp: word_less_nat_alt PartitionCount_def unat_of_nat)
  qed
  then show "mget (Buckets (NewManager disk)) i =
     (if i < PartitionCount then Some (open_bucket (mget0 ([], NoFile) disk i)) else None)"
    using mget_fold_of_nat [of "\<lambda>i. open_bucket (mget0 ([], NoFile) disk i)" "[0..<unat PartitionCount]" "[]" i]
    by (simp add: NewManager_def Let_def)
  show "wf_map (Buckets (NewManager disk))"
    using wf_fold_mput_by [of "[]"] by (simp add: NewManager_def Let_def)
qed

lemma store_rep_NewManager:
  assumes "list_all (record_ok lib) L"
    and "\<And>i. i < PartitionCount \<Longrightarrow> fst (mget0 ([], NoFile) disk i) = log_bytes lib (shard_log lib i L)"
    and "\<And>i. i < PartitionCount \<Longrightarrow>
      bucket_rep lib (open_bucket (mget0 ([], NoFile) disk i)) (shard_view lib i A)"
  shows "store_rep lib (NewManager disk) A L"
proof -
  have "BucketFile (open_bucket d) = fst d" for d
    by (simp add: open_bucket_def loadIndex_def saveIndex_def rebuildIndex_def Let_def split: gob_file.split)
  with assms show ?thesis
    by (auto simp: store_rep_def Buckets_NewManager linorder_not_less split: if_splits)
qed

lemma open_bucket_rebuilds:
  assumes "snd d = NoFile \<or> snd d = BadFile"
    and "fst d = log_bytes lib log" and "list_all (record_ok lib) log"
  shows "bucket_rep lib (open_bucket d) (log_view log)"
proof -
  have "bucket_rep lib (rebuildIndex \<lparr>BucketFile = fst d, Index = [], IndexFile = snd d\<rparr>) (log_view log)"
    using assms(2,3) by (intro rebuildIndex_rep) simp
  with assms(1) bucket_rep_cong [of "saveIndex b" b for b] show ?thesis
    by (auto simp: open_bucket_def loadIndex_def saveIndex_def bucket_rep_def Let_def)
qed

lemma open_bucket_loads:
  assumes "snd d = GobFile (Index b)" and "fst d = BucketFile b @ extra" and "bucket_rep lib b A"
  shows "bucket_rep lib (open_bucket d) A"
proof -
  have "mget (fold (\<lambda>(k, v). mput k v) (Index b) []) k = mget (Index b) k" for k
    using assms(3) by (simp add: mget_fold_mput bucket_rep_def split: option.split)
  moreover have "wf_map (fold (\<lambda>(k, v). mput k v) (Index b) ([] :: offset_index))"
    by (rule wf_fold_mput) simp
  moreover have "rel_option (list_all2 (record_at lib (BucketFile b @ extra) k)) (mget (Index b) k) (A k)" for k
    using assms(3) unfolding bucket_rep_def
    by (auto elim!: option.rel_mono_strong list_all2_mono record_at_append)
  ultimately show ?thesis
    using assms(1,2) by (simp add: open_bucket_def loadIndex_def bucket_rep_def)
qed

lemma restart_rebuilds:
  assumes "store_rep lib m A L"
    and "\<forall>(i, b) \<in> set (Buckets m). IndexFile b = NoFile \<or> IndexFile b = BadFile"
  shows "store_rep lib (NewManager (disk_of m)) (log_view L) L"
proof (rule store_rep_NewManager)
  show L: "list_all (record_ok lib) L" using assms(1) by (simp add: store_rep_def)
  fix i :: uint32
  assume "i < PartitionCount"
  with assms(1) have "mget (Buckets m) i \<noteq> None" by (auto simp: store_rep_def)
  then obtain b where b: "mget (Buckets m) i = Some b" by auto
  then have idx: "IndexFile b = NoFile \<or> IndexFile b = BadFile"
    using assms(2) map_of_SomeD by fastforce
  have d: "mget0 ([], NoFile) (disk_of m) i = (BucketFile b, IndexFile b)"
    using b by (simp add: mget0_def mget_disk_of)
  show f: "fst (mget0 ([], NoFile) (disk_of m) i) = log_bytes lib (shard_log lib i L)"
    using assms(1) b by (simp add: d store_rep_def)
  show "bucket_rep lib (open_bucket (mget0 ([], NoFile) (disk_of m) i)) (shard_view lib i (log_view L))"
    unfolding shard_view_log_view
    by (rule open_bucket_rebuilds) (use idx f shard_log_ok [OF L] in \<open>auto simp: d\<close>)
qed

lemma restart_loads:
  assumes old: "store_rep lib m A L" and new: "store_rep lib m' A' (L @ new)"
    and disk: "\<And>i b b'. mget (Buckets m) i = Some b \<Longrightarrow> mget (Buckets m') i = Some b' \<Longrightarrow>
      mget disk i = Some (BucketFile b', GobFile (Index b))"
  shows "store_rep lib (NewManager disk) A (L @ new)"
proof (rule store_rep_NewManager)
  show "list_all (record_ok lib) (L @ new)" using new by (simp add: store_rep_def)
  fix i :: uint32
  assume "i < PartitionCount"
  with old new have "mget (Buckets m) i \<noteq> None" "mget (Buckets m') i \<noteq> None" by (auto simp: store_rep_def)
  then obtain b b' where b: "mget (Buckets m) i = Some b" and b': "mget (Buckets m') i = Some b'" by auto
  have d: "mget0 ([], NoFile) disk i = (BucketFile b', GobFile (Index b))"
    using disk [OF b b'] by (simp add: mget0_def)
  have f: "BucketFile b' = log_bytes lib (shard_log lib i (L @ new))"
    "BucketFile b = log_bytes lib (shard_log lib i L)"
    using old new b b' by (auto simp: store_rep_def)
  show "fst (mget0 ([], NoFile) disk i) = log_bytes lib (shard_log lib i (L @ new))"
    by (simp add: d f)
  show "bucket_rep lib (open_bucket (mget0 ([], NoFile) disk i)) (shard_view lib i A)"
    by (rule open_bucket_loads [of _ b "log_bytes lib (shard_log lib i new)"])
      (use old b f in \<open>auto simp: d store_rep_def shard_log_def\<close>)
qed

lemma restart_after_close:
  assumes "store_rep lib m A L"
  shows "store_rep lib (NewManager (Mgr_Close m)) A L"
  using restart_loads [OF assms, of m A "[]" "Mgr_Close m"] assms by (simp add: mget_Mgr_Close)

lemma NewManager_empty: "store_rep lib (NewManager []) Map.empty []"
proof (rule store_rep_NewManager)
  fix i :: uint32
  have "bucket_rep lib (open_bucket (mget0 ([], NoFile) [] i)) (log_view [])"
    by (rule open_bucket_rebuilds) simp_all
  then show "bucket_rep lib (open_bucket (mget0 ([], NoFile) [] i)) (shard_view lib i Map.empty)"
    by (simp add: log_view_def shard_view_def)
qed (simp_all add: shard_log_def)


subsection \<open>The interface of a record store\<close>

text \<open>
  What the vector manager relies on: \<open>view s A\<close> says that the state \<open>s\<close> holds the contents
  \<open>A\<close>; an accepted append extends the list of its key, a rejected one changes nothing, and a read
  returns what the contents say.
\<close>

locale record_store =
  fixes view :: "'s \<Rightarrow> contents \<Rightarrow> bool"
    and accepts :: "string \<Rightarrow> bytes \<Rightarrow> bool"
    and put :: "string \<Rightarrow> bytes \<Rightarrow> 's \<Rightarrow> 's \<times> go_error option"
    and get :: "string \<Rightarrow> int \<Rightarrow> 's \<Rightarrow> go_error + bytes"
    and del :: "string \<Rightarrow> 's \<Rightarrow> 's \<times> go_error option"
  assumes put_accepted: "view s A \<Longrightarrow> accepts k p \<Longrightarrow>
        snd (put k p s) = None \<and> view (fst (put k p s)) (spec_append (k, p) A)"
    and put_rejected: "view s A \<Longrightarrow> \<not> accepts k p \<Longrightarrow> \<exists>err. put k p s = (s, Some err)"
    and get_view: "view s A \<Longrightarrow> get k i s =
        (case A k of None \<Rightarrow> Inl IndexOutOfBounds
         | Some ps \<Rightarrow> if 0 \<le> i \<and> i < int (length ps) then Inr (ps ! nat i) else Inl IndexOutOfBounds)"
    and del_view: "view s A \<Longrightarrow> snd (del k s) = None \<and> view (fst (del k s)) (A(k := None))"
begin

definition put_all :: "(string \<times> bytes) list \<Rightarrow> 's \<Rightarrow> 's" where
  "put_all kps s = fold (\<lambda>(k, p) s. fst (put k p s)) kps s"

lemma view_put_all:
  "view s A \<Longrightarrow> list_all (\<lambda>(k, p). accepts k p) kps \<Longrightarrow>
   view (put_all kps s) (fold spec_append kps A)"
  unfolding put_all_def
  by (induction kps arbitrary: s A) (auto simp: put_accepted)

lemma get_put_same:
  assumes "view s A" and "accepts k p"
  shows "get k (int (length (case A k of None \<Rightarrow> [] | Some ps \<Rightarrow> ps))) (fst (put k p s)) = Inr p"
  using put_accepted [OF assms] get_view
  by (auto simp: spec_append_def nth_append split: option.split)

lemma get_put_old:
  assumes "view s A" and "accepts k p" and "get k' i s = Inr q"
  shows "get k' i (fst (put k p s)) = Inr q"
  using put_accepted [OF assms(1,2)] get_view assms(1,3)
  by (auto simp: spec_append_def nth_append split: option.splits if_splits)

lemma get_del: "view s A \<Longrightarrow> get k i (fst (del k s)) = Inl IndexOutOfBounds"
  using del_view [of s A k] get_view by auto

end

text \<open>The sixteen shards provide it, for every digest and every codec that round-trips.\<close>

definition store_view :: "Libs \<Rightarrow> Manager \<Rightarrow> contents \<Rightarrow> bool" where
  "store_view lib m A \<longleftrightarrow> zstd_ok lib \<and> (\<exists>L. store_rep lib m A L)"

interpretation shards: record_store "store_view lib" "append_accepts lib" "Mgr_Append lib"
  "Mgr_Get lib" "Mgr_DeleteKey lib" for lib
proof
  fix s A k p
  assume "store_view lib s A" and "append_accepts lib k p"
  then show "snd (Mgr_Append lib k p s) = None \<and>
      store_view lib (fst (Mgr_Append lib k p s)) (spec_append (k, p) A)"
    using Mgr_Append_ok unfolding store_view_def by blast
next
  fix s A k p
  assume "store_view lib s A" and "\<not> append_accepts lib k p"
  then show "\<exists>err. Mgr_Append lib k p s = (s, Some err)"
    using Mgr_Append_rejects unfolding store_view_def by blast
next
  fix s A k i
  assume "store_view lib s A"
  then show "Mgr_Get lib k i s =
      (case A k of None \<Rightarrow> Inl IndexOutOfBounds
       | Some ps \<Rightarrow> if 0 \<le> i \<and> i < int (length ps) then Inr (ps ! nat i) else Inl IndexOutOfBounds)"
    using Mgr_reads(1) unfolding store_view_def by blast
next
  fix s A k
  assume "store_view lib s A"
  then show "snd (Mgr_DeleteKey lib k s) = None \<and>
      store_view lib (fst (Mgr_DeleteKey lib k s)) (A(k := None))"
    using Mgr_DeleteKey_ok unfolding store_view_def by blast
qed

subsection \<open>Search and update\<close>

lemma take_eq_prefix: "take (length p) xs = p \<longleftrightarrow> prefix p xs"
  by (metis append_eq_conv_conj prefix_def)

lemma bytes_Contains_sublist: "bytes_Contains xs p \<longleftrightarrow> sublist p xs"
  by (induction xs) (simp_all only: bytes_Contains.simps sublist_Cons_right take_eq_prefix sublist_Nil_right)

lemma set_scan_index:
  "v \<in> set (scan lib pat b) \<longleftrightarrow>
     (\<exists>k offs. (k, offs) \<in> set (Index b) \<and> (\<exists>off \<in> set offs. readRecordAt lib b off = Inr v \<and> sublist pat v))"
proof -
  have "v \<in> set (case r of Inl err \<Rightarrow> [] | Inr val \<Rightarrow> if bytes_Contains val pat then [val] else []) \<longleftrightarrow>
      r = Inr v \<and> sublist pat v" for r :: "go_error + bytes"
    by (cases r) (auto simp: bytes_Contains_sublist)
  then have "v \<in> set (concat (map (\<lambda>offset. case readRecordAt lib b offset of
             Inl err \<Rightarrow> []
           | Inr val \<Rightarrow> if bytes_Contains val pat then [val] else []) offs)) \<longleftrightarrow>
      (\<exists>off \<in> set offs. readRecordAt lib b off = Inr v \<and> sublist pat v)" for offs
    by simp
  then show ?thesis
    unfolding scan_def set_concat set_map UN_iff image_image by (auto simp: Bex_def)
qed

lemma list_all2_read_ex:
  assumes "zstd_ok lib" and "list_all2 (record_at lib (BucketFile b) k) offs ps"
  shows "(\<exists>off \<in> set offs. readRecordAt lib b off = Inr v \<and> P) \<longleftrightarrow> v \<in> set ps \<and> P"
  using list_all2_read [OF assms] list_all2_lengthD [OF assms(2)]
  by (auto simp: in_set_conv_nth Bex_def)

lemma set_scan:
  assumes "zstd_ok lib" and "bucket_rep lib b A"
  shows "v \<in> set (scan lib pat b) \<longleftrightarrow> (\<exists>k ps. A k = Some ps \<and> v \<in> set ps \<and> sublist pat v)"
proof -
  have wf: "wf_map (Index b)"
    and rel: "rel_option (list_all2 (record_at lib (BucketFile b) k)) (mget (Index b) k) (A k)" for k
    using assms(2) by (auto simp: bucket_rep_def)
  have "(\<exists>offs. mget (Index b) k = Some offs \<and>
        (\<exists>off \<in> set offs. readRecordAt lib b off = Inr v \<and> sublist pat v)) \<longleftrightarrow>
      (\<exists>ps. A k = Some ps \<and> v \<in> set ps \<and> sublist pat v)" for k
    using rel [of k] list_all2_read_ex [OF assms(1), of b k]
    by (cases "mget (Index b) k"; cases "A k") simp_all
  then show ?thesis
    unfolding set_scan_index mget_in_set [OF wf, symmetric] by simp
qed

lemma set_SearchGlobal:
  assumes "store_rep lib m A L" and "zstd_ok lib"
  shows "v \<in> set (SearchGlobal lib pat m) \<longleftrightarrow> (\<exists>k ps. A k = Some ps \<and> v \<in> set ps \<and> sublist pat v)"
proof -
  have wf: "wf_map (Buckets m)" using assms(1) by (simp add: store_rep_def)
  have "v \<in> set (SearchGlobal lib pat m) \<longleftrightarrow> (\<exists>i b. mget (Buckets m) i = Some b \<and> v \<in> set (scan lib pat b))"
    unfolding mget_in_set [OF wf] by (auto simp: SearchGlobal_def)
  also have "\<dots> \<longleftrightarrow> (\<exists>i. mget (Buckets m) i \<noteq> None \<and>
      (\<exists>k ps. shard_view lib i A k = Some ps \<and> v \<in> set ps \<and> sublist pat v))"
  proof -
    have "v \<in> set (scan lib pat b) \<longleftrightarrow>
        (\<exists>k ps. shard_view lib i A k = Some ps \<and> v \<in> set ps \<and> sublist pat v)"
      if "mget (Buckets m) i = Some b" for i b
      using that assms(1) by (intro set_scan [OF assms(2)]) (simp add: store_rep_def)
    then show ?thesis unfolding not_None_eq by blast
  qed
  also have "\<dots> \<longleftrightarrow> (\<exists>k ps. A k = Some ps \<and> v \<in> set ps \<and> sublist pat v)"
  proof -
    have "mget (Buckets m) (getBucketID lib k) \<noteq> None" for k
      using assms(1) getBucketID_less [of lib k] by (auto simp: store_rep_def)
    then show ?thesis unfolding shard_view_def by (metis (full_types) option.distinct(1))
  qed
  finally show ?thesis .
qed

lemma WriteAt_record:
  assumes "length c = length c'"
  shows "WriteAt (pre @ record_bytes k c @ post) c' (length pre + (4 + length k + 4)) =
    pre @ record_bytes k c' @ post"
proof (cases "c' = []")
  case True
  with assms show ?thesis by (simp add: WriteAt_def)
next
  case False
  let ?h = "BE_PutUint32 (of_nat (length k)) @ bytes_of_string k @ BE_PutUint32 (of_nat (length c'))"
  have h: "record_bytes k c = ?h @ c" "record_bytes k c' = ?h @ c'" "length ?h = 4 + length k + 4"
    using assms by (simp_all add: record_bytes_def codec_simps)
  from False assms show ?thesis
    unfolding h(1,2) WriteAt_def using h(3) by simp
qed

lemma Mgr_Update_writes:
  assumes "store_rep lib m A L" and "A k = Some ps" and "i < length ps"
    and "length payload = length (CompressBytes lib (ps ! i))"
  shows "snd (Mgr_Update lib k (int i) payload m) = None \<and>
    Mgr_Get lib k (int i) (fst (Mgr_Update lib k (int i) payload m)) = DecompressBytes lib payload"
proof -
  obtain b where b: "bucket_of lib m k = Inr b" "mget (Buckets m) (getBucketID lib k) = Some b"
    and rel: "rel_option (list_all2 (record_at lib (BucketFile b) k)) (mget (Index b) k) (A k)"
    using store_rep_bucket [OF assms(1)] by metis
  then obtain offs where offs: "mget (Index b) k = Some offs"
    and l2: "list_all2 (record_at lib (BucketFile b) k) offs ps"
    using assms(2) by (cases "mget (Index b) k") auto
  then have i: "i < length offs" and "record_at lib (BucketFile b) k (offs ! i) (ps ! i)"
    using assms(3) by (auto simp: list_all2_conv_all_nth)
  then obtain pre post where f: "BucketFile b = pre @ record_bytes k (CompressBytes lib (ps ! i)) @ post"
    "length pre = offs ! i" and len: "length k + 4 < 2 ^ 32" "length (CompressBytes lib (ps ! i)) < 2 ^ 32"
    by (auto simp: record_at_def rec_bytes_def record_ok_def)
  let ?b = "b\<lparr>BucketFile := WriteAt (BucketFile b) payload (offs ! i + (4 + length k + 4))\<rparr>"
  have w: "BucketFile ?b = pre @ record_bytes k payload @ post"
    using WriteAt_record [of "CompressBytes lib (ps ! i)" payload pre k post] assms(4) f by simp
  have "readRecordAt lib ?b (offs ! i) = DecompressBytes lib payload"
    using read_raw_record [OF w len(1)] len(2) assms(4) f(2) by simp
  then show ?thesis
    using b offs i by (simp add: Mgr_Update_def Mgr_Get_def bucket_of_def set_bucket_def Let_def)
qed

subsection \<open>Properties\<close>

text \<open>A concrete instance of the external packages, for the witnesses.\<close>

definition sample_lib :: Libs where
  "sample_lib =
     \<lparr>blake3_sum = (\<lambda>bs. take 32 (bs @ replicate 32 0)),
      zstd_EncodeAll = (\<lambda>src. 0x28 # src),
      zstd_DecodeAll = (\<lambda>src. case src of [] \<Rightarrow> None | b # out \<Rightarrow> if b = 0x28 then Some out else None)\<rparr>"

lemma sample_lib_ok: "zstd_ok sample_lib"
  by (simp add: zstd_ok_def sample_lib_def)

lemma sample_accepts [simp]: "append_accepts sample_lib ''k'' [1, 2]"
  by (simp add: append_accepts_def sample_lib_def CompressBytes_def maxKeyLen_def MaxInt32_def)

definition sample_store :: Manager where
  "sample_store = fst (Mgr_Append sample_lib ''k'' [1, 2] (NewManager []))"

lemma sample_store_rep: "store_rep sample_lib sample_store [''k'' \<mapsto> [[1, 2]]] [(''k'', [1, 2])]"
  using Mgr_Append_ok [OF NewManager_empty sample_accepts]
  by (simp add: sample_store_def spec_append_def)

text \<open>
  C29. The buffered reader is correct: for every file and offset, \<^verbatim>\<open>readRecordAt\<close>, which reads 4096
  bytes at first and then only what is missing, returns what a reader of the whole rest of the file
  returns, errors included, provided the stored key length leaves room for the header in 32 bits.
\<close>

theorem readRecordAt_reference:
  assumes "unat (BE_Uint32 (take 4 (drop off (BucketFile b)))) + 4 < 2 ^ 32"
  shows "readRecordAt lib b off = parse_record lib (drop off (BucketFile b))"
  using assms by (rule readRecordAt_parse)

theorem readRecordAt_reference_witness:
  "unat (BE_Uint32 (take 4 (drop 0 [0, 0, 0, 1, 107, 0, 0, 0, 2, 0x28, 9]))) + 4 < 2 ^ 32 \<and>
   readRecordAt sample_lib \<lparr>BucketFile = [0, 0, 0, 1, 107, 0, 0, 0, 2, 0x28, 9], Index = [], IndexFile = NoFile\<rparr> 0 =
     Inr [9]"
proof -
  let ?b = "\<lparr>BucketFile = [0, 0, 0, 1, 107, 0, 0, 0, 2, 0x28, 9], Index = [], IndexFile = NoFile\<rparr>"
  have h: "unat (BE_Uint32 (take 4 (drop 0 (BucketFile ?b)))) + 4 < 2 ^ 32"
    by (simp add: BE_Uint32_def get_be_def)
  have "parse_record sample_lib (drop 0 (BucketFile ?b)) = Inr [9]"
    by (simp add: parse_record_def BE_Uint32_def get_be_def DecompressBytes_def sample_lib_def Let_def)
  then show ?thesis
    using readRecordAt_reference [OF h, of sample_lib] h by simp
qed

text \<open>
  C2. \<^verbatim>\<open>Append\<close> refines the specification: in a store with contents \<open>A\<close>, a key of 1 to 1024 bytes
  with a payload that compresses to less than 2 GiB is accepted and its payload is added at the end
  of the key's list, on the disk log and in the index alike; every other call returns an error and
  changes nothing. Reads then return exactly the contents.
\<close>

theorem Mgr_Append_refines:
  assumes "store_rep lib m A L" and "zstd_ok lib"
  shows "(if 0 < length k \<and> length k \<le> maxKeyLen \<and> length (CompressBytes lib p) < MaxInt32
      then snd (Mgr_Append lib k p m) = None \<and>
        store_rep lib (fst (Mgr_Append lib k p m)) (spec_append (k, p) A) (L @ [(k, p)]) \<and>
        Mgr_GetAllValues lib k (fst (Mgr_Append lib k p m)) =
          Inr ((case A k of None \<Rightarrow> [] | Some ps \<Rightarrow> ps) @ [p])
      else snd (Mgr_Append lib k p m) \<noteq> None \<and> fst (Mgr_Append lib k p m) = m) \<and>
    Mgr_Get lib k i m =
      (case A k of None \<Rightarrow> Inl IndexOutOfBounds
       | Some ps \<Rightarrow> if 0 \<le> i \<and> i < int (length ps) then Inr (ps ! nat i) else Inl IndexOutOfBounds)"
proof (cases "append_accepts lib k p")
  case True
  note ok = Mgr_Append_ok [OF assms(1) True]
  with Mgr_reads(2) [OF conjunct2 [OF ok] assms(2)] True Mgr_reads(1) [OF assms(1,2)] show ?thesis
    by (simp add: append_accepts_def spec_append_def)
next
  case False
  with Mgr_Append_rejects [OF assms(1) False] Mgr_reads(1) [OF assms(1,2)] show ?thesis
    by (auto simp: append_accepts_def)
qed

theorem Mgr_Append_refines_witness:
  "store_rep sample_lib sample_store [''k'' \<mapsto> [[1, 2]]] [(''k'', [1, 2])] \<and> zstd_ok sample_lib \<and>
   Mgr_Get sample_lib ''k'' 0 sample_store = Inr [1, 2] \<and>
   Mgr_GetAllValues sample_lib ''k'' (fst (Mgr_Append sample_lib ''k'' [1, 2] sample_store)) = Inr [[1, 2], [1, 2]]"
  using Mgr_Append_refines [OF sample_store_rep sample_lib_ok, where k = "''k''" and p = "[1, 2]" and i = 0]
    sample_store_rep sample_lib_ok sample_accepts
  by (simp add: append_accepts_def)

text \<open>
  A batch is equivalent to appending its entries one by one, in whatever order the map is
  visited: the same records reach the log, every key's list grows by its payload, no entry is lost
  and no error is returned.
\<close>

theorem Mgr_BatchAppend_refines:
  assumes "store_rep lib m A L" and "wf_map entries" and "list_all (record_ok lib) entries"
  shows "snd (Mgr_BatchAppend lib entries m) = None \<and>
    store_rep lib (fst (Mgr_BatchAppend lib entries m)) (fold spec_append entries A) (L @ entries)"
  using assms by (rule Mgr_BatchAppend_ok)

theorem Mgr_BatchAppend_refines_witness:
  "wf_map [(''k'', [3]), (''j'', [4 :: uint8])] \<and> list_all (record_ok sample_lib) [(''k'', [3]), (''j'', [4])] \<and>
   store_rep sample_lib (fst (Mgr_BatchAppend sample_lib [(''k'', [3]), (''j'', [4])] sample_store))
     [''k'' \<mapsto> [[1, 2], [3]], ''j'' \<mapsto> [[4]]] [(''k'', [1, 2]), (''k'', [3]), (''j'', [4])]"
proof -
  have h: "wf_map [(''k'', [3]), (''j'', [4 :: uint8])]"
    "list_all (record_ok sample_lib) [(''k'', [3]), (''j'', [4])]"
    by (simp_all add: wf_map_def record_ok_def CompressBytes_def sample_lib_def)
  show ?thesis
    using Mgr_BatchAppend_refines [OF sample_store_rep h] h by (simp add: spec_append_def)
qed

text \<open>
  Restart after \<^verbatim>\<open>Close\<close>: opening the files that \<^verbatim>\<open>Close\<close> left gives a store with the same
  contents and the same log.
\<close>

theorem NewManager_after_Close:
  assumes "store_rep lib m A L"
  shows "store_rep lib (NewManager (Mgr_Close m)) A L"
  using assms by (rule restart_after_close)

theorem NewManager_after_Close_witness:
  "store_rep sample_lib sample_store [''k'' \<mapsto> [[1, 2]]] [(''k'', [1, 2])] \<and>
   store_rep sample_lib (NewManager (Mgr_Close sample_store)) [''k'' \<mapsto> [[1, 2]]] [(''k'', [1, 2])]"
  using NewManager_after_Close [OF sample_store_rep] sample_store_rep by simp

text \<open>
  Restart with index files that are missing or do not decode: the rebuilt indexes show every
  record ever appended, in order; in particular the records of keys deleted before reappear.
\<close>

theorem NewManager_rebuilds:
  assumes "store_rep lib m A L"
    and "list_all (\<lambda>(i, b). IndexFile b = NoFile \<or> IndexFile b = BadFile) (Buckets m)"
  shows "store_rep lib (NewManager (disk_of m)) (log_view L) L"
  using assms(1) by (rule restart_rebuilds) (use assms(2) in \<open>simp add: list_all_iff\<close>)

definition lose_indexes :: "Manager \<Rightarrow> Manager" where
  "lose_indexes m = \<lparr>Buckets = map (\<lambda>(i, b). (i, b\<lparr>IndexFile := NoFile\<rparr>)) (Buckets m)\<rparr>"

lemma store_rep_lose_indexes: "store_rep lib m A L \<Longrightarrow> store_rep lib (lose_indexes m) A L"
proof -
  have c: "bucket_rep lib (b\<lparr>IndexFile := NoFile\<rparr>) = bucket_rep lib b" for b
    by (rule bucket_rep_cong) simp_all
  have "wf_map (map (\<lambda>(i, b). (i, b\<lparr>IndexFile := NoFile\<rparr>)) bs) = wf_map bs" for bs :: "(uint32, Bucket) gomap"
    by (simp add: wf_map_def comp_def case_prod_unfold)
  moreover assume "store_rep lib m A L"
  ultimately show ?thesis
    by (auto simp: store_rep_def lose_indexes_def map_of_map c)
qed

theorem NewManager_rebuilds_witness:
  "list_all (\<lambda>(i, b). IndexFile b = NoFile \<or> IndexFile b = BadFile)
     (Buckets (lose_indexes (fst (Mgr_DeleteKey sample_lib ''k'' sample_store)))) \<and>
   store_rep sample_lib (NewManager (disk_of (lose_indexes (fst (Mgr_DeleteKey sample_lib ''k'' sample_store)))))
     [''k'' \<mapsto> [[1, 2]]] [(''k'', [1, 2])]"
proof -
  let ?m = "lose_indexes (fst (Mgr_DeleteKey sample_lib ''k'' sample_store))"
  have rep: "store_rep sample_lib ?m Map.empty [(''k'', [1, 2])]"
    using Mgr_DeleteKey_ok [OF sample_store_rep, of "''k''"] by (simp add: store_rep_lose_indexes)
  moreover have idx: "list_all (\<lambda>(i, b). IndexFile b = NoFile \<or> IndexFile b = BadFile) (Buckets ?m)"
    by (auto simp: lose_indexes_def list_all_iff)
  ultimately show ?thesis
    using NewManager_rebuilds [OF rep idx] by (simp add: log_view_def spec_append_def)
qed

text \<open>
  Restart with index files that decode but are older than the data files, as after a crash:
  the index is taken as it is, so the store shows the contents \<open>A\<close> of the moment the indexes were
  saved, and none of the records \<open>new\<close> appended since, although all of them are in the data files.
\<close>

theorem NewManager_stale_index:
  assumes "store_rep lib m A L" and "store_rep lib m' A' (L @ new)"
    and "\<And>i b b'. mget (Buckets m) i = Some b \<Longrightarrow> mget (Buckets m') i = Some b' \<Longrightarrow>
      IndexFile b' = GobFile (Index b)"
  shows "store_rep lib (NewManager (disk_of m')) A (L @ new)"
  by (rule restart_loads [OF assms(1,2)]) (simp add: mget_disk_of assms(3))

theorem NewManager_stale_index_witness:
  "store_rep sample_lib (NewManager (disk_of sample_store)) Map.empty [(''k'', [1, 2])]"
proof -
  have new: "store_rep sample_lib sample_store [''k'' \<mapsto> [[1, 2]]] ([] @ [(''k'', [1, 2])])"
    using sample_store_rep by simp
  have fresh: "IndexFile b = GobFile (Index b)" if "mget (Buckets (NewManager [])) i = Some b" for i b
    using that by (auto simp: Buckets_NewManager open_bucket_def loadIndex_def saveIndex_def Let_def split: if_splits)
  have "IndexFile b' = GobFile (Index b)"
    if "mget (Buckets (NewManager [])) i = Some b" "mget (Buckets sample_store) i = Some b'" for i b b'
    using that fresh [OF that(1)] sample_accepts
    by (auto simp: sample_store_def Mgr_Append_def append_accepts_def bucket_of_def set_bucket_def Let_def
        split: option.splits if_splits)
  from NewManager_stale_index [OF NewManager_empty new this] show ?thesis by simp
qed

text \<open>
  The global search returns exactly the stored payloads of all live keys that contain the pattern.
\<close>

theorem SearchGlobal_exact:
  assumes "store_rep lib m A L" and "zstd_ok lib"
  shows "set (SearchGlobal lib pat m) = {v. \<exists>k ps. A k = Some ps \<and> v \<in> set ps \<and> sublist pat v}"
  using set_SearchGlobal [OF assms] by auto

theorem SearchGlobal_exact_witness:
  "store_rep sample_lib sample_store [''k'' \<mapsto> [[1, 2]]] [(''k'', [1, 2])] \<and> zstd_ok sample_lib \<and>
   set (SearchGlobal sample_lib [2] sample_store) = {[1, 2]}"
proof -
  have "{v. \<exists>k ps. [''k'' \<mapsto> [[1, 2]]] k = Some ps \<and> v \<in> set ps \<and> sublist [2] v} = {[1, 2 :: uint8]}"
    by (auto simp: bytes_Contains_sublist [symmetric] split: if_splits)
  then show ?thesis
    using SearchGlobal_exact [OF sample_store_rep sample_lib_ok, of "[2]"] sample_store_rep sample_lib_ok by simp
qed

text \<open>
  \<^verbatim>\<open>Update\<close> writes its payload as it is, while every other path stores compressed bytes: when the
  payload is as long as the stored one, a later read returns the decompression of the payload, not
  the payload.
\<close>

theorem Mgr_Update_raw:
  assumes "store_rep lib m A L" and "A k = Some ps" and "i < length ps"
    and "length payload = length (CompressBytes lib (ps ! i))"
  shows "snd (Mgr_Update lib k (int i) payload m) = None \<and>
    Mgr_Get lib k (int i) (fst (Mgr_Update lib k (int i) payload m)) = DecompressBytes lib payload"
  using assms by (rule Mgr_Update_writes)

theorem Mgr_Update_raw_witness:
  "Mgr_Get sample_lib ''k'' 0 (fst (Mgr_Update sample_lib ''k'' 0 [5, 6, 7] sample_store)) = Inl DecompressError"
  using Mgr_Update_raw [OF sample_store_rep, of "''k''" "[[1, 2]]" 0 "[5, 6, 7]"]
  by (simp add: CompressBytes_def DecompressBytes_def sample_lib_def)

end
