(* ===== verification/Bit_Set.thy ===== *)
theory Bit_Set
  imports Go_Prelude
begin

section \<open>Sets of vector ids\<close>

text \<open>
  \<^verbatim>\<open>internal/storage/bitset.go\<close>. A \<^verbatim>\<open>BitSet\<close> is a Go map from ids to the empty struct; a
  \<^verbatim>\<open>*BitSet\<close> that may be nil is an option. The locks are left out: every method holds its lock
  for its whole body. The locale \<open>id_set\<close> is what the keyword index and the collections
  rely on.
\<close>

record BitSet =
  bits :: "(uint64, unit) gomap"

definition NewBitSet :: BitSet where
  "NewBitSet = \<lparr>bits = []\<rparr>"

definition SetBit :: "uint64 \<Rightarrow> BitSet \<Rightarrow> BitSet" where
  "SetBit v bs = bs\<lparr>bits := mput v () (bits bs)\<rparr>"

definition Unset :: "uint64 \<Rightarrow> BitSet \<Rightarrow> BitSet" where
  "Unset v bs = bs\<lparr>bits := mdel v (bits bs)\<rparr>"

definition NewBitSetFromSlice :: "uint64 list \<Rightarrow> BitSet" where
  "NewBitSetFromSlice values = fold SetBit values NewBitSet"

definition BitSet_Contains :: "BitSet \<Rightarrow> uint64 \<Rightarrow> bool" where
  "BitSet_Contains bs v = (mget (bits bs) v \<noteq> None)"

definition BitSet_Count :: "BitSet \<Rightarrow> nat" where
  "BitSet_Count bs = length (bits bs)"

definition IsEmpty :: "BitSet \<Rightarrow> bool" where
  "IsEmpty bs \<longleftrightarrow> length (bits bs) = 0"

definition ToSlice :: "BitSet \<Rightarrow> uint64 list" where
  "ToSlice bs = sort (mkeys (bits bs))"

text \<open>The loops that copy the keys of one map into a new set, keeping those that pass a test.\<close>

definition copy_bits :: "(uint64 \<Rightarrow> bool) \<Rightarrow> BitSet \<Rightarrow> BitSet \<Rightarrow> BitSet" where
  "copy_bits P from result = fold (\<lambda>v r. if P v then SetBit v r else r) (mkeys (bits from)) result"

definition Intersect :: "BitSet option \<Rightarrow> BitSet option \<Rightarrow> BitSet" where
  "Intersect bs other =
     (case (bs, other) of
        (Some a, Some b) \<Rightarrow>
          let (smaller, larger) =
            (if length (bits a) > length (bits b) then (b, a) else (a, b))
          in copy_bits (BitSet_Contains larger) smaller NewBitSet
      | _ \<Rightarrow> NewBitSet)"

definition Union :: "BitSet option \<Rightarrow> BitSet option \<Rightarrow> BitSet option" where
  "Union bs other =
     (case bs of None \<Rightarrow> other
      | Some a \<Rightarrow> (case other of None \<Rightarrow> bs
          | Some b \<Rightarrow> Some (copy_bits (\<lambda>_. True) b (copy_bits (\<lambda>_. True) a NewBitSet))))"

definition Difference :: "BitSet option \<Rightarrow> BitSet option \<Rightarrow> BitSet" where
  "Difference bs other =
     (case bs of None \<Rightarrow> NewBitSet
      | Some a \<Rightarrow> (case other of None \<Rightarrow> a
          | Some b \<Rightarrow> copy_bits (\<lambda>v. \<not> BitSet_Contains b v) a NewBitSet))"

definition Clone :: "BitSet \<Rightarrow> BitSet" where
  "Clone bs = copy_bits (\<lambda>_. True) bs NewBitSet"

subsection \<open>Members\<close>

definition members :: "BitSet \<Rightarrow> uint64 set" where
  "members bs = set (mkeys (bits bs))"

definition wf_bitset :: "BitSet \<Rightarrow> bool" where
  "wf_bitset bs \<longleftrightarrow> wf_map (bits bs)"

lemma members_NewBitSet [simp]: "members NewBitSet = {}"
  by (simp add: members_def NewBitSet_def)

lemma wf_NewBitSet [simp]: "wf_bitset NewBitSet"
  by (simp add: wf_bitset_def NewBitSet_def)

lemma members_SetBit [simp]: "members (SetBit v bs) = insert v (members bs)"
  by (auto simp: members_def SetBit_def set_mkeys update_conv' simp del: set_map)

lemma wf_SetBit [simp]: "wf_bitset bs \<Longrightarrow> wf_bitset (SetBit v bs)"
  by (simp add: wf_bitset_def SetBit_def)

lemma members_Unset [simp]: "members (Unset v bs) = members bs - {v}"
  by (auto simp: members_def Unset_def set_mkeys delete_conv' simp del: set_map)

lemma wf_Unset [simp]: "wf_bitset bs \<Longrightarrow> wf_bitset (Unset v bs)"
  by (simp add: wf_bitset_def Unset_def)

lemma BitSet_Contains_iff [simp]: "BitSet_Contains bs v \<longleftrightarrow> v \<in> members bs"
  using mget_None_iff [of "bits bs" v] by (simp add: BitSet_Contains_def members_def)

lemma members_fold_SetBit: "members (fold SetBit vs bs) = members bs \<union> set vs"
  by (induction vs arbitrary: bs) auto

lemma wf_fold_SetBit: "wf_bitset bs \<Longrightarrow> wf_bitset (fold SetBit vs bs)"
  by (induction vs arbitrary: bs) auto

lemma members_FromSlice [simp]: "members (NewBitSetFromSlice vs) = set vs"
  by (simp add: NewBitSetFromSlice_def members_fold_SetBit)

lemma wf_FromSlice [simp]: "wf_bitset (NewBitSetFromSlice vs)"
  by (simp add: NewBitSetFromSlice_def wf_fold_SetBit)

lemma copy_bits_fold: "copy_bits P from r = fold SetBit (filter P (mkeys (bits from))) r"
proof -
  have "fold (\<lambda>v r. if P v then SetBit v r else r) vs r = fold SetBit (filter P vs) r" for vs r
    by (induction vs arbitrary: r) auto
  then show ?thesis by (simp add: copy_bits_def)
qed

lemma members_copy_bits [simp]: "members (copy_bits P from r) = members r \<union> {v \<in> members from. P v}"
  unfolding copy_bits_fold members_fold_SetBit by (auto simp: members_def)

lemma wf_copy_bits [simp]: "wf_bitset r \<Longrightarrow> wf_bitset (copy_bits P from r)"
  by (simp add: copy_bits_fold wf_fold_SetBit)

lemma members_Intersect [simp]: "members (Intersect (Some a) (Some b)) = members a \<inter> members b"
  by (auto simp: Intersect_def)

lemma wf_Intersect [simp]: "wf_bitset (Intersect x y)"
  by (auto simp: Intersect_def split: option.split)

lemma IsEmpty_iff [simp]: "IsEmpty bs \<longleftrightarrow> members bs = {}"
  by (simp add: IsEmpty_def members_def)

subsection \<open>The interface\<close>

locale id_set =
  fixes empty :: "'s"
    and from_slice :: "uint64 list \<Rightarrow> 's"
    and add :: "uint64 \<Rightarrow> 's \<Rightarrow> 's"
    and inter :: "'s \<Rightarrow> 's \<Rightarrow> 's"
    and elems :: "'s \<Rightarrow> uint64 set"
  assumes elems_empty: "elems empty = {}"
    and elems_from_slice: "elems (from_slice vs) = set vs"
    and elems_add: "elems (add v s) = insert v (elems s)"
    and elems_inter: "elems (inter a b) = elems a \<inter> elems b"
begin

lemma elems_add_all: "elems (fold add vs s) = elems s \<union> set vs"
  by (induction vs arbitrary: s) (auto simp: elems_add)

lemma elems_add_nested: "elems (fold (\<lambda>x. fold add (f x)) xs s) = elems s \<union> (\<Union>x \<in> set xs. set (f x))"
  by (induction xs arbitrary: s) (auto simp: elems_add_all)

lemma elems_inter_all:
  "elems (fold (\<lambda>x r. inter r (g x)) xs s) = elems s \<inter> (\<Inter>x \<in> set xs. elems (g x))"
  by (induction xs arbitrary: s) (auto simp: elems_inter)

end

interpretation bitset: id_set NewBitSet NewBitSetFromSlice SetBit
  "\<lambda>a b. Intersect (Some a) (Some b)" members
  by unfold_locales simp_all

lemma members_Union: "map_option members (Union (Some a) (Some b)) = Some (members a \<union> members b)"
  by (auto simp: Union_def)

lemma members_Difference: "members (Difference (Some a) (Some b)) = members a - members b"
  by (auto simp: Difference_def)

lemma set_ToSlice [simp]: "set (ToSlice bs) = members bs"
  by (simp add: ToSlice_def members_def)

lemma ToSlice_order: "wf_bitset bs \<Longrightarrow> sorted (ToSlice bs) \<and> distinct (ToSlice bs)"
  by (simp add: ToSlice_def wf_bitset_def wf_map_def)

lemma BitSet_Count_card: "wf_bitset bs \<Longrightarrow> BitSet_Count bs = card (members bs)"
  by (metis BitSet_Count_def distinct_card length_map members_def wf_bitset_def wf_map_def)

text \<open>
  The set operations on bit sets are the operations on the sets of their members, whichever of
  the two arguments is larger; a nil argument empties an intersection, is neutral in a union, and
  leaves the first set of a difference; \<^verbatim>\<open>ToSlice\<close> lists the members once each, in ascending
  order, and \<^verbatim>\<open>Count\<close> is their number.
\<close>

theorem BitSet_operations:
  assumes "wf_bitset a"
  shows "members (Intersect (Some a) (Some b)) = members a \<inter> members b \<and>
    map_option members (Union (Some a) (Some b)) = Some (members a \<union> members b) \<and>
    members (Difference (Some a) (Some b)) = members a - members b \<and>
    Intersect None y = NewBitSet \<and> Intersect x None = NewBitSet \<and>
    Union None y = y \<and> Union x None = x \<and> Difference (Some a) None = a \<and>
    members (Clone a) = members a \<and>
    set (ToSlice a) = members a \<and> sorted (ToSlice a) \<and> distinct (ToSlice a) \<and>
    BitSet_Count a = card (members a)"
proof -
  have "Intersect None y = NewBitSet" "Intersect x None = NewBitSet" "Union None y = y" "Union x None = x"
    "Difference (Some a) None = a" "members (Clone a) = members a"
    by (simp_all add: Intersect_def Union_def Difference_def Clone_def split: option.split)
  then show ?thesis
    using assms by (simp add: members_Union members_Difference ToSlice_order BitSet_Count_card)
qed

theorem BitSet_operations_witness:
  "wf_bitset (NewBitSetFromSlice [5, 3, 5]) \<and>
   members (Intersect (Some (NewBitSetFromSlice [5, 3, 5])) (Some (NewBitSetFromSlice [3, 9]))) = {3} \<and>
   sorted (ToSlice (NewBitSetFromSlice [5, 3, 5]))"
  using BitSet_operations [of "NewBitSetFromSlice [5, 3, 5]" "NewBitSetFromSlice [3, 9]"] by auto

end
