(* ===== verification/Levenshtein.thy ===== *)
theory Levenshtein
  imports Go_Strings
begin

section \<open>Levenshtein distance\<close>

text \<open>
  The helper \<^verbatim>\<open>levenshteinDistance\<close> of \<^verbatim>\<open>internal/storage/keyword_index.go\<close>: the full distance
  matrix, filled row by row. The specification is independent of any recursion: \<open>edit_path\<close> says
  that a list is reached from another by a number of single insertions, deletions and substitutions
  at any position, and the distance is the least such number.
\<close>

subsection \<open>The program\<close>

definition cell :: "nat list list \<Rightarrow> nat \<Rightarrow> nat \<Rightarrow> nat" where
  "cell d i j = d ! i ! j"

definition set_cell :: "nat \<Rightarrow> nat \<Rightarrow> nat \<Rightarrow> nat list list \<Rightarrow> nat list list" where
  "set_cell i j v d = d[i := (d ! i)[j := v]]"

definition lev_init :: "nat \<Rightarrow> nat \<Rightarrow> nat list list" where
  "lev_init m n =
     (let d = replicate (m + 1) (replicate (n + 1) 0);
          d = fold (\<lambda>i. set_cell i 0 i) [0..<m + 1] d
      in fold (\<lambda>j. set_cell 0 j j) [0..<n + 1] d)"

definition lev_cell :: "'a list \<Rightarrow> 'a list \<Rightarrow> nat \<Rightarrow> nat \<Rightarrow> nat list list \<Rightarrow> nat list list" where
  "lev_cell ra rb i j d =
     (let cost = (if ra ! (i - 1) = rb ! (j - 1) then 0 else 1)
      in set_cell i j (min (min (cell d (i - 1) j + 1) (cell d i (j - 1) + 1))
                           (cell d (i - 1) (j - 1) + cost)) d)"

definition lev_matrix :: "'a list \<Rightarrow> 'a list \<Rightarrow> nat list list" where
  "lev_matrix ra rb =
     fold (\<lambda>i. fold (\<lambda>j. lev_cell ra rb i j) [1..<length rb + 1]) [1..<length ra + 1]
       (lev_init (length ra) (length rb))"

definition levenshteinDistance :: "string \<Rightarrow> string \<Rightarrow> nat" where
  "levenshteinDistance a b =
     (if length a = 0 then length b
      else if length b = 0 then length a
      else
        let ra = runes a; rb = runes b
        in cell (lev_matrix ra rb) (length ra) (length rb))"

subsection \<open>The specification\<close>

inductive edit_path :: "'a list \<Rightarrow> 'a list \<Rightarrow> nat \<Rightarrow> bool" where
  same: "edit_path xs xs 0"
| ins: "edit_path xs (ys @ zs) n \<Longrightarrow> edit_path xs (ys @ c # zs) (Suc n)"
| del: "edit_path xs (ys @ c # zs) n \<Longrightarrow> edit_path xs (ys @ zs) (Suc n)"
| sub: "edit_path xs (ys @ c # zs) n \<Longrightarrow> edit_path xs (ys @ c' # zs) (Suc n)"

definition edit_distance :: "'a list \<Rightarrow> 'a list \<Rightarrow> nat \<Rightarrow> bool" where
  "edit_distance xs ys n \<longleftrightarrow> edit_path xs ys n \<and> (\<forall>m. edit_path xs ys m \<longrightarrow> n \<le> m)"

lemma edit_path_trans: "edit_path ys zs m \<Longrightarrow> edit_path xs ys n \<Longrightarrow> edit_path xs zs (n + m)"
proof (induction rule: edit_path.induct)
  case (same ys)
  then show ?case by simp
next
  case (ins ys us vs m c)
  then show ?case using edit_path.ins [of xs us vs "n + m" c] by simp
next
  case (del ys us c vs m)
  then show ?case using edit_path.del [of xs us c vs "n + m"] by simp
next
  case (sub ys us c vs m c')
  then show ?case using edit_path.sub [of xs us c vs "n + m" c'] by simp
qed

lemma edit_path_Cons: "edit_path xs ys n \<Longrightarrow> edit_path (x # xs) (x # ys) n"
proof (induction rule: edit_path.induct)
  case (same xs)
  show ?case by (rule edit_path.same)
next
  case (ins xs ys zs n c)
  then show ?case using edit_path.ins [of "x # xs" "x # ys" zs n c] by simp
next
  case (del xs ys c zs n)
  then show ?case using edit_path.del [of "x # xs" "x # ys" c zs n] by simp
next
  case (sub xs ys c zs n c')
  then show ?case using edit_path.sub [of "x # xs" "x # ys" c zs n c'] by simp
qed

lemma edit_path_rev: "edit_path xs ys n \<Longrightarrow> edit_path (rev xs) (rev ys) n"
proof (induction rule: edit_path.induct)
  case (same xs)
  show ?case by (rule edit_path.same)
next
  case (ins xs ys zs n c)
  then show ?case using edit_path.ins [of "rev xs" "rev zs" "rev ys" n c] by simp
next
  case (del xs ys c zs n)
  then show ?case using edit_path.del [of "rev xs" "rev zs" c "rev ys" n] by simp
next
  case (sub xs ys c zs n c')
  then show ?case using edit_path.sub [of "rev xs" "rev zs" c "rev ys" n c'] by simp
qed

lemma edit_distance_rev: "edit_distance (rev xs) (rev ys) n \<longleftrightarrow> edit_distance xs ys n"
  unfolding edit_distance_def by (metis edit_path_rev rev_rev_ident)

lemma edit_path_insert_all: "edit_path [] ys (length ys)"
proof (induction ys)
  case Nil
  show ?case by (simp add: edit_path.same)
next
  case (Cons y ys)
  then show ?case using edit_path.ins [of "[]" "[]" ys "length ys" y] by simp
qed

lemma edit_path_drop_head: "edit_path (x # xs) xs 1"
  using edit_path.del [of "x # xs" "[]" x xs 0] edit_path.same [of "x # xs"] by simp

lemma edit_path_delete_all: "edit_path xs [] (length xs)"
proof (induction xs)
  case Nil
  show ?case by (simp add: edit_path.same)
next
  case (Cons x xs)
  then show ?case using edit_path_trans [OF Cons edit_path_drop_head] by simp
qed

subsection \<open>A reference recursion\<close>

fun lev :: "'a list \<Rightarrow> 'a list \<Rightarrow> nat" where
  "lev [] ys = length ys"
| "lev (x # xs) [] = Suc (length xs)"
| "lev (x # xs) (y # ys) =
     min (min (lev xs (y # ys) + 1) (lev (x # xs) ys + 1)) (lev xs ys + (if x = y then 0 else 1))"

lemma lev_Nil2 [simp]: "lev xs [] = length xs"
  by (cases xs) auto

lemma lev_Cons1_le: "lev (x # xs) ys \<le> lev xs ys + 1"
  by (cases ys) auto

lemma lev_Cons2_le: "lev xs (y # ys) \<le> lev xs ys + 1"
  by (cases xs) auto

lemma lev_drop2_le: "lev xs ys \<le> lev xs (y # ys) + 1"
proof (induction xs)
  case (Cons x xs)
  have "lev (x # xs) ys \<le> lev xs ys + 1" by (rule lev_Cons1_le)
  with Cons show ?case by auto
qed simp

lemma lev_sub2_le: "lev xs (c' # ys) \<le> lev xs (c # ys) + 1"
  by (induction xs) auto

lemma lev_context2:
  assumes "\<And>xs. lev xs us \<le> lev xs vs + 1"
  shows "lev xs (y # us) \<le> lev xs (y # vs) + 1"
proof (induction xs)
  case Nil
  show ?case using assms [of "[]"] by simp
next
  case (Cons x xs)
  then show ?case using assms [of "x # xs"] assms [of xs] by auto
qed

lemma lev_context2_append:
  assumes "\<And>xs. lev xs us \<le> lev xs vs + 1"
  shows "lev xs (ys @ us) \<le> lev xs (ys @ vs) + 1"
proof (induction ys arbitrary: xs)
  case Nil
  show ?case using assms by simp
next
  case (Cons y ys)
  then show ?case using lev_context2 [of "ys @ us" "ys @ vs"] by simp
qed

lemma lev_le_edit_path: "edit_path xs ys n \<Longrightarrow> lev xs ys \<le> n"
proof (induction rule: edit_path.induct)
  case (same xs)
  then show ?case by (induction xs) auto
next
  case (ins xs ys zs n c)
  have "lev xs (ys @ c # zs) \<le> lev xs (ys @ zs) + 1"
    by (rule lev_context2_append) (rule lev_Cons2_le)
  with ins show ?case by simp
next
  case (del xs ys c zs n)
  have "lev xs (ys @ zs) \<le> lev xs (ys @ c # zs) + 1"
    by (rule lev_context2_append) (rule lev_drop2_le)
  with del show ?case by simp
next
  case (sub xs ys c zs n c')
  have "lev xs (ys @ c' # zs) \<le> lev xs (ys @ c # zs) + 1"
    by (rule lev_context2_append) (rule lev_sub2_le)
  with sub show ?case by simp
qed

lemma edit_path_lev: "edit_path xs ys (lev xs ys)"
proof (induction xs ys rule: lev.induct)
  case (1 ys)
  show ?case by (simp add: edit_path_insert_all)
next
  case (2 x xs)
  show ?case using edit_path_delete_all [of "x # xs"] by simp
next
  case (3 x xs y ys)
  have a: "edit_path (x # xs) (y # ys) (lev xs (y # ys) + 1)"
    using edit_path_trans [OF "3.IH"(1) edit_path_drop_head] by simp
  have b: "edit_path (x # xs) (y # ys) (lev (x # xs) ys + 1)"
    using edit_path.ins [of "x # xs" "[]" ys _ y] "3.IH"(2) by simp
  have c: "edit_path (x # xs) (y # ys) (lev xs ys + (if x = y then 0 else 1))"
    using edit_path_Cons [OF "3.IH"(3), of x] edit_path.sub [of "x # xs" "[]" x ys _ y]
    by (cases "x = y") simp_all
  from a b c show ?case
    unfolding lev.simps by (metis min_def)
qed

lemma edit_distance_lev: "edit_distance xs ys (lev xs ys)"
  by (simp add: edit_distance_def edit_path_lev lev_le_edit_path)

subsection \<open>The matrix holds the distances of the prefixes\<close>

definition prefix_lev :: "'a list \<Rightarrow> 'a list \<Rightarrow> nat \<Rightarrow> nat \<Rightarrow> nat" where
  "prefix_lev ra rb i j = lev (rev (take i ra)) (rev (take j rb))"

lemma prefix_lev_0 [simp]: "j \<le> length rb \<Longrightarrow> prefix_lev ra rb 0 j = j"
  "i \<le> length ra \<Longrightarrow> prefix_lev ra rb i 0 = i"
  by (simp_all add: prefix_lev_def)

lemma prefix_lev_Suc:
  assumes "i < length ra" and "j < length rb"
  shows "prefix_lev ra rb (Suc i) (Suc j) =
    min (min (prefix_lev ra rb i (Suc j) + 1) (prefix_lev ra rb (Suc i) j + 1))
        (prefix_lev ra rb i j + (if ra ! i = rb ! j then 0 else 1))"
  using assms by (simp add: prefix_lev_def take_Suc_conv_app_nth)

definition shape :: "nat \<Rightarrow> nat \<Rightarrow> nat list list \<Rightarrow> bool" where
  "shape m n d \<longleftrightarrow> length d = Suc m \<and> (\<forall>i \<le> m. length (d ! i) = Suc n)"

lemma shape_set_cell [simp]: "shape m n d \<Longrightarrow> shape m n (set_cell i j v d)"
  by (cases "i < length d") (auto simp: shape_def set_cell_def nth_list_update list_update_beyond)

lemma shape_replicate: "shape m n (replicate (Suc m) (replicate (Suc n) 0))"
  by (simp add: shape_def del: replicate_Suc)

lemma cell_set_cell:
  "shape m n d \<Longrightarrow> i \<le> m \<Longrightarrow> j \<le> n \<Longrightarrow>
   cell (set_cell i j v d) i' j' = (if i' = i \<and> j' = j then v else cell d i' j')"
  by (auto simp: shape_def set_cell_def cell_def nth_list_update)

lemma lev_init_column:
  fixes m n :: nat
  defines "c \<equiv> fold (\<lambda>i. set_cell i 0 i) [0..<m + 1] (replicate (m + 1) (replicate (n + 1) 0))"
  shows "shape m n c \<and> (\<forall>i < m + 1. cell c i 0 = i)"
  unfolding c_def
proof (rule fold_upt_invariant [where P = "\<lambda>k d. shape m n d \<and> (\<forall>i < k. cell d i 0 = i)"])
  show "shape m n (replicate (m + 1) (replicate (n + 1) 0)) \<and>
      (\<forall>i < 0. cell (replicate (m + 1) (replicate (n + 1) 0)) i 0 = i)"
    using shape_replicate by (simp del: replicate_Suc)
qed (auto simp: cell_set_cell less_Suc_eq)

lemma lev_init_row:
  assumes "shape m n c" and "\<forall>i < m + 1. cell c i 0 = i"
  shows "shape m n (fold (\<lambda>j. set_cell 0 j j) [0..<n + 1] c) \<and>
    (\<forall>i < m + 1. cell (fold (\<lambda>j. set_cell 0 j j) [0..<n + 1] c) i 0 = i) \<and>
    (\<forall>j < n + 1. cell (fold (\<lambda>j. set_cell 0 j j) [0..<n + 1] c) 0 j = j)"
  by (rule fold_upt_invariant [where P = "\<lambda>k d. shape m n d \<and> (\<forall>i < m + 1. cell d i 0 = i) \<and>
        (\<forall>j < k. cell d 0 j = j)"])
    (use assms in \<open>auto simp: cell_set_cell less_Suc_eq\<close>)

lemma lev_init_correct:
  "shape m n (lev_init m n) \<and> (\<forall>i \<le> m. cell (lev_init m n) i 0 = i) \<and>
   (\<forall>j \<le> n. cell (lev_init m n) 0 j = j)"
proof -
  define c where "c = fold (\<lambda>i. set_cell i 0 i) [0..<m + 1] (replicate (m + 1) (replicate (n + 1) (0 :: nat)))"
  have "shape m n c \<and> (\<forall>i < m + 1. cell c i 0 = i)"
    unfolding c_def by (rule lev_init_column)
  then have "shape m n (fold (\<lambda>j. set_cell 0 j j) [0..<n + 1] c) \<and>
    (\<forall>i < m + 1. cell (fold (\<lambda>j. set_cell 0 j j) [0..<n + 1] c) i 0 = i) \<and>
    (\<forall>j < n + 1. cell (fold (\<lambda>j. set_cell 0 j j) [0..<n + 1] c) 0 j = j)"
    by (intro lev_init_row) auto
  moreover have "lev_init m n = fold (\<lambda>j. set_cell 0 j j) [0..<n + 1] c"
    unfolding lev_init_def c_def Let_def by (rule refl)
  ultimately show ?thesis
    by (auto simp only: less_Suc_eq_le Suc_eq_plus1 [symmetric])
qed

text \<open>The first \<open>k\<close> rows, and the first column, are correct.\<close>

definition rows_ok :: "'a list \<Rightarrow> 'a list \<Rightarrow> nat \<Rightarrow> nat list list \<Rightarrow> bool" where
  "rows_ok ra rb k d \<longleftrightarrow> shape (length ra) (length rb) d \<and>
     (\<forall>i \<le> length ra. cell d i 0 = i) \<and>
     (\<forall>i < k. \<forall>j \<le> length rb. cell d i j = prefix_lev ra rb i j)"

lemma lev_row_correct:
  assumes "rows_ok ra rb i d" and "1 \<le> i" and "i \<le> length ra"
  shows "rows_ok ra rb (Suc i) (fold (\<lambda>j. lev_cell ra rb i j) [1..<length rb + 1] d)"
proof -
  define r where "r = fold (\<lambda>j. lev_cell ra rb i j) [1..<length rb + 1] d"
  define P where "P k e \<longleftrightarrow> rows_ok ra rb i e \<and> (\<forall>j < k. cell e i j = prefix_lev ra rb i j)" for k e
  have "P (length rb + 1) r"
    unfolding r_def
  proof (rule fold_upt_invariant [where P = P])
    show "P 1 d"
      using assms by (auto simp: P_def rows_ok_def)
  next
    fix k e
    assume k: "1 \<le> k" "k < length rb + 1" and P: "P k e"
    have "cell e (i - 1) k = prefix_lev ra rb (i - 1) k"
      "cell e (i - 1) (k - 1) = prefix_lev ra rb (i - 1) (k - 1)"
      "cell e i (k - 1) = prefix_lev ra rb i (k - 1)"
      using P k assms(2) by (auto simp: P_def rows_ok_def)
    then have "lev_cell ra rb i k e = set_cell i k (prefix_lev ra rb i k) e"
      using k assms(2,3) prefix_lev_Suc [of "i - 1" ra "k - 1" rb]
      by (simp add: lev_cell_def Let_def)
    then show "P (Suc k) (lev_cell ra rb i k e)"
      using P k assms(2,3) by (auto simp: P_def rows_ok_def cell_set_cell less_Suc_eq)
  qed simp
  then have "rows_ok ra rb (Suc i) r"
    unfolding P_def rows_ok_def by (metis Suc_eq_plus1 less_Suc_eq less_Suc_eq_le)
  then show ?thesis by (simp only: r_def)
qed

lemma lev_matrix_correct:
  "cell (lev_matrix ra rb) (length ra) (length rb) = prefix_lev ra rb (length ra) (length rb)"
proof -
  have "rows_ok ra rb (length ra + 1) (lev_matrix ra rb)"
    unfolding lev_matrix_def
  proof (rule fold_upt_invariant [where P = "rows_ok ra rb"])
    show "rows_ok ra rb 1 (lev_init (length ra) (length rb))"
      using lev_init_correct [of "length ra" "length rb"] by (simp add: rows_ok_def)
  next
    fix k e
    assume "1 \<le> k" "k < length ra + 1" "rows_ok ra rb k e"
    then show "rows_ok ra rb (Suc k) (fold (\<lambda>j. lev_cell ra rb k j) [1..<length rb + 1] e)"
      by (intro lev_row_correct) simp_all
  qed simp
  then show ?thesis by (simp add: rows_ok_def)
qed



end
