(* ===== verification/Keyword_Index.thy ===== *)
theory Keyword_Index
  imports Entry_Codec Bit_Set Levenshtein Forward_Index
begin

section \<open>The inverted keyword index\<close>

text \<open>
  \<^verbatim>\<open>internal/storage/keyword_index.go\<close>: trigrams, postings lists, the four search modes, and
  persistence. A nil \<^verbatim>\<open>*BitSet\<close> result is \<open>None\<close>. The specification of the index is the
  relation between ids and (lower-case) keywords; \<open>ii_rep\<close> says that an index represents one,
  \<^verbatim>\<open>Add\<close> refines the union of relations, and each search mode is described by the relation alone.
\<close>

text \<open>The prefix of the keys under which whole keywords are filed.\<close>

definition kw_tag :: string where
  "kw_tag = ''kw:''"

record InvertedIndex =
  ii_index :: "(string, uint64 list) gomap"

definition NewInvertedIndex :: InvertedIndex where
  "NewInvertedIndex = \<lparr>ii_index = []\<rparr>"

definition GenerateTrigrams :: "(string \<Rightarrow> string) \<Rightarrow> string \<Rightarrow> string list" where
  "GenerateTrigrams ul keyword =
     (let keyword = ToLower ul keyword in
      if length keyword < 3 then [keyword]
      else let rs = runes keyword
           in map (\<lambda>i. string_of_runes (slice rs i (i + 3))) [0..<length rs - 2])"

fun appendUnique :: "uint64 list \<Rightarrow> uint64 \<Rightarrow> uint64 list" where
  "appendUnique vs v = (if v \<in> set vs then vs else vs @ [v])"

definition removeValue :: "uint64 list \<Rightarrow> uint64 \<Rightarrow> uint64 list" where
  "removeValue vs v = filter (\<lambda>x. x \<noteq> v) vs"

text \<open>\<^verbatim>\<open>ii.index[k] = f(ii.index[k], id)\<close>.\<close>

definition upd_posting ::
  "(uint64 list \<Rightarrow> uint64 \<Rightarrow> uint64 list) \<Rightarrow> uint64 \<Rightarrow> string \<Rightarrow>
   (string, uint64 list) gomap \<Rightarrow> (string, uint64 list) gomap" where
  "upd_posting f v k idx = mput k (f (mget0 [] idx k) v) idx"

definition upd_keyword ::
  "(uint64 list \<Rightarrow> uint64 \<Rightarrow> uint64 list) \<Rightarrow> (string \<Rightarrow> string) \<Rightarrow> uint64 \<Rightarrow> string \<Rightarrow>
   (string, uint64 list) gomap \<Rightarrow> (string, uint64 list) gomap" where
  "upd_keyword f ul v kw idx =
     (let kw = ToLower ul kw;
          idx = fold (upd_posting f v) (GenerateTrigrams ul kw) idx
      in upd_posting f v (kw_tag @ kw) idx)"

definition II_Add :: "(string \<Rightarrow> string) \<Rightarrow> string list \<Rightarrow> uint64 \<Rightarrow> InvertedIndex \<Rightarrow> InvertedIndex" where
  "II_Add ul keywords vectorID ii =
     ii\<lparr>ii_index := fold (upd_keyword appendUnique ul vectorID) keywords (ii_index ii)\<rparr>"

definition II_Delete :: "(string \<Rightarrow> string) \<Rightarrow> string list \<Rightarrow> uint64 \<Rightarrow> InvertedIndex \<Rightarrow> InvertedIndex" where
  "II_Delete ul keywords vectorID ii =
     ii\<lparr>ii_index := fold (upd_keyword removeValue ul vectorID) keywords (ii_index ii)\<rparr>"

definition exact_posting :: "(string \<Rightarrow> string) \<Rightarrow> InvertedIndex \<Rightarrow> string \<Rightarrow> uint64 list" where
  "exact_posting ul ii kw = mget0 [] (ii_index ii) (kw_tag @ ToLower ul kw)"

definition SearchExact :: "(string \<Rightarrow> string) \<Rightarrow> InvertedIndex \<Rightarrow> string list \<Rightarrow> BitSet option" where
  "SearchExact ul ii keywords =
     (case keywords of
        [] \<Rightarrow> None
      | kw # kws \<Rightarrow>
          Some (fold (\<lambda>kw result. Intersect (Some result) (Some (NewBitSetFromSlice (exact_posting ul ii kw))))
                  kws (NewBitSetFromSlice (exact_posting ul ii kw))))"

text \<open>
  The shape the other three modes share: one candidate set for each query, the first kept and every
  later one intersected with the result so far.
\<close>

definition and_candidates :: "(string \<Rightarrow> BitSet) \<Rightarrow> string list \<Rightarrow> BitSet option" where
  "and_candidates cand queries =
     fold (\<lambda>q result. case result of
             None \<Rightarrow> Some (cand q)
           | Some r \<Rightarrow> Some (Intersect (Some r) (Some (cand q)))) queries None"

definition scan_keywords :: "(string \<Rightarrow> bool) \<Rightarrow> InvertedIndex \<Rightarrow> BitSet" where
  "scan_keywords P ii =
     fold (\<lambda>(key, ids) candidates.
             if HasPrefix key kw_tag \<and> P (TrimPrefix key kw_tag) then fold SetBit ids candidates
             else candidates) (ii_index ii) NewBitSet"

definition SearchPrefix :: "(string \<Rightarrow> string) \<Rightarrow> InvertedIndex \<Rightarrow> string list \<Rightarrow> BitSet option" where
  "SearchPrefix ul ii pfxs =
     and_candidates (\<lambda>p. scan_keywords (\<lambda>keyword. HasPrefix keyword (ToLower ul p)) ii) pfxs"

definition partial_candidates :: "(string \<Rightarrow> string) \<Rightarrow> InvertedIndex \<Rightarrow> string \<Rightarrow> BitSet" where
  "partial_candidates ul ii substr =
     (case GenerateTrigrams ul (ToLower ul substr) of
        [] \<Rightarrow> NewBitSet
      | tg # tgs \<Rightarrow>
          fold (\<lambda>tg candidates. Intersect (Some candidates)
                    (Some (NewBitSetFromSlice (mget0 [] (ii_index ii) tg))))
            tgs (fold SetBit (mget0 [] (ii_index ii) tg) NewBitSet))"

definition SearchPartial :: "(string \<Rightarrow> string) \<Rightarrow> InvertedIndex \<Rightarrow> string list \<Rightarrow> BitSet option" where
  "SearchPartial ul ii substrings = and_candidates (partial_candidates ul ii) substrings"

definition SearchLevenshtein ::
  "(string \<Rightarrow> string) \<Rightarrow> InvertedIndex \<Rightarrow> string list \<Rightarrow> uint32 \<Rightarrow> BitSet option" where
  "SearchLevenshtein ul ii keywords maxDistance =
     and_candidates (\<lambda>q. scan_keywords
         (\<lambda>keyword. levenshteinDistance (ToLower ul q) keyword \<le> unat maxDistance) ii) keywords"

definition II_Search ::
  "(string \<Rightarrow> string) \<Rightarrow> InvertedIndex \<Rightarrow> string list \<Rightarrow> string \<Rightarrow> uint32 \<Rightarrow> BitSet option" where
  "II_Search ul ii keywords mode maxDistance =
     (if mode = ''exact'' then SearchExact ul ii keywords
      else if mode = ''prefix'' then SearchPrefix ul ii keywords
      else if mode = ''partial'' then SearchPartial ul ii keywords
      else if mode = ''levenshtein'' then SearchLevenshtein ul ii keywords maxDistance
      else SearchExact ul ii keywords)"

definition II_Save :: "InvertedIndex \<Rightarrow> (string, uint64 list) gomap gob_file" where
  "II_Save ii = GobFile (ii_index ii)"

definition II_Load ::
  "(string, uint64 list) gomap gob_file \<Rightarrow> InvertedIndex \<Rightarrow> InvertedIndex \<times> go_error option" where
  "II_Load file ii =
     (case file of
        NoFile \<Rightarrow> (ii\<lparr>ii_index := []\<rparr>, None)
      | BadFile \<Rightarrow> (ii, Some UnexpectedEOF)
      | GobFile m \<Rightarrow> (ii\<lparr>ii_index := fold (\<lambda>(k, v). mput k v) m (ii_index ii)\<rparr>, None))"

subsection \<open>Postings\<close>

abbreviation posting :: "(string, uint64 list) gomap \<Rightarrow> string \<Rightarrow> uint64 set" where
  "posting idx k \<equiv> set (mget0 [] idx k)"

lemma set_appendUnique [simp]: "set (appendUnique vs v) = insert v (set vs)"
  by auto

lemma set_removeValue [simp]: "set (removeValue vs v) = set vs - {v}"
  by (auto simp: removeValue_def)

declare appendUnique.simps [simp del]

lemma wf_upd_posting [simp]: "wf_map idx \<Longrightarrow> wf_map (upd_posting f v k idx)"
  by (simp add: upd_posting_def)

lemma wf_fold_upd_posting [simp]: "wf_map idx \<Longrightarrow> wf_map (fold (upd_posting f v) ks idx)"
  by (induction ks arbitrary: idx) auto

lemma wf_upd_keyword [simp]: "wf_map idx \<Longrightarrow> wf_map (upd_keyword f ul v kw idx)"
  by (simp add: upd_keyword_def Let_def)

lemma wf_fold_upd_keyword [simp]: "wf_map idx \<Longrightarrow> wf_map (fold (upd_keyword f ul v) kws idx)"
  by (induction kws arbitrary: idx) auto

lemma posting_add_all:
  "posting (fold (upd_posting appendUnique v) ks idx) k =
     posting idx k \<union> (if k \<in> set ks then {v} else {})"
  by (induction ks arbitrary: idx) (auto simp: upd_posting_def)

lemma posting_remove_all:
  "posting (fold (upd_posting removeValue v) ks idx) k =
     posting idx k - (if k \<in> set ks then {v} else {})"
  by (induction ks arbitrary: idx) (auto simp: upd_posting_def)

text \<open>The keys one keyword is filed under.\<close>

definition keyword_keys :: "(string \<Rightarrow> string) \<Rightarrow> string \<Rightarrow> string list" where
  "keyword_keys ul kw = GenerateTrigrams ul kw @ [kw_tag @ kw]"

lemma upd_keyword_fold:
  "upd_keyword f ul v kw idx = fold (upd_posting f v) (keyword_keys ul (ToLower ul kw)) idx"
  by (simp add: upd_keyword_def keyword_keys_def Let_def)

lemma posting_Add:
  "posting (ii_index (II_Add ul kws v ii)) k =
     posting (ii_index ii) k \<union>
     (if \<exists>kw \<in> set kws. k \<in> set (keyword_keys ul (ToLower ul kw)) then {v} else {})"
proof -
  have "posting (fold (upd_keyword appendUnique ul v) kws idx) k = posting idx k \<union>
     (if \<exists>kw \<in> set kws. k \<in> set (keyword_keys ul (ToLower ul kw)) then {v} else {})" for idx
    by (induction kws arbitrary: idx) (auto simp: upd_keyword_fold posting_add_all)
  then show ?thesis by (simp add: II_Add_def)
qed

lemma posting_Delete:
  "posting (ii_index (II_Delete ul kws v ii)) k =
     posting (ii_index ii) k -
     (if \<exists>kw \<in> set kws. k \<in> set (keyword_keys ul (ToLower ul kw)) then {v} else {})"
proof -
  have "posting (fold (upd_keyword removeValue ul v) kws idx) k = posting idx k -
     (if \<exists>kw \<in> set kws. k \<in> set (keyword_keys ul (ToLower ul kw)) then {v} else {})" for idx
    by (induction kws arbitrary: idx) (auto simp: upd_keyword_fold posting_remove_all)
  then show ?thesis by (simp add: II_Delete_def)
qed

subsection \<open>The represented relation\<close>

text \<open>
  A keyword is \<open>plain\<close> when no trigram of it looks like a full-keyword key; every keyword that
  passes validation is plain (\<open>plain_keyword_good\<close> below).
\<close>

definition plain_keyword :: "(string \<Rightarrow> string) \<Rightarrow> string \<Rightarrow> bool" where
  "plain_keyword ul kw \<longleftrightarrow> list_all (\<lambda>tg. \<not> HasPrefix tg kw_tag) (GenerateTrigrams ul kw)"

definition ii_rep :: "(string \<Rightarrow> string) \<Rightarrow> InvertedIndex \<Rightarrow> (uint64 \<times> string) set \<Rightarrow> bool" where
  "ii_rep ul ii R \<longleftrightarrow> wf_map (ii_index ii) \<and>
     (\<forall>k v. v \<in> posting (ii_index ii) k \<longleftrightarrow> (\<exists>kw. (v, kw) \<in> R \<and> k \<in> set (keyword_keys ul kw))) \<and>
     (\<forall>v kw. (v, kw) \<in> R \<longrightarrow> plain_keyword ul kw)"

lemma ii_rep_New: "ii_rep ul NewInvertedIndex {}"
  by (simp add: ii_rep_def NewInvertedIndex_def)

lemma ii_rep_Add:
  assumes "ii_rep ul ii R" and "\<forall>kw \<in> set kws. plain_keyword ul (ToLower ul kw)"
  shows "ii_rep ul (II_Add ul kws v ii) (R \<union> (\<lambda>kw. (v, ToLower ul kw)) ` set kws)"
  using assms by (auto simp: ii_rep_def posting_Add) (simp add: II_Add_def)

lemma ii_rep_exact:
  assumes "ii_rep ul ii R"
  shows "v \<in> posting (ii_index ii) (kw_tag @ kw) \<longleftrightarrow> (v, kw) \<in> R"
proof -
  have "kw_tag @ kw \<notin> set (GenerateTrigrams ul kw')" if "(v, kw') \<in> R" for kw'
  proof
    assume "kw_tag @ kw \<in> set (GenerateTrigrams ul kw')"
    moreover have "HasPrefix (kw_tag @ kw) kw_tag" by simp
    ultimately show False
      using assms that unfolding ii_rep_def plain_keyword_def list_all_iff by blast
  qed
  with assms show ?thesis
    by (auto simp: ii_rep_def keyword_keys_def)
qed

lemma ii_rep_trigram:
  assumes "ii_rep ul ii R" and "\<not> HasPrefix tg kw_tag"
  shows "v \<in> posting (ii_index ii) tg \<longleftrightarrow> (\<exists>kw. (v, kw) \<in> R \<and> tg \<in> set (GenerateTrigrams ul kw))"
  using assms by (auto simp: ii_rep_def keyword_keys_def prefix_def)

subsection \<open>Candidates\<close>

lemma and_candidates_Cons:
  "and_candidates cand (q # qs) =
     Some (fold (\<lambda>q r. Intersect (Some r) (Some (cand q))) qs (cand q))"
proof -
  have "fold (\<lambda>q result. case result of None \<Rightarrow> Some (cand q)
      | Some r \<Rightarrow> Some (Intersect (Some r) (Some (cand q)))) qs (Some s) =
    Some (fold (\<lambda>q r. Intersect (Some r) (Some (cand q))) qs s)" for s
    by (induction qs arbitrary: s) auto
  then show ?thesis by (simp add: and_candidates_def)
qed

lemma members_and_candidates:
  assumes "qs \<noteq> []"
  shows "\<exists>bs. and_candidates cand qs = Some bs \<and> members bs = (\<Inter>q \<in> set qs. members (cand q))"
proof -
  obtain q qs' where "qs = q # qs'" using assms by (cases qs) auto
  then show ?thesis by (simp add: and_candidates_Cons bitset.elems_inter_all)
qed

lemma and_candidates_Nil [simp]: "and_candidates cand [] = None"
  by (simp add: and_candidates_def)

lemma members_scan_fold:
  "members (fold (\<lambda>(key, ids) c. if HasPrefix key kw_tag \<and> P (TrimPrefix key kw_tag)
      then fold SetBit ids c else c) m c) =
   members c \<union> {v. \<exists>kw ids. (kw_tag @ kw, ids) \<in> set m \<and> v \<in> set ids \<and> P kw}"
proof (induction m arbitrary: c)
  case Nil
  then show ?case by simp
next
  case (Cons e m)
  obtain key ids where e: "e = (key, ids)" by (cases e)
  show ?case
  proof (cases "HasPrefix key kw_tag")
    case True
    then obtain kw where "key = kw_tag @ kw" by (auto simp: prefix_def)
    with Cons e show ?thesis by (auto simp: bitset.elems_add_all)
  next
    case False
    then have "key \<noteq> kw_tag @ kw" for kw by auto
    with Cons e False show ?thesis by auto
  qed
qed

lemma members_scan_keywords:
  assumes "ii_rep ul ii R"
  shows "members (scan_keywords P ii) = {v. \<exists>kw. (v, kw) \<in> R \<and> P kw}"
proof -
  have "members (scan_keywords P ii) =
      {v. \<exists>kw ids. mget (ii_index ii) (kw_tag @ kw) = Some ids \<and> v \<in> set ids \<and> P kw}"
    using assms by (simp add: scan_keywords_def ii_rep_def mget_in_set members_scan_fold)
  also have "\<dots> = {v. \<exists>kw. v \<in> posting (ii_index ii) (kw_tag @ kw) \<and> P kw}"
    by (force simp: mget0_def split: option.splits)
  finally show ?thesis using ii_rep_exact [OF assms] by simp
qed

lemma members_partial_candidates:
  assumes "GenerateTrigrams ul (ToLower ul q) \<noteq> []"
  shows "members (partial_candidates ul ii q) =
    (\<Inter>tg \<in> set (GenerateTrigrams ul (ToLower ul q)). posting (ii_index ii) tg)"
proof -
  obtain tg tgs where "GenerateTrigrams ul (ToLower ul q) = tg # tgs"
    using assms by (cases "GenerateTrigrams ul (ToLower ul q)") auto
  then show ?thesis
    by (simp add: partial_candidates_def bitset.elems_inter_all bitset.elems_add_all)
qed

subsection \<open>Trigrams of ASCII keywords\<close>

definition is_lower_ascii :: "string \<Rightarrow> bool" where
  "is_lower_ascii s \<longleftrightarrow> is_ascii s \<and> map ascii_lower s = s"

lemma ToLower_lower_ascii: "is_ascii s \<Longrightarrow> is_lower_ascii (ToLower ul s)"
  by (simp add: is_lower_ascii_def ToLower_def is_ascii_map_lower comp_def)

lemma ToLower_lower_id: "is_lower_ascii s \<Longrightarrow> ToLower ul s = s"
  by (simp add: is_lower_ascii_def ToLower_def)

lemma is_ascii_slice: "is_ascii s \<Longrightarrow> is_ascii (slice s i j)"
  by (auto simp: is_ascii_def list_all_iff slice_def dest!: in_set_takeD in_set_dropD)

lemma GenerateTrigrams_ascii:
  assumes "is_lower_ascii s"
  shows "GenerateTrigrams ul s =
    (if length s < 3 then [s] else map (\<lambda>i. slice s i (i + 3)) [0..<length s - 2])"
proof -
  have "string_of_runes (slice (map code s) i (i + 3)) = slice s i (i + 3)" for i
    using assms string_of_runes_ascii [OF is_ascii_slice, of s i "i + 3"]
    by (simp add: is_lower_ascii_def slice_def take_map drop_map)
  with assms show ?thesis
    by (auto simp: GenerateTrigrams_def ToLower_lower_id Let_def is_lower_ascii_def runes_ascii)
qed

lemma sublist_lower_ascii: "sublist s t \<Longrightarrow> is_lower_ascii t \<Longrightarrow> is_lower_ascii s"
  by (auto simp: sublist_def is_lower_ascii_def)

text \<open>Every trigram of a substring of three or more letters is a trigram of the whole keyword.\<close>

lemma trigrams_sublist:
  assumes "sublist s t" and "is_lower_ascii t" and "3 \<le> length s"
  shows "set (GenerateTrigrams ul s) \<subseteq> set (GenerateTrigrams ul t)"
proof -
  from assms(1) obtain u v where t: "t = u @ s @ v" by (auto simp: sublist_def)
  have s: "is_lower_ascii s" using assms(1,2) by (rule sublist_lower_ascii)
  have "slice s i (i + 3) \<in> (\<lambda>i. slice t i (i + 3)) ` {0..<length t - 2}" if "i < length s - 2" for i
  proof (rule image_eqI [where x = "length u + i"])
    show "slice s i (i + 3) = slice t (length u + i) (length u + i + 3)"
      using that by (simp add: t slice_def)
  qed (use that in \<open>simp add: t\<close>)
  then show ?thesis
    using assms(2,3) s t by (auto simp: GenerateTrigrams_ascii)
qed

lemma colon_free_trigrams:
  assumes "is_lower_ascii s" and "CHR '':'' \<notin> set s"
  shows "plain_keyword ul s"
proof -
  have "set tg \<subseteq> set s" if "tg \<in> set (GenerateTrigrams ul s)" for tg
    using that assms(1)
    by (auto simp: GenerateTrigrams_ascii slice_def dest!: in_set_takeD in_set_dropD split: if_splits)
  moreover have "CHR '':'' \<in> set tg" if "HasPrefix tg kw_tag" for tg
    using that by (auto simp: prefix_def kw_tag_def)
  ultimately show ?thesis
    using assms(2) by (auto simp: plain_keyword_def list_all_iff)
qed

lemma plain_keyword_good: "is_ascii kw \<Longrightarrow> good_keyword ul kw \<Longrightarrow> plain_keyword ul (ToLower ul kw)"
proof (rule colon_free_trigrams)
  assume "is_ascii kw" "good_keyword ul kw"
  moreover have "\<not> keyword_char CHR '':''"
    by (simp add: keyword_char_def in_range_def)
  ultimately show "CHR '':'' \<notin> set (ToLower ul kw)"
    by (auto simp: good_keyword_ascii list_all_iff ToLower_def)
qed (rule ToLower_lower_ascii)

subsection \<open>Properties\<close>

definition valid_keywords :: "(string \<Rightarrow> string) \<Rightarrow> string list \<Rightarrow> bool" where
  "valid_keywords ul kws \<longleftrightarrow> list_all (\<lambda>kw. is_ascii kw \<and> good_keyword ul kw) kws"

lemma ii_rep_Add_valid:
  assumes "ii_rep ul ii R" and "valid_keywords ul kws"
  shows "ii_rep ul (II_Add ul kws v ii) (R \<union> (\<lambda>kw. (v, ToLower ul kw)) ` set kws)"
  using assms by (intro ii_rep_Add) (auto simp: valid_keywords_def list_all_iff plain_keyword_good)

text \<open>A small index for the witnesses: id 1 has two keywords, id 2 has one.\<close>

definition sample_index :: InvertedIndex where
  "sample_index = II_Add id [''fintech''] 2 (II_Add id [''Finance'', ''q4''] 1 NewInvertedIndex)"

definition sample_relation :: "(uint64 \<times> string) set" where
  "sample_relation = {(1, ''finance''), (1, ''q4''), (2, ''fintech'')}"

lemma sample_valid: "valid_keywords id [''Finance'', ''q4'']" "valid_keywords id [''fintech'']"
  by (simp_all add: valid_keywords_def good_keyword_ascii keyword_char_def ascii_lower_def in_range_def)

lemma sample_lower:
  "ToLower id ''Finance'' = ''finance''" "ToLower id ''q4'' = ''q4''" "ToLower id ''fintech'' = ''fintech''"
  "ToLower id ''FIN'' = ''fin''" "ToLower id ''NAN'' = ''nan''" "ToLower id ''fi'' = ''fi''"
  by code_simp+

lemma sample_first_rep:
  "ii_rep id (II_Add id [''Finance'', ''q4''] 1 NewInvertedIndex) {(1, ''finance''), (1, ''q4'')}"
  using ii_rep_Add_valid [OF ii_rep_New sample_valid(1), of 1]
  by (simp add: sample_lower insert_commute)

lemma sample_rep: "ii_rep id sample_index sample_relation"
  using ii_rep_Add_valid [OF sample_first_rep sample_valid(2), of 2]
  by (simp add: sample_index_def sample_relation_def sample_lower insert_commute)

text \<open>
  Adding keywords refines the union of relations: when the index represents a relation between
  ids and keywords, the index after \<^verbatim>\<open>Add\<close> represents the relation extended by the lower-case
  forms of the added keywords, for keywords that pass the validation of the entry format.
\<close>

theorem II_Add_refines:
  assumes "ii_rep ul ii R" and "valid_keywords ul kws"
  shows "ii_rep ul (II_Add ul kws v ii) (R \<union> (\<lambda>kw. (v, ToLower ul kw)) ` set kws)"
  using assms by (rule ii_rep_Add_valid)

theorem II_Add_refines_witness:
  "ii_rep id sample_index sample_relation \<and> valid_keywords id [''q4''] \<and>
   ii_rep id (II_Add id [''q4''] 2 sample_index) (insert (2, ''q4'') sample_relation)"
proof -
  have "valid_keywords id [''q4'']" using sample_valid(1) by (simp add: valid_keywords_def)
  then show ?thesis
    using II_Add_refines [OF sample_rep, of "[''q4'']" 2] sample_rep
    by (simp add: sample_lower)
qed

text \<open>What a query matches, by search mode; every unknown mode is exact.\<close>

definition keyword_match :: "(string \<Rightarrow> string) \<Rightarrow> string \<Rightarrow> uint32 \<Rightarrow> string \<Rightarrow> string \<Rightarrow> bool" where
  "keyword_match ul mode maxDistance q kw =
     (if mode = ''prefix'' then HasPrefix kw (ToLower ul q)
      else if mode = ''levenshtein'' then levenshteinDistance (ToLower ul q) kw \<le> unat maxDistance
      else kw = ToLower ul q)"

lemma members_SearchExact:
  assumes "ii_rep ul ii R" and "qs \<noteq> []"
  shows "\<exists>bs. SearchExact ul ii qs = Some bs \<and>
    members bs = {v. \<forall>q \<in> set qs. (v, ToLower ul q) \<in> R}"
proof -
  obtain q qs' where "qs = q # qs'" using assms(2) by (cases qs) auto
  with ii_rep_exact [OF assms(1)] show ?thesis
    by (auto simp: SearchExact_def exact_posting_def bitset.elems_inter_all)
qed

lemma II_Search_rep:
  assumes "ii_rep ul ii R" and "mode \<noteq> ''partial''"
  shows "if qs = [] then II_Search ul ii qs mode d = None
    else \<exists>bs. II_Search ul ii qs mode d = Some bs \<and>
      members bs = {v. \<forall>q \<in> set qs. \<exists>kw. (v, kw) \<in> R \<and> keyword_match ul mode d q kw}"
proof (cases "qs = []")
  case True
  with assms(2) show ?thesis
    by (simp add: II_Search_def SearchExact_def SearchPrefix_def SearchLevenshtein_def)
next
  case False
  consider "mode = ''prefix''" | "mode = ''levenshtein''" | "mode \<noteq> ''prefix'' \<and> mode \<noteq> ''levenshtein''"
    by blast
  then show ?thesis
  proof cases
    case 1
    with False show ?thesis
      using members_and_candidates [OF False,
          of "\<lambda>p. scan_keywords (\<lambda>keyword. HasPrefix keyword (ToLower ul p)) ii"]
      by (auto simp: II_Search_def SearchPrefix_def keyword_match_def members_scan_keywords [OF assms(1)])
  next
    case 2
    with False show ?thesis
      using members_and_candidates [OF False,
          of "\<lambda>q. scan_keywords (\<lambda>keyword. levenshteinDistance (ToLower ul q) keyword \<le> unat d) ii"]
      by (auto simp: II_Search_def SearchLevenshtein_def keyword_match_def
          members_scan_keywords [OF assms(1)])
  next
    case 3
    with False assms(2) show ?thesis
      using members_SearchExact [OF assms(1) False] by (auto simp: II_Search_def keyword_match_def)
  qed
qed

text \<open>
  C12. A search in the exact, the prefix or the Levenshtein mode, and in any unknown mode, returns
  exactly the ids that have, for every query, a keyword that matches it in that mode; with no query
  it returns nil.
\<close>

theorem II_Search_characterised:
  assumes "ii_rep ul ii R" and "mode \<noteq> ''partial''"
  shows "if qs = [] then II_Search ul ii qs mode d = None
    else \<exists>bs. II_Search ul ii qs mode d = Some bs \<and>
      members bs = {v. \<forall>q \<in> set qs. \<exists>kw. (v, kw) \<in> R \<and> keyword_match ul mode d q kw}"
  using assms by (rule II_Search_rep)

theorem II_Search_characterised_witness:
  "ii_rep id sample_index sample_relation \<and> ''prefix'' \<noteq> ''partial'' \<and>
   (\<exists>bs. II_Search id sample_index [''FIN''] ''prefix'' 0 = Some bs \<and> members bs = {1, 2})"
proof -
  have "{v. \<exists>kw. (v, kw) \<in> sample_relation \<and> keyword_match id ''prefix'' 0 ''FIN'' kw} = {1, 2}"
    by (simp add: sample_relation_def keyword_match_def sample_lower ex_disj_distrib conj_disj_distribR)
      auto
  then show ?thesis
    using II_Search_characterised [OF sample_rep, of "''prefix''" "[''FIN'']" 0] sample_rep by simp
qed

text \<open>
  A search in the partial mode misses no match of a query of three or more letters: an id with
  a keyword that contains the lower-case query is in the result, for every query of the search.
\<close>

theorem SearchPartial_complete:
  assumes rep: "ii_rep ul ii R" and "SearchPartial ul ii qs = Some bs"
    and q: "list_all (\<lambda>q. is_ascii q \<and> 3 \<le> length q) qs"
    and "\<forall>q \<in> set qs. \<exists>kw. (v, kw) \<in> R \<and> is_lower_ascii kw \<and> sublist (ToLower ul q) kw"
  shows "v \<in> members bs"
proof -
  have "qs \<noteq> []" using assms(2) by (auto simp: SearchPartial_def)
  moreover have "v \<in> members (partial_candidates ul ii q)" if q_mem: "q \<in> set qs" for q
  proof -
    let ?l = "ToLower ul q"
    have l: "is_lower_ascii ?l" "3 \<le> length ?l"
      using q q_mem by (auto simp: list_all_iff ToLower_lower_ascii) (simp add: ToLower_def)
    then have ne: "GenerateTrigrams ul ?l \<noteq> []"
      by (auto simp: GenerateTrigrams_ascii)
    from assms(4) q_mem obtain kw where kw: "(v, kw) \<in> R" "is_lower_ascii kw" "sublist ?l kw"
      by blast
    then have "set (GenerateTrigrams ul ?l) \<subseteq> set (GenerateTrigrams ul kw)"
      using l by (intro trigrams_sublist)
    then have "v \<in> posting (ii_index ii) tg" if "tg \<in> set (GenerateTrigrams ul ?l)" for tg
      using rep kw(1) that by (auto simp: ii_rep_def keyword_keys_def)
    with ne show ?thesis
      by (simp add: members_partial_candidates)
  qed
  ultimately show ?thesis
    using members_and_candidates [of qs "partial_candidates ul ii"] assms(2)
    by (auto simp: SearchPartial_def)
qed

theorem SearchPartial_complete_witness:
  "\<exists>bs. SearchPartial id sample_index [''NAN''] = Some bs \<and> 1 \<in> members bs"
proof -
  have some: "SearchPartial id sample_index [''NAN''] =
      Some (partial_candidates id sample_index ''NAN'')"
    by (simp add: SearchPartial_def and_candidates_Cons)
  have sub: "sublist ''nan'' ''finance''"
    unfolding sublist_def by (rule exI [of _ "''fi''"], rule exI [of _ "''ce''"]) simp
  have "is_lower_ascii ''finance''"
    by (simp add: is_lower_ascii_def ascii_lower_def in_range_def)
  then have "1 \<in> members (partial_candidates id sample_index ''NAN'')"
    using sub
    by (intro SearchPartial_complete [OF sample_rep some]) (auto simp: sample_relation_def sample_lower)
  with some show ?thesis by simp
qed

text \<open>
  A partial query of one or two letters matches only keywords equal to it: the search does not
  return an id merely because a longer keyword of it contains the query.
\<close>

theorem SearchPartial_short_query:
  assumes rep: "ii_rep ul ii R" and "is_ascii q" and "length q < 3"
    and "\<forall>v kw. (v, kw) \<in> R \<longrightarrow> is_lower_ascii kw"
  shows "\<exists>bs. SearchPartial ul ii [q] = Some bs \<and> members bs = {v. (v, ToLower ul q) \<in> R}"
proof -
  let ?l = "ToLower ul q"
  have l: "is_lower_ascii ?l" "length ?l < 3"
    using assms(2,3) by (auto simp: ToLower_lower_ascii) (simp add: ToLower_def)
  then have tg: "GenerateTrigrams ul ?l = [?l]"
    by (simp add: GenerateTrigrams_ascii)
  have "\<not> HasPrefix ?l kw_tag"
    using l(2) prefix_length_le [of kw_tag ?l] by (auto simp: kw_tag_def)
  then have "v \<in> posting (ii_index ii) ?l \<longleftrightarrow> (\<exists>kw. (v, kw) \<in> R \<and> ?l \<in> set (GenerateTrigrams ul kw))" for v
    by (rule ii_rep_trigram [OF rep])
  moreover have "?l \<in> set (GenerateTrigrams ul kw) \<longleftrightarrow> kw = ?l" if "(v, kw) \<in> R" for v kw
    using that assms(4) l by (auto simp: GenerateTrigrams_ascii split: if_splits)
  ultimately have "posting (ii_index ii) ?l = {v. (v, ?l) \<in> R}"
    by blast
  then show ?thesis
    by (simp add: SearchPartial_def and_candidates_Cons members_partial_candidates tg)
qed

theorem SearchPartial_short_query_witness:
  "\<exists>bs. SearchPartial id sample_index [''fi''] = Some bs \<and> members bs = {}"
proof -
  have low: "\<forall>v kw. (v, kw) \<in> sample_relation \<longrightarrow> is_lower_ascii kw"
    by (auto simp: sample_relation_def is_lower_ascii_def ascii_lower_def in_range_def)
  have "{v. (v, ToLower id ''fi'') \<in> sample_relation} = {}"
    by (auto simp: sample_relation_def sample_lower)
  then show ?thesis
    using SearchPartial_short_query [OF sample_rep _ _ low, of "''fi''"] by simp
qed

end
