(* ===== verification/Float32.thy ===== *)
theory Float32
  imports Types
begin

section \<open>Single-precision arithmetic\<close>

text \<open>
  The \<^verbatim>\<open>float32\<close> operations the distance functions use, on bit patterns: comparison, negation,
  addition, subtraction, multiplication and division, rounded to nearest even, and the conversion
  \<^verbatim>\<open>float32(math.Sqrt(float64(x)))\<close> with its two roundings. Every operation rounds its own result, as
  Go does on \<^verbatim>\<open>amd64\<close> (the language allows a compiler to fuse a product and a sum). Every NaN
  result is the quiet NaN; no operation of the repository looks at the payload of a NaN.

  The magnitude of a number is counted in units of \<open>2 ^ -149\<close>, the least positive number: \<open>f_int\<close>
  is an integer for every number, and the infinities continue the scale above the largest number.
\<close>

definition f_neg_bit :: "float32 \<Rightarrow> bool" where
  "f_neg_bit x \<longleftrightarrow> 2 ^ 31 \<le> uint x"

definition f_bits :: "float32 \<Rightarrow> int" where
  "f_bits x = uint x mod 2 ^ 31"

definition f_exp :: "float32 \<Rightarrow> int" where
  "f_exp x = f_bits x div 2 ^ 23"

definition f_man :: "float32 \<Rightarrow> int" where
  "f_man x = f_bits x mod 2 ^ 23"

definition isNaN :: "float32 \<Rightarrow> bool" where
  "isNaN x \<longleftrightarrow> f_exp x = 255 \<and> f_man x \<noteq> 0"

definition isInf :: "float32 \<Rightarrow> bool" where
  "isInf x \<longleftrightarrow> f_exp x = 255 \<and> f_man x = 0"

definition f_mag :: "float32 \<Rightarrow> int" where
  "f_mag x = (if f_exp x = 0 then f_man x else (2 ^ 23 + f_man x) * 2 ^ nat (f_exp x - 1))"

definition f_int :: "float32 \<Rightarrow> int" where
  "f_int x = (if f_neg_bit x then - f_mag x else f_mag x)"

definition f_mk :: "bool \<Rightarrow> int \<Rightarrow> float32" where
  "f_mk neg bits = of_int ((if neg then 2 ^ 31 else 0) + bits)"

definition f_inf_bits :: int where "f_inf_bits = 255 * 2 ^ 23"
definition f_nan :: float32 where "f_nan = 0x7FC00000"
definition f_zero :: float32 where "f_zero = 0"
definition f_one :: float32 where "f_one = 0x3F800000"

text \<open>The number of binary digits, and the integer square root, of a number that is not negative.\<close>

function bit_len :: "int \<Rightarrow> nat" where
  "bit_len n = (if n \<le> 0 then 0 else Suc (bit_len (n div 2)))"
  by pat_completeness auto
termination by (relation "measure nat") auto

function isqrt :: "int \<Rightarrow> int" where
  "isqrt n =
     (if n \<le> 0 then 0
      else let r = isqrt (n div 4) in if (2 * r + 1) * (2 * r + 1) \<le> n then 2 * r + 1 else 2 * r)"
  by pat_completeness auto
termination by (relation "measure nat") auto

declare bit_len.simps [simp del] isqrt.simps [simp del]

text \<open>The quotient \<open>n / d\<close> rounded to a whole number, ties to even.\<close>

definition round_even :: "int \<Rightarrow> int \<Rightarrow> int" where
  "round_even n d =
     (let q = n div d; r = n mod d
      in if 2 * r > d \<or> (2 * r = d \<and> odd q) then q + 1 else q)"

text \<open>
  The bits of the number nearest to \<open>n / d\<close> units: with \<open>s\<close> places dropped, the 24-bit result
  \<open>q\<close> has the bits \<open>s * 2 ^ 23 + q\<close>, and a carry out of the mantissa moves to the exponent by itself.
\<close>

definition round_bits :: "int \<Rightarrow> int \<Rightarrow> int" where
  "round_bits n d =
     (let s = bit_len (n div d) - 24
      in min (int s * 2 ^ 23 + round_even n (d * 2 ^ s)) f_inf_bits)"

definition f_round :: "bool \<Rightarrow> int \<Rightarrow> int \<Rightarrow> float32" where
  "f_round neg n d = f_mk neg (round_bits n d)"

subsection \<open>Operations\<close>

definition f_lt :: "float32 \<Rightarrow> float32 \<Rightarrow> bool" where
  "f_lt a b \<longleftrightarrow> \<not> isNaN a \<and> \<not> isNaN b \<and> f_int a < f_int b"

definition f_eq :: "float32 \<Rightarrow> float32 \<Rightarrow> bool" where
  "f_eq a b \<longleftrightarrow> \<not> isNaN a \<and> \<not> isNaN b \<and> f_int a = f_int b"

definition f_neg :: "float32 \<Rightarrow> float32" where
  "f_neg x = (if isNaN x then f_nan else f_mk (\<not> f_neg_bit x) (f_bits x))"

definition f_add :: "float32 \<Rightarrow> float32 \<Rightarrow> float32" where
  "f_add a b =
     (if isNaN a \<or> isNaN b then f_nan
      else if isInf a then (if isInf b \<and> f_neg_bit a \<noteq> f_neg_bit b then f_nan else a)
      else if isInf b then b
      else
        let s = f_int a + f_int b
        in if s = 0 then f_mk (f_neg_bit a \<and> f_neg_bit b) 0 else f_round (s < 0) \<bar>s\<bar> 1)"

definition f_sub :: "float32 \<Rightarrow> float32 \<Rightarrow> float32" where
  "f_sub a b = f_add a (f_neg b)"

definition f_mul :: "float32 \<Rightarrow> float32 \<Rightarrow> float32" where
  "f_mul a b =
     (let neg = (f_neg_bit a \<noteq> f_neg_bit b)
      in if isNaN a \<or> isNaN b then f_nan
         else if isInf a \<or> isInf b then
           (if f_mag a = 0 \<or> f_mag b = 0 then f_nan else f_mk neg f_inf_bits)
         else f_round neg (f_mag a * f_mag b) (2 ^ 149))"

definition f_div :: "float32 \<Rightarrow> float32 \<Rightarrow> float32" where
  "f_div a b =
     (let neg = (f_neg_bit a \<noteq> f_neg_bit b)
      in if isNaN a \<or> isNaN b then f_nan
         else if isInf a then (if isInf b then f_nan else f_mk neg f_inf_bits)
         else if isInf b then f_mk neg 0
         else if f_mag b = 0 then (if f_mag a = 0 then f_nan else f_mk neg f_inf_bits)
         else f_round neg (f_mag a * 2 ^ 149) (f_mag b))"

text \<open>
  \<^verbatim>\<open>float32(math.Sqrt(float64(x)))\<close>: the square root in units is the root of
  \<open>f_mag x * 2 ^ 149\<close>; it is rounded to 53 bits first (a sticky last bit stands for the digits that
  the integer root drops), then to 24.
\<close>

definition f_sqrt :: "float32 \<Rightarrow> float32" where
  "f_sqrt x =
     (if isNaN x then f_nan
      else if f_mag x = 0 then x
      else if f_neg_bit x then f_nan
      else if isInf x then x
      else
        let n = f_mag x * 2 ^ 149;
            r = isqrt n;
            sticky = 2 * r + (if r * r = n then 0 else 1);
            s = bit_len r - 53
        in f_round False (round_even sticky (2 ^ (s + 1)) * 2 ^ s) 1)"

lemmas f_defs = f_neg_bit_def f_bits_def f_exp_def f_man_def isNaN_def isInf_def f_mag_def f_int_def f_mk_def
  f_inf_bits_def f_nan_def f_zero_def f_one_def round_even_def round_bits_def f_round_def f_lt_def f_eq_def
  f_neg_def f_add_def f_sub_def f_mul_def f_div_def f_sqrt_def

subsection \<open>Comparison\<close>

lemma f_lt_irrefl [simp]: "\<not> f_lt a a"
  by (simp add: f_lt_def)

lemma f_lt_trans: "f_lt a b \<Longrightarrow> f_lt b c \<Longrightarrow> f_lt a c"
  by (simp add: f_lt_def)

lemma f_lt_asym: "f_lt a b \<Longrightarrow> \<not> f_lt b a"
  by (simp add: f_lt_def)

lemma f_not_lt_trans: "\<not> isNaN b \<Longrightarrow> \<not> f_lt a b \<Longrightarrow> \<not> f_lt b c \<Longrightarrow> \<not> f_lt a c"
  by (auto simp: f_lt_def)

subsection \<open>Signs and magnitudes\<close>

lemma f_mk_parts:
  assumes "0 \<le> b" and "b < 2147483648"
  shows "f_bits (f_mk neg b) = b" and "f_neg_bit (f_mk neg b) = neg"
proof -
  have "uint (of_int n :: float32) = n" if "0 \<le> n" "n < 4294967296" for n
    using that by (simp add: unsigned_of_int take_bit_int_eq_self)
  from this [of "(if neg then 2 ^ 31 else 0) + b"]
  have "uint (f_mk neg b) = (if neg then 2 ^ 31 else 0) + b"
    unfolding f_mk_def using assms by simp
  then show "f_bits (f_mk neg b) = b" "f_neg_bit (f_mk neg b) = neg"
    using assms by (auto simp: f_bits_def f_neg_bit_def)
qed

lemma f_bits_bounds: "0 \<le> f_bits x" "f_bits x < 2147483648"
  by (simp_all add: f_bits_def)

lemma round_even_nonneg: "0 \<le> n \<Longrightarrow> 0 < d \<Longrightarrow> 0 \<le> round_even n d"
  by (simp add: round_even_def Let_def pos_imp_zdiv_nonneg_iff)

lemma round_bits_bounds: "0 \<le> n \<Longrightarrow> 0 < d \<Longrightarrow> 0 \<le> round_bits n d" "round_bits n d < 2147483648"
  by (simp_all add: round_bits_def Let_def round_even_nonneg f_inf_bits_def min_def)

lemma f_round_parts:
  "0 \<le> n \<Longrightarrow> 0 < d \<Longrightarrow> f_bits (f_round neg n d) = round_bits n d"
  "0 \<le> n \<Longrightarrow> 0 < d \<Longrightarrow> f_neg_bit (f_round neg n d) = neg"
  by (simp_all add: f_round_def f_mk_parts round_bits_bounds)

lemma f_mag_nonneg: "0 \<le> f_mag x"
  by (simp add: f_mag_def f_man_def)

text \<open>Everything but the sign depends on the lower 31 bits.\<close>

lemma same_bits:
  assumes "f_bits x = f_bits y"
  shows "isNaN x = isNaN y" "isInf x = isInf y" "f_mag x = f_mag y"
  using assms by (simp_all add: isNaN_def isInf_def f_mag_def f_exp_def f_man_def)

lemma f_neg_parts:
  "\<not> isNaN x \<Longrightarrow> f_bits (f_neg x) = f_bits x"
  "\<not> isNaN x \<Longrightarrow> f_neg_bit (f_neg x) = (\<not> f_neg_bit x)"
  by (simp_all add: f_neg_def f_mk_parts f_bits_bounds)

lemma f_int_neg: "\<not> isNaN x \<Longrightarrow> f_int (f_neg x) = - f_int x"
  using same_bits [of "f_neg x" x] f_neg_parts [of x] by (simp add: f_int_def)

lemma isNaN_f_nan [simp]: "isNaN f_nan"
  by (simp add: isNaN_def f_nan_def f_exp_def f_man_def f_bits_def)

lemma f_nan_nonneg [simp]: "\<not> f_neg_bit f_nan"
  by (simp add: f_nan_def f_neg_bit_def)

lemma f_int_zero [simp]: "f_int f_zero = 0"
  by code_simp

lemma isNaN_f_neg [simp]: "isNaN (f_neg x) = isNaN x"
  using same_bits [of "f_neg x" x] f_neg_parts [of x] by (cases "isNaN x") (simp_all add: f_neg_def)

lemma isInf_f_neg: "\<not> isNaN x \<Longrightarrow> isInf (f_neg x) = isInf x"
  using same_bits [of "f_neg x" x] f_neg_parts [of x] by simp

lemma isInf_bits: "isInf x \<Longrightarrow> f_bits x = f_inf_bits"
  using div_mult_mod_eq [of "f_bits x" "2 ^ 23"] by (simp add: isInf_def f_exp_def f_man_def f_inf_bits_def)

text \<open>The two differences of a pair have the same magnitude.\<close>

lemma f_bits_sub_commute: "f_bits (f_sub a b) = f_bits (f_sub b a)"
proof (cases "isNaN a \<or> isNaN b")
  case True
  then show ?thesis by (auto simp: f_sub_def f_add_def)
next
  case False
  have s: "f_int b - f_int a = - (f_int a - f_int b)" by simp
  from False show ?thesis
    unfolding f_sub_def f_add_def
    by (auto simp: isInf_f_neg f_neg_parts isInf_bits f_int_neg Let_def f_round_parts f_mk_parts s
        simp del: minus_diff_eq)
qed

lemma f_mul_same_bits: "f_bits x = f_bits y \<Longrightarrow> f_mul x x = f_mul y y"
  using same_bits [of x y] by (simp add: f_mul_def)

lemma f_square_nonneg: "\<not> f_neg_bit (f_mul x x)"
proof -
  have "\<not> f_neg_bit (f_mk False f_inf_bits)"
    by (simp add: f_mk_parts f_inf_bits_def)
  then show ?thesis
    using f_mag_nonneg [of x] by (simp add: f_mul_def f_round_parts)
qed

lemma f_add_nonneg: "\<not> f_neg_bit a \<Longrightarrow> \<not> f_neg_bit b \<Longrightarrow> \<not> f_neg_bit (f_add a b)"
proof -
  assume ab: "\<not> f_neg_bit a" "\<not> f_neg_bit b"
  then have "0 \<le> f_int a" "0 \<le> f_int b" by (simp_all add: f_int_def f_mag_nonneg)
  with ab show ?thesis
    by (auto simp: f_add_def Let_def f_round_parts f_mk_parts)
qed

lemma f_nonneg_not_lt_zero: "\<not> f_neg_bit x \<Longrightarrow> \<not> f_lt x f_zero"
  using f_mag_nonneg [of x] by (simp add: f_lt_def) (simp add: f_int_def)

lemma f_sub_self: "\<not> isNaN x \<Longrightarrow> \<not> isInf x \<Longrightarrow> f_sub x x = f_zero"
  by (simp add: f_sub_def f_add_def isInf_f_neg f_int_neg f_neg_parts f_mk_def f_zero_def)

lemma f_zero_ops: "f_mul f_zero f_zero = f_zero" "f_add f_zero f_zero = f_zero"
  by code_simp+

end
