(* ===== verification/Go_Heap.thy ===== *)
theory Go_Heap
  imports Go_Prelude
begin

section \<open>Binary heaps\<close>

text \<open>
  Package \<^verbatim>\<open>container/heap\<close>, which the graph search uses with two orders: a heap is a slice, and
  \<^verbatim>\<open>Less\<close>, \<^verbatim>\<open>Swap\<close>, \<^verbatim>\<open>Push\<close> and \<^verbatim>\<open>Pop\<close> of the element type are the comparison \<open>lt\<close> and
  the list operations. The locale \<open>heap_order\<close> states what the comparison has to satisfy on the
  elements in use (comparisons of floating-point numbers do so away from NaN) and holds the
  correctness of the operations.
\<close>

definition heap_swap :: "'a list \<Rightarrow> nat \<Rightarrow> nat \<Rightarrow> 'a list" where
  "heap_swap h i j = h[i := h ! j, j := h ! i]"

function heap_up :: "('a \<Rightarrow> 'a \<Rightarrow> bool) \<Rightarrow> 'a list \<Rightarrow> nat \<Rightarrow> 'a list" where
  "heap_up lt h j =
     (let i = (j - 1) div 2
      in if i = j \<or> \<not> lt (h ! j) (h ! i) then h else heap_up lt (heap_swap h i j) i)"
  by pat_completeness auto
termination
  by (relation "measure (\<lambda>(lt, h, j). j)") auto

function heap_down :: "('a \<Rightarrow> 'a \<Rightarrow> bool) \<Rightarrow> 'a list \<Rightarrow> nat \<Rightarrow> nat \<Rightarrow> 'a list" where
  "heap_down lt h i n =
     (let j1 = 2 * i + 1
      in if j1 \<ge> n then h
         else
           let j2 = j1 + 1;
               j = (if j2 < n \<and> lt (h ! j2) (h ! j1) then j2 else j1)
           in if \<not> lt (h ! j) (h ! i) then h
              else heap_down lt (heap_swap h i j) j n)"
  by pat_completeness auto
termination
  by (relation "measure (\<lambda>(lt, h, i, n). n - i)") (auto split: if_splits)

declare heap_up.simps [simp del] heap_down.simps [simp del]

definition heap_Init :: "('a \<Rightarrow> 'a \<Rightarrow> bool) \<Rightarrow> 'a list \<Rightarrow> 'a list" where
  "heap_Init lt h = fold (\<lambda>i h. heap_down lt h i (length h)) (rev [0..<length h div 2]) h"

definition heap_Push :: "('a \<Rightarrow> 'a \<Rightarrow> bool) \<Rightarrow> 'a \<Rightarrow> 'a list \<Rightarrow> 'a list" where
  "heap_Push lt x h = heap_up lt (h @ [x]) (length h)"

text \<open>Popping an empty heap panics (\<open>None\<close>).\<close>

definition heap_Pop :: "('a \<Rightarrow> 'a \<Rightarrow> bool) \<Rightarrow> 'a list \<Rightarrow> ('a \<times> 'a list) option" where
  "heap_Pop lt h =
     (if h = [] then None
      else
        let n = length h - 1;
            h' = heap_down lt (heap_swap h 0 n) 0 n
        in Some (h' ! n, take n h'))"

text \<open>The parent of an index; the children of \<open>i\<close> are \<open>2 * i + 1\<close> and \<open>2 * i + 2\<close>.\<close>

definition par :: "nat \<Rightarrow> nat" where
  "par k = (k - 1) div 2"

lemma par_less [simp]: "0 < k \<Longrightarrow> par k < k"
  by (simp add: par_def less_mult_imp_div_less)

lemma par_le [simp]: "par k \<le> k"
  by (simp add: par_def)

lemma par_0 [simp]: "par 0 = 0"
  by (simp add: par_def)

lemma par_child [simp]: "par (2 * i + 1) = i" "par (2 * i + 2) = i" "par (Suc (2 * i)) = i"
  "par (Suc (Suc (2 * i))) = i"
  by (simp_all add: par_def)

lemma par_eqD: "0 < k \<Longrightarrow> par k = i \<Longrightarrow> k = 2 * i + 1 \<or> k = 2 * i + 2"
  unfolding par_def by linarith

lemma par_fixed [simp]: "par j = j \<longleftrightarrow> j = 0"
  by (metis less_irrefl neq0_conv par_0 par_less)

lemma par_fixed' [simp]: "j = par j \<longleftrightarrow> j = 0"
  by (metis par_fixed)

lemma heap_up_unfold:
  "heap_up lt h j = (if par j = j \<or> \<not> lt (h ! j) (h ! par j) then h else heap_up lt (heap_swap h (par j) j) (par j))"
  by (subst heap_up.simps) (simp add: Let_def par_def)

subsection \<open>The elements do not change\<close>

lemma length_heap_swap [simp]: "length (heap_swap h i j) = length h"
  by (simp add: heap_swap_def)

lemma mset_heap_swap [simp]: "i < length h \<Longrightarrow> j < length h \<Longrightarrow> mset (heap_swap h i j) = mset h"
  by (simp add: heap_swap_def mset_swap)

lemma nth_heap_swap:
  "i < length h \<Longrightarrow> j < length h \<Longrightarrow>
   heap_swap h i j ! k = (if k = i then h ! j else if k = j then h ! i else h ! k)"
  by (auto simp: heap_swap_def nth_list_update)

lemma mset_heap_up: "j < length h \<Longrightarrow> mset (heap_up lt h j) = mset h"
proof (induction lt h j rule: heap_up.induct)
  case (1 lt h j)
  let ?i = "par j"
  have "?i < length h" using 1(2) par_le [of j] by linarith
  with 1 show ?case by (subst heap_up_unfold) (simp add: par_def)
qed

lemma mset_heap_down: "n \<le> length h \<Longrightarrow> mset (heap_down lt h i n) = mset h"
proof (induction lt h i n rule: heap_down.induct)
  case (1 lt h i n)
  then show ?case by (subst heap_down.simps) (auto simp: Let_def split: if_splits)
qed

lemma length_heap_up [simp]: "j < length h \<Longrightarrow> length (heap_up lt h j) = length h"
  by (metis mset_heap_up size_mset)

lemma length_heap_down [simp]: "n \<le> length h \<Longrightarrow> length (heap_down lt h i n) = length h"
  by (metis mset_heap_down size_mset)

text \<open>Sifting down the first \<open>n\<close> elements leaves the others where they are.\<close>

lemma heap_down_outside: "n \<le> length h \<Longrightarrow> n \<le> k \<Longrightarrow> heap_down lt h i n ! k = h ! k"
proof (induction lt h i n rule: heap_down.induct)
  case (1 lt h i n)
  then show ?case by (subst heap_down.simps) (auto simp: Let_def nth_heap_swap)
qed

lemma mset_heap_Push [simp]: "mset (heap_Push lt x h) = add_mset x (mset h)"
  by (simp add: heap_Push_def mset_heap_up)

lemma length_heap_Push [simp]: "length (heap_Push lt x h) = Suc (length h)"
  by (simp add: heap_Push_def)

lemma set_heap_Push [simp]: "set (heap_Push lt x h) = insert x (set h)"
  by (metis mset_heap_Push set_mset_add_mset_insert set_mset_mset)

lemma heap_Pop_Some:
  assumes "h \<noteq> []"
  obtains x h' where "heap_Pop lt h = Some (x, h')" "x = h ! 0" "mset h = add_mset x (mset h')"
    "length h = Suc (length h')"
proof -
  let ?n = "length h - 1"
  let ?s = "heap_swap h 0 ?n"
  let ?h = "heap_down lt ?s 0 ?n"
  have n: "?n < length h" using assms by (cases h) auto
  have "?h ! ?n = ?s ! ?n" by (rule heap_down_outside) (use n in auto)
  also have "\<dots> = h ! 0" using assms n by (auto simp: nth_heap_swap)
  finally have x: "?h ! ?n = h ! 0" .
  have len: "length ?h = length h" using n by simp
  have "mset ?h = mset h" using n assms by (simp add: mset_heap_down)
  moreover have "?h = take ?n ?h @ [?h ! ?n]"
    using n len by (metis Suc_diff_1 assms length_greater_0_conv take_Suc_conv_app_nth take_all order_refl)
  ultimately have "mset h = add_mset (?h ! ?n) (mset (take ?n ?h))"
    by (metis add_mset_add_single mset.simps(1,2) mset_append)
  moreover have "heap_Pop lt h = Some (?h ! ?n, take ?n ?h)"
    using assms by (simp add: heap_Pop_def Let_def)
  ultimately show thesis
    using that [of "?h ! ?n" "take ?n ?h"] x len n by simp
qed

lemma heap_Pop_mset: "heap_Pop lt h = Some (x, h') \<Longrightarrow> mset h = add_mset x (mset h')"
  by (metis heap_Pop_Some heap_Pop_def option.distinct(1) option.inject prod.inject)

lemma heap_Pop_root: "heap_Pop lt h = Some (x, h') \<Longrightarrow> x = h ! 0"
  by (metis heap_Pop_Some heap_Pop_def option.distinct(1) option.inject prod.inject)

lemma heap_Pop_None: "heap_Pop lt h = None \<longleftrightarrow> h = []"
  by (simp add: heap_Pop_def Let_def)

text \<open>The loop that empties a heap into a slice from the last position to the first.\<close>

function heap_drain :: "('a \<Rightarrow> 'a \<Rightarrow> bool) \<Rightarrow> 'a list \<Rightarrow> 'a list" where
  "heap_drain lt h =
     (case heap_Pop lt h of None \<Rightarrow> [] | Some (x, h') \<Rightarrow> heap_drain lt h' @ [x])"
  by pat_completeness auto
termination
proof (relation "measure (\<lambda>(lt, h). length h)")
  fix lt :: "'a \<Rightarrow> 'a \<Rightarrow> bool" and h xh x h'
  assume a: "heap_Pop lt h = Some xh" "(x, h') = xh"
  then have "h \<noteq> []" by (auto simp: heap_Pop_def)
  with a show "((lt, h'), lt, h) \<in> measure (\<lambda>(lt, h). length h)"
    using heap_Pop_Some [of h lt] by (metis (no_types, lifting) case_prod_conv in_measure lessI old.prod.inject option.inject)
qed simp

declare heap_drain.simps [simp del]

lemma mset_heap_drain: "mset (heap_drain lt h) = mset h"
proof (induction lt h rule: heap_drain.induct)
  case (1 lt h)
  show ?case
  proof (cases "h = []")
    case True
    then show ?thesis by (simp add: heap_drain.simps heap_Pop_def)
  next
    case False
    then obtain x h' where "heap_Pop lt h = Some (x, h')" "mset h = add_mset x (mset h')"
      using heap_Pop_Some [of h lt] by metis
    with 1 show ?thesis by (subst heap_drain.simps) simp
  qed
qed

lemma set_heap_drain: "set (heap_drain lt h) = set h"
  using mset_heap_drain by (metis mset_eq_setD)

lemma length_heap_drain: "length (heap_drain lt h) = length h"
  using mset_heap_drain by (metis size_mset)

lemma mset_fold_heap_down: "mset (fold (\<lambda>i h. heap_down lt h i (length h)) js h) = mset h"
  by (induction js arbitrary: h) (simp_all add: mset_heap_down)

lemma mset_heap_Init: "mset (heap_Init lt h) = mset h"
  by (simp add: heap_Init_def mset_fold_heap_down)

subsection \<open>The heap order\<close>

definition heap_on :: "('a \<Rightarrow> 'a \<Rightarrow> bool) \<Rightarrow> nat \<Rightarrow> nat \<Rightarrow> 'a list \<Rightarrow> bool" where
  "heap_on lt lo n h \<longleftrightarrow>
     (\<forall>k. 0 < k \<longrightarrow> k < n \<longrightarrow> lo \<le> par k \<longrightarrow> \<not> lt (h ! k) (h ! (par k)))"

abbreviation is_heap :: "('a \<Rightarrow> 'a \<Rightarrow> bool) \<Rightarrow> 'a list \<Rightarrow> bool" where
  "is_heap lt h \<equiv> heap_on lt 0 (length h) h"

lemma heap_on_take: "heap_on lt lo n h \<Longrightarrow> heap_on lt lo n (take n h)"
  using le_less_trans [OF par_le] by (simp add: heap_on_def)

locale heap_order =
  fixes lt :: "'a \<Rightarrow> 'a \<Rightarrow> bool" and S :: "'a set"
  assumes less_trans: "x \<in> S \<Longrightarrow> y \<in> S \<Longrightarrow> z \<in> S \<Longrightarrow> lt x y \<Longrightarrow> lt y z \<Longrightarrow> lt x z"
    and less_asym: "x \<in> S \<Longrightarrow> y \<in> S \<Longrightarrow> lt x y \<Longrightarrow> \<not> lt y x"
    and not_less_trans: "x \<in> S \<Longrightarrow> y \<in> S \<Longrightarrow> z \<in> S \<Longrightarrow> \<not> lt x y \<Longrightarrow> \<not> lt y z \<Longrightarrow> \<not> lt x z"
begin

definition up_inv :: "'a list \<Rightarrow> nat \<Rightarrow> bool" where
  "up_inv h j \<longleftrightarrow>
     (\<forall>k. 0 < k \<longrightarrow> k < length h \<longrightarrow> k \<noteq> j \<longrightarrow> \<not> lt (h ! k) (h ! (par k))) \<and>
     (\<forall>k. 0 < k \<longrightarrow> k < length h \<longrightarrow> par k = j \<longrightarrow> 0 < j \<longrightarrow> \<not> lt (h ! k) (h ! (par j)))"

lemma up_inv_swap:
  assumes inv: "up_inv h j" and j: "j < length h" "0 < j" and S: "set h \<subseteq> S"
    and l: "lt (h ! j) (h ! (par j))"
  shows "up_inv (heap_swap h (par j) j) (par j)"
proof -
  let ?i = "par j"
  let ?h = "heap_swap h ?i j"
  have i: "?i < j" using j by simp
  then have il: "?i < length h" using j by linarith
  have el: "h ! k \<in> S" if "k < length h" for k using S that by auto
  have inv1: "\<not> lt (h ! k) (h ! (par k))" if "0 < k" "k < length h" "k \<noteq> j" for k
    using inv that by (auto simp: up_inv_def)
  have inv2: "\<not> lt (h ! k) (h ! ?i)" if "0 < k" "k < length h" "par k = j" for k
    using inv that j by (auto simp: up_inv_def)
  have sw: "?h ! k = (if k = ?i then h ! j else if k = j then h ! ?i else h ! k)" for k
    by (rule nth_heap_swap) (use il j in auto)
  have 1: "\<not> lt (?h ! k) (?h ! (par k))" if k: "0 < k" "k < length h" "k \<noteq> ?i" for k
  proof -
    have p: "par k < length h" "par k \<noteq> k" using k le_less_trans [OF par_le, of k "length h"] by auto
    consider "k = j" | "k \<noteq> j" "par k = ?i" | "k \<noteq> j" "par k = j"
      | "k \<noteq> j" "par k \<noteq> ?i" "par k \<noteq> j" by blast
    then show ?thesis
    proof cases
      case 1
      then show ?thesis using il less_asym [OF el el l] j by (simp add: sw)
    next
      case 2
      then have "\<not> lt (h ! k) (h ! ?i)" using inv1 k by metis
      then have "\<not> lt (h ! k) (h ! j)"
        using less_trans [OF el el el, of k j ?i] l il j k by blast
      with 2 k show ?thesis by (simp add: sw)
    next
      case 3
      then show ?thesis using inv2 [OF k(1,2)] i k by (simp add: sw)
    next
      case 4
      then show ?thesis using inv1 k by (simp add: sw)
    qed
  qed
  have 2: "\<not> lt (?h ! k) (?h ! (par ?i))"
    if k: "0 < k" "k < length h" "par k = ?i" "0 < ?i" for k
  proof -
    have g: "par ?i < ?i" using k(4) by simp
    have top: "\<not> lt (h ! ?i) (h ! (par ?i))"
      using inv1 [of ?i] i il k(4) by simp
    have ki: "k \<noteq> ?i" using k par_less by force
    show ?thesis
    proof (cases "k = j")
      case True
      with top g i show ?thesis by (simp add: sw)
    next
      case False
      then have "\<not> lt (h ! k) (h ! ?i)" using inv1 k by metis
      from not_less_trans [OF el el el this top] k(2) il g have "\<not> lt (h ! k) (h ! (par ?i))" by simp
      with False ki g i show ?thesis by (simp add: sw)
    qed
  qed
  show ?thesis unfolding up_inv_def using 1 2 by simp
qed

lemma is_heap_up: "up_inv h j \<Longrightarrow> j < length h \<Longrightarrow> set h \<subseteq> S \<Longrightarrow> is_heap lt (heap_up lt h j)"
proof (induction j arbitrary: h rule: less_induct)
  case (less j)
  let ?i = "par j"
  show ?case
  proof (cases "?i = j \<or> \<not> lt (h ! j) (h ! ?i)")
    case True
    then have "heap_up lt h j = h" by (subst heap_up_unfold) auto
    moreover have "\<not> lt (h ! j) (h ! ?i)" if "0 < j"
      using True that by auto
    ultimately show ?thesis
      using less.prems(1) by (auto simp: up_inv_def heap_on_def)
  next
    case False
    then have j: "0 < j" "?i < j" "lt (h ! j) (h ! ?i)"
      by (auto intro: gr0I par_less)
    have "up_inv (heap_swap h ?i j) ?i"
      using up_inv_swap [OF less.prems(1,2) j(1) less.prems(3) j(3)] .
    moreover have "set (heap_swap h ?i j) = set h"
      using less.prems(2) j(2) by (intro mset_eq_setD mset_heap_swap) auto
    moreover have "?i < length h" using j(2) less.prems(2) by linarith
    ultimately have "is_heap lt (heap_up lt (heap_swap h ?i j) ?i)"
      using less.IH [OF j(2), of "heap_swap h ?i j"] less.prems(3) by simp
    moreover have "heap_up lt h j = heap_up lt (heap_swap h ?i j) ?i"
      using False by (subst heap_up_unfold) auto
    ultimately show ?thesis by (simp only:)
  qed
qed

lemma is_heap_Push: "is_heap lt h \<Longrightarrow> set h \<subseteq> S \<Longrightarrow> x \<in> S \<Longrightarrow> is_heap lt (heap_Push lt x h)"
  unfolding heap_Push_def
proof (rule is_heap_up)
  assume h: "is_heap lt h"
  have "(h @ [x]) ! k = h ! k" if "k < length h" for k using that by (simp add: nth_append)
  with h have "\<not> lt ((h @ [x]) ! k) ((h @ [x]) ! par k)" if "0 < k" "k < length h" for k
    using that le_less_trans [OF par_le, of k "length h"] by (simp add: heap_on_def)
  moreover have "par k \<noteq> length h" if "0 < k" "k < Suc (length h)" for k
    using that par_less [of k] by linarith
  ultimately show "up_inv (h @ [x]) (length h)"
    unfolding up_inv_def by (simp add: less_Suc_eq)
qed auto

definition down_inv :: "nat \<Rightarrow> nat \<Rightarrow> 'a list \<Rightarrow> nat \<Rightarrow> bool" where
  "down_inv lo n h i \<longleftrightarrow>
     (\<forall>k. 0 < k \<longrightarrow> k < n \<longrightarrow> lo \<le> par k \<longrightarrow> par k \<noteq> i \<longrightarrow>
        \<not> lt (h ! k) (h ! (par k))) \<and>
     (\<forall>k. 0 < k \<longrightarrow> k < n \<longrightarrow> par k = i \<longrightarrow> 0 < i \<longrightarrow> lo \<le> par i \<longrightarrow>
        \<not> lt (h ! k) (h ! (par i)))"

lemma down_inv_swap:
  assumes inv: "down_inv lo n h i" and n: "n \<le> length h" and S: "set h \<subseteq> S"
    and j: "0 < j" "j < n" "par j = i" and l: "lt (h ! j) (h ! i)"
    and least: "\<And>k. 0 < k \<Longrightarrow> k < n \<Longrightarrow> par k = i \<Longrightarrow> \<not> lt (h ! k) (h ! j)"
  shows "down_inv lo n (heap_swap h i j) j"
proof -
  let ?h = "heap_swap h i j"
  have i: "i < j" using j by auto
  have el: "h ! k \<in> S" if "k < n" for k using S n that by auto
  have inv1: "\<not> lt (h ! k) (h ! (par k))"
    if "0 < k" "k < n" "lo \<le> par k" "par k \<noteq> i" for k
    using inv that by (auto simp: down_inv_def)
  have inv2: "\<not> lt (h ! k) (h ! (par i))"
    if "0 < k" "k < n" "par k = i" "0 < i" "lo \<le> par i" for k
    using inv that by (auto simp: down_inv_def)
  have sw: "?h ! k = (if k = i then h ! j else if k = j then h ! i else h ! k)" for k
    using i j n by (simp add: nth_heap_swap)
  have 1: "\<not> lt (?h ! k) (?h ! (par k))"
    if k: "0 < k" "k < n" "lo \<le> par k" "par k \<noteq> j" for k
  proof -
    consider "k = j" | "k \<noteq> j" "par k = i" | "k = i"
      | "k \<noteq> j" "k \<noteq> i" "par k \<noteq> i" by blast
    then show ?thesis
    proof cases
      case 1
      then show ?thesis using less_asym [OF el el l] i j by (simp add: sw)
    next
      case 2
      then have "k \<noteq> i" using k par_less [of k] by auto
      with 2 least [OF k(1,2)] show ?thesis by (simp add: sw)
    next
      case 3
      then have "par k < i" using k by simp
      with 3 inv2 [OF j] k show ?thesis by (simp add: sw)
    next
      case 4
      with inv1 [OF k(1-3)] k show ?thesis by (simp add: sw)
    qed
  qed
  have 2: "\<not> lt (?h ! k) (?h ! (par j))" if k: "0 < k" "k < n" "par k = j" "lo \<le> i" for k
  proof -
    have "k \<noteq> j" "k \<noteq> i" using k i par_less [of k] by auto
    moreover have "\<not> lt (h ! k) (h ! j)" using inv1 [OF k(1,2)] k i by auto
    ultimately show ?thesis using j(3) by (simp add: sw)
  qed
  show ?thesis unfolding down_inv_def using 1 2 j(3) by auto
qed

lemma heap_on_down:
  "down_inv lo n h i \<Longrightarrow> n \<le> length h \<Longrightarrow> set h \<subseteq> S \<Longrightarrow> heap_on lt lo n (heap_down lt h i n)"
proof (induction "n - i" arbitrary: h i rule: less_induct)
  case less
  define j where "j = (if 2 * i + 2 < n \<and> lt (h ! (2 * i + 2)) (h ! (2 * i + 1)) then 2 * i + 2 else 2 * i + 1)"
  have unf: "heap_down lt h i n = (if 2 * i + 1 \<ge> n then h else if \<not> lt (h ! j) (h ! i) then h
      else heap_down lt (heap_swap h i j) j n)"
    by (subst heap_down.simps) (simp add: Let_def j_def)
  note child = par_eqD
  show ?case
  proof (cases "2 * i + 1 \<ge> n")
    case True
    then have "par k \<noteq> i" if "0 < k" "k < n" for k using child [of k] that by auto
    with less.prems(1) True show ?thesis by (simp add: unf heap_on_def down_inv_def)
  next
    case False
    have el: "h ! k \<in> S" if "k < n" for k using less.prems that by auto
    have j: "0 < j" "j < n" "par j = i" "i < j" using False by (auto simp: j_def)
    have irr: "\<not> lt (h ! k) (h ! k)" if "k < n" for k
      using less_asym [OF el el] that by blast
    have least: "\<not> lt (h ! k) (h ! j)" if k: "0 < k" "k < n" "par k = i" for k
    proof -
      consider "k = 2 * i + 1" | "k = 2 * i + 2" using par_eqD k by blast
      then show ?thesis
      proof cases
        case 1
        then show ?thesis
          using irr [OF k(2)] less_asym [OF el el, of "2 * i + 2" "2 * i + 1"] by (simp add: j_def)
      next
        case 2
        then show ?thesis using irr [OF k(2)] k(2) by (simp add: j_def)
      qed
    qed
    show ?thesis
    proof (cases "lt (h ! j) (h ! i)")
      case True
      have "set (heap_swap h i j) = set h"
        using j less.prems(2) by (intro mset_eq_setD mset_heap_swap) auto
      then have "heap_on lt lo n (heap_down lt (heap_swap h i j) j n)"
        using less.prems j by (intro less.hyps down_inv_swap [OF less.prems j(1-3) True least]) auto
      then show ?thesis using False True unfolding unf by simp
    next
      case F: False
      have "\<not> lt (h ! k) (h ! i)" if k: "0 < k" "k < n" "par k = i" for k
        by (rule not_less_trans [OF el el el least [OF k] F]) (use k j in auto)
      with less.prems(1) F False show ?thesis by (auto simp: unf heap_on_def down_inv_def)
    qed
  qed
qed

lemma heap_least:
  assumes "is_heap lt h" and "set h \<subseteq> S" and "k < length h"
  shows "\<not> lt (h ! k) (h ! 0)"
  using assms(3)
proof (induction k rule: less_induct)
  case (less k)
  have el: "h ! k \<in> S" if "k < length h" for k using assms(2) that by auto
  show ?case
  proof (cases "k = 0")
    case True
    then show ?thesis using less_asym [OF el el] less.prems by blast
  next
    case False
    then have p: "par k < k" "0 < length h" using less.prems by auto
    then have "\<not> lt (h ! k) (h ! (par k))" using assms(1) False less.prems by (auto simp: heap_on_def)
    moreover have "\<not> lt (h ! (par k)) (h ! 0)" using less p by auto
    moreover have "h ! 0 \<in> S" "h ! k \<in> S" "h ! (par k) \<in> S" using el less.prems p by auto
    ultimately show ?thesis using not_less_trans by blast
  qed
qed

text \<open>What \<^verbatim>\<open>heap.Pop\<close> returns and leaves.\<close>

lemma heap_Pop_correct:
  assumes "is_heap lt h" and "set h \<subseteq> S" and "heap_Pop lt h = Some (x, h')"
  shows "is_heap lt h' \<and> mset h = add_mset x (mset h') \<and> (\<forall>y \<in> set h. \<not> lt y x)"
proof -
  have ne: "h \<noteq> []" using assms(3) by (auto simp: heap_Pop_def)
  let ?n = "length h - 1"
  let ?s = "heap_swap h 0 ?n"
  have n: "?n < length h" using ne by (cases h) auto
  have h': "h' = take ?n (heap_down lt ?s 0 ?n)" using assms(3) ne by (auto simp: heap_Pop_def Let_def)
  have x: "x = h ! 0" "mset h = add_mset x (mset h')"
    using heap_Pop_Some [OF ne, of lt] assms(3) by auto
  have "?s ! k = h ! k" if "0 < k" "k < ?n" for k using that n ne by (simp add: nth_heap_swap)
  then have "\<not> lt (?s ! k) (?s ! par k)" if "0 < k" "k < ?n" "par k \<noteq> 0" for k
    using assms(1) that le_less_trans [OF par_le, of k ?n] by (auto simp: heap_on_def)
  then have "down_inv 0 ?n ?s 0"
    unfolding down_inv_def by auto
  moreover have "set ?s = set h" using n ne by (intro mset_eq_setD mset_heap_swap) auto
  ultimately have "heap_on lt 0 ?n (heap_down lt ?s 0 ?n)"
    using heap_on_down assms(2) n by simp
  then have "is_heap lt h'" using heap_on_take [of lt 0 ?n] n by (simp add: h')
  moreover have "\<not> lt y x" if "y \<in> set h" for y
    using that heap_least [OF assms(1,2)] x(1) by (auto simp: in_set_conv_nth)
  ultimately show ?thesis using x(2) by blast
qed

lemma heap_on_Init: "set h \<subseteq> S \<Longrightarrow> is_heap lt (heap_Init lt h)"
proof -
  assume S: "set h \<subseteq> S"
  have "heap_on lt 0 (length h) (fold (\<lambda>i h. heap_down lt h i (length h)) (rev [0..<m]) g)"
    if "heap_on lt m (length h) g" "mset g = mset h" for m g
    using that
  proof (induction m arbitrary: g)
    case 0
    then show ?case by simp
  next
    case (Suc m)
    have len: "length g = length h" using Suc.prems(2) by (metis size_mset)
    have "set g \<subseteq> S" using S Suc.prems(2) by (metis mset_eq_setD)
    moreover have "down_inv m (length g) g m"
      unfolding down_inv_def
    proof (intro conjI allI impI)
      fix k
      assume "0 < k" "k < length g" "m \<le> par k" "par k \<noteq> m"
      then show "\<not> lt (g ! k) (g ! par k)" using Suc.prems(1) by (simp add: heap_on_def len)
    next
      fix k
      assume "0 < m" "m \<le> par m"
      then show "\<not> lt (g ! k) (g ! par m)" using par_less [of m] by linarith
    qed
    ultimately have "heap_on lt m (length g) (heap_down lt g m (length g))"
      by (intro heap_on_down) auto
    then show ?case
      using Suc.IH [of "heap_down lt g m (length g)"] Suc.prems(2) by (simp add: len mset_heap_down)
  qed
  moreover have "heap_on lt (length h div 2) (length h) h"
    by (auto simp: heap_on_def par_def)
  ultimately have "heap_on lt 0 (length h) (heap_Init lt h)"
    unfolding heap_Init_def by blast
  moreover have "length (heap_Init lt h) = length h"
    by (rule mset_eq_length [OF mset_heap_Init])
  ultimately show ?thesis by simp
qed

lemma heap_drain_correct:
  "is_heap lt h \<Longrightarrow> set h \<subseteq> S \<Longrightarrow> sorted_wrt (\<lambda>x y. \<not> lt x y) (heap_drain lt h)"
proof (induction "length h" arbitrary: h rule: less_induct)
  case less
  show ?case
  proof (cases "heap_Pop lt h")
    case None
    then show ?thesis by (simp add: heap_drain.simps)
  next
    case (Some xh)
    obtain x h' where xh: "xh = (x, h')" by (cases xh)
    note pop = heap_Pop_correct [OF less.prems Some [unfolded xh]]
    then have "set_mset (mset h) = insert x (set h')" by simp
    then have sub: "set h = insert x (set h')" by simp
    have "length h' < length h" using pop by (metis lessI size_add_mset size_mset)
    then have "sorted_wrt (\<lambda>x y. \<not> lt x y) (heap_drain lt h')"
      by (rule less.hyps) (use pop less.prems sub in auto)
    moreover have "heap_drain lt h = heap_drain lt h' @ [x]"
      using Some xh by (subst heap_drain.simps) simp
    ultimately show ?thesis
      using pop sub by (simp add: sorted_wrt_append set_heap_drain)
  qed
qed

end

end
