(* ===== verification/HNSW.thy ===== *)
theory HNSW
  imports Float32 Go_Heap Bit_Set
begin

section \<open>The vector index\<close>

text \<open>
  \<^verbatim>\<open>internal/storage/hnsw_wrapper.go\<close>: the layered proximity graph, its construction, search and
  deletion. \<^verbatim>\<open>hw.nodes\<close> is a map from ids to nodes; a node that is being inserted is not in the map
  until the end of the insertion, as in the code. Levels are \<^verbatim>\<open>int\<close>, ids \<^verbatim>\<open>uint64\<close>. The draws
  of \<^verbatim>\<open>math/rand\<close> in one insertion are an argument: \<open>rnd i\<close> says whether the \<open>i\<close>-th draw is
  below \<^verbatim>\<open>hw.Ml\<close>. The visiting order of a map, where it decides the outcome, is an argument too.

  The distance functions index their second argument by the positions of the first; every caller
  passes vectors of one length (\<open>hnsw_ok\<close> below, and the checks at the entry of the methods).
\<close>

record hnswNode =
  node_ID :: uint64
  node_Vector :: "float32 list"
  node_Level :: int
  node_Neighbors :: "uint64 list list"

record HNSWWrapper =
  hw_nodes :: "(uint64, hnswNode) gomap"
  hw_entryPoint :: uint64
  hw_hasEntry :: bool
  hw_dimensions :: uint32
  hw_metric :: DistanceMetric
  hw_M :: nat
  hw_EfConstruction :: nat
  hw_EfSearch :: nat
  hw_MaxLevel :: int
  hw_dirty :: bool

record candidate =
  cand_ID :: uint64
  cand_Distance :: float32

definition NewHNSWWrapper :: "uint32 \<Rightarrow> DistanceMetric \<Rightarrow> HNSWWrapper" where
  "NewHNSWWrapper dims metric =
     \<lparr>hw_nodes = [], hw_entryPoint = 0, hw_hasEntry = False, hw_dimensions = dims, hw_metric = metric,
      hw_M = 16, hw_EfConstruction = 200, hw_EfSearch = 100, hw_MaxLevel = 0, hw_dirty = False\<rparr>"

subsection \<open>Distances\<close>

definition distanceL2 :: "float32 list \<Rightarrow> float32 list \<Rightarrow> float32" where
  "distanceL2 a b =
     fold (\<lambda>(x, y) sum. let diff = f_sub x y in f_add sum (f_mul diff diff)) (zip a b) f_zero"

definition distanceCosine :: "float32 list \<Rightarrow> float32 list \<Rightarrow> float32" where
  "distanceCosine a b =
     (let (dot, normA, normB) =
        fold (\<lambda>(x, y) (dot, normA, normB).
                (f_add dot (f_mul x y), f_add normA (f_mul x x), f_add normB (f_mul y y)))
          (zip a b) (f_zero, f_zero, f_zero)
      in if f_eq normA f_zero \<or> f_eq normB f_zero then f_one
         else f_sub f_one (f_div dot (f_mul (f_sqrt normA) (f_sqrt normB))))"

definition distanceIP :: "float32 list \<Rightarrow> float32 list \<Rightarrow> float32" where
  "distanceIP a b = f_neg (fold (\<lambda>(x, y) dot. f_add dot (f_mul x y)) (zip a b) f_zero)"

definition hw_distance :: "HNSWWrapper \<Rightarrow> float32 list \<Rightarrow> float32 list \<Rightarrow> float32" where
  "hw_distance hw a b =
     (if hw_metric hw = MetricCosine then distanceCosine a b
      else if hw_metric hw = MetricIP then distanceIP a b
      else distanceL2 a b)"

definition randomLevel :: "(nat \<Rightarrow> bool) \<Rightarrow> nat" where
  "randomLevel rnd = length (takeWhile rnd [0..<32])"

subsection \<open>Search in one layer\<close>

definition candidateHeap_Less :: "candidate \<Rightarrow> candidate \<Rightarrow> bool" where
  "candidateHeap_Less x y = f_lt (cand_Distance x) (cand_Distance y)"

definition maxCandidateHeap_Less :: "candidate \<Rightarrow> candidate \<Rightarrow> bool" where
  "maxCandidateHeap_Less x y = f_lt (cand_Distance y) (cand_Distance x)"

text \<open>The state of the loop: the ids visited, the min-heap of candidates, the max-heap of results.\<close>

type_synonym search_state = "uint64 list \<times> candidate list \<times> candidate list"

definition visit_neighbor ::
  "HNSWWrapper \<Rightarrow> float32 list \<Rightarrow> nat \<Rightarrow> uint64 \<Rightarrow> search_state \<Rightarrow> search_state" where
  "visit_neighbor hw query ef neighborID st =
     (case st of (visited, candidates, results) \<Rightarrow>
        if neighborID \<in> set visited then st
        else
          let visited = neighborID # visited
          in case mget (hw_nodes hw) neighborID of
               None \<Rightarrow> (visited, candidates, results)
             | Some neighborNode \<Rightarrow>
                 let dist = hw_distance hw query (node_Vector neighborNode);
                     c = \<lparr>cand_ID = neighborID, cand_Distance = dist\<rparr>
                 in if length results < ef \<or> f_lt dist (cand_Distance (results ! 0)) then
                      let candidates = heap_Push candidateHeap_Less c candidates;
                          results = heap_Push maxCandidateHeap_Less c results
                      in (visited, candidates,
                          if length results > ef then
                            (case heap_Pop maxCandidateHeap_Less results of
                               None \<Rightarrow> results
                             | Some (_, rest) \<Rightarrow> rest)
                          else results)
                    else (visited, candidates, results))"

definition unvisited :: "HNSWWrapper \<Rightarrow> uint64 list \<Rightarrow> nat" where
  "unvisited hw visited = length (filter (\<lambda>n. n \<notin> set visited) (mkeys (hw_nodes hw)))"

definition search_measure :: "HNSWWrapper \<Rightarrow> search_state \<Rightarrow> nat" where
  "search_measure hw st = (case st of (visited, candidates, results) \<Rightarrow>
     length candidates + unvisited hw visited)"

lemma unvisited_Cons: "unvisited hw (v # visited) \<le> unvisited hw visited"
proof -
  have "length (filter (\<lambda>n. n \<noteq> v \<and> n \<notin> set visited) xs) \<le> length (filter (\<lambda>n. n \<notin> set visited) xs)" for xs
    by (induction xs) auto
  from this [of "mkeys (hw_nodes hw)"] show ?thesis by (simp add: unvisited_def del: filter_map)
qed

lemma unvisited_Cons_node:
  assumes "mget (hw_nodes hw) v = Some node" and "v \<notin> set visited"
  shows "unvisited hw (v # visited) < unvisited hw visited"
proof -
  have "length (filter (\<lambda>n. n \<noteq> v \<and> n \<notin> set visited) xs) < length (filter (\<lambda>n. n \<notin> set visited) xs)"
    if "v \<in> set xs" for xs
    using that
  proof (induction xs)
    case (Cons x xs)
    have le: "length (filter (\<lambda>n. n \<noteq> v \<and> n \<notin> set visited) xs) \<le> length (filter (\<lambda>n. n \<notin> set visited) xs)"
      by (induction xs) auto
    show ?case using Cons le assms(2) by (cases "x = v") auto
  qed simp
  moreover have "v \<in> set (mkeys (hw_nodes hw))"
    using assms(1) mget_None_iff [of "hw_nodes hw" v] by fastforce
  ultimately have "length (filter (\<lambda>n. n \<noteq> v \<and> n \<notin> set visited) (mkeys (hw_nodes hw))) <
      length (filter (\<lambda>n. n \<notin> set visited) (mkeys (hw_nodes hw)))" by blast
  then show ?thesis by (simp add: unvisited_def del: filter_map)
qed

lemma search_measure_visit: "search_measure hw (visit_neighbor hw q ef n st) \<le> search_measure hw st"
proof -
  obtain visited candidates results where st: "st = (visited, candidates, results)" by (cases st)
  show ?thesis
  proof (cases "n \<in> set visited \<or> mget (hw_nodes hw) n = None")
    case True
    then show ?thesis
      using unvisited_Cons [of hw n visited] by (auto simp: st visit_neighbor_def search_measure_def)
  next
    case False
    then obtain node where "mget (hw_nodes hw) n = Some node" "n \<notin> set visited" by auto
    with unvisited_Cons_node [OF this] show ?thesis
      by (auto simp: st visit_neighbor_def search_measure_def Let_def)
  qed
qed

lemma search_measure_fold:
  "search_measure hw (fold (visit_neighbor hw q ef) ns st) \<le> search_measure hw st"
proof (induction ns arbitrary: st)
  case (Cons n ns)
  from Cons [of "visit_neighbor hw q ef n st"] search_measure_visit [of hw q ef n st]
  show ?case by simp
qed simp

lemma heap_Pop_shorter: "heap_Pop lt h = Some (x, h') \<Longrightarrow> length h = Suc (length h')"
  by (metis heap_Pop_mset size_add_mset size_mset)

lemma search_measure_pop:
  "heap_Pop lt candidates = Some (c, cands) \<Longrightarrow>
   search_measure hw (visited, cands, results) < search_measure hw (visited, candidates, results)"
  by (auto simp: search_measure_def dest: heap_Pop_shorter)

lemma search_measure_round:
  "heap_Pop lt candidates = Some (c, cands) \<Longrightarrow>
   search_measure hw (fold (visit_neighbor hw q ef) ns (visited, cands, results)) <
     search_measure hw (visited, candidates, results)"
  using search_measure_fold search_measure_pop by (rule le_less_trans)

function search_loop ::
  "HNSWWrapper \<Rightarrow> float32 list \<Rightarrow> nat \<Rightarrow> nat \<Rightarrow> search_state \<Rightarrow> candidate list" where
  "search_loop hw query ef level (visited, candidates, results) =
     (case heap_Pop candidateHeap_Less candidates of
        None \<Rightarrow> results
      | Some (current, candidates) \<Rightarrow>
          if length results > 0 \<and> f_lt (cand_Distance (results ! 0)) (cand_Distance current) \<and>
             length results \<ge> ef
          then results
          else
            case mget (hw_nodes hw) (cand_ID current) of
              None \<Rightarrow> search_loop hw query ef level (visited, candidates, results)
            | Some node \<Rightarrow>
                if level \<ge> length (node_Neighbors node)
                then search_loop hw query ef level (visited, candidates, results)
                else search_loop hw query ef level
                       (fold (visit_neighbor hw query ef) (node_Neighbors node ! level)
                          (visited, candidates, results)))"
  by pat_completeness auto

termination
  by (relation "measure (\<lambda>(hw, q, ef, level, st). search_measure hw st)")
    (auto simp: search_measure_pop search_measure_round)

declare search_loop.simps [simp del]

definition searchLayer ::
  "HNSWWrapper \<Rightarrow> float32 list \<Rightarrow> uint64 \<Rightarrow> nat \<Rightarrow> nat \<Rightarrow> candidate list" where
  "searchLayer hw query entryID ef level =
     (case mget (hw_nodes hw) entryID of
        None \<Rightarrow> []
      | Some entryNode \<Rightarrow>
          let entryDist = hw_distance hw query (node_Vector entryNode);
              c = \<lparr>cand_ID = entryID, cand_Distance = entryDist\<rparr>;
              candidates = heap_Init candidateHeap_Less [c];
              results = heap_Init maxCandidateHeap_Less [c]
          in heap_drain maxCandidateHeap_Less
               (search_loop hw query ef level ([entryID], candidates, results)))"

subsection \<open>Connections\<close>

definition selectNeighbors :: "candidate list \<Rightarrow> nat \<Rightarrow> candidate list" where
  "selectNeighbors candidates m = (if length candidates \<le> m then candidates else take m candidates)"

text \<open>\<^verbatim>\<open>node.Neighbors[level] = ns\<close> for the node with the given id.\<close>

definition set_neighbors :: "uint64 \<Rightarrow> nat \<Rightarrow> uint64 list \<Rightarrow> hnswNode \<Rightarrow> HNSWWrapper \<Rightarrow> HNSWWrapper" where
  "set_neighbors nid level ns node hw =
     hw\<lparr>hw_nodes := mput nid (node\<lparr>node_Neighbors := (node_Neighbors node)[level := ns]\<rparr>) (hw_nodes hw)\<rparr>"

definition pruneConnections :: "uint64 \<Rightarrow> nat \<Rightarrow> HNSWWrapper \<Rightarrow> HNSWWrapper" where
  "pruneConnections nodeID level hw =
     (case mget (hw_nodes hw) nodeID of
        None \<Rightarrow> hw
      | Some node \<Rightarrow>
          if level \<ge> length (node_Neighbors node) then hw
          else
            let candidates = concat (map (\<lambda>neighborID. case mget (hw_nodes hw) neighborID of
                    None \<Rightarrow> []
                  | Some neighbor \<Rightarrow>
                      [\<lparr>cand_ID = neighborID,
                        cand_Distance = hw_distance hw (node_Vector node) (node_Vector neighbor)\<rparr>])
                  (node_Neighbors node ! level));
                selected = selectNeighbors candidates (hw_M hw)
            in set_neighbors nodeID level (map cand_ID selected) node hw)"

definition addConnection :: "uint64 \<Rightarrow> uint64 \<Rightarrow> nat \<Rightarrow> HNSWWrapper \<Rightarrow> HNSWWrapper" where
  "addConnection sourceID targetID level hw =
     (case mget (hw_nodes hw) sourceID of
        None \<Rightarrow> hw
      | Some source \<Rightarrow>
          if level \<ge> length (node_Neighbors source) then hw
          else if targetID \<in> set (node_Neighbors source ! level) then hw
          else
            let ns = node_Neighbors source ! level @ [targetID];
                hw = set_neighbors sourceID level ns source hw
            in if length ns > hw_M hw * 2 then pruneConnections sourceID level hw else hw)"

definition removeConnection :: "uint64 \<Rightarrow> uint64 \<Rightarrow> nat \<Rightarrow> HNSWWrapper \<Rightarrow> HNSWWrapper" where
  "removeConnection sourceID targetID level hw =
     (case mget (hw_nodes hw) sourceID of
        None \<Rightarrow> hw
      | Some source \<Rightarrow>
          if level \<ge> length (node_Neighbors source) then hw
          else set_neighbors sourceID level
                 (filter (\<lambda>n. n \<noteq> targetID) (node_Neighbors source ! level)) source hw)"

subsection \<open>Insertion\<close>

fun descend :: "HNSWWrapper \<Rightarrow> float32 list \<Rightarrow> int list \<Rightarrow> uint64 \<Rightarrow> go_error + uint64" where
  "descend hw vector [] ep = Inr ep"
| "descend hw vector (l # ls) ep =
     (case searchLayer hw vector ep 1 (nat l) of
        [] \<Rightarrow> Inl (GoPanic ''index out of range'')
      | c # _ \<Rightarrow> descend hw vector ls (cand_ID c))"

text \<open>One round of the insertion loop: the index, the entry point and the new node's neighbours.\<close>

definition insert_level ::
  "uint64 \<Rightarrow> float32 list \<Rightarrow> int \<Rightarrow> HNSWWrapper \<times> uint64 \<times> uint64 list list \<Rightarrow>
   HNSWWrapper \<times> uint64 \<times> uint64 list list" where
  "insert_level vectorID vector l st =
     (case st of (hw, ep, ns) \<Rightarrow>
        let neighbors = searchLayer hw vector ep (hw_EfConstruction hw) (nat l);
            selectedNeighbors = selectNeighbors neighbors (hw_M hw)
        in (fold (\<lambda>n hw. addConnection (cand_ID n) vectorID (nat l) hw) selectedNeighbors hw,
            if length neighbors > 0 then cand_ID (neighbors ! 0) else ep,
            ns[nat l := map cand_ID selectedNeighbors]))"

definition addUnlocked ::
  "(nat \<Rightarrow> bool) \<Rightarrow> uint64 \<Rightarrow> float32 list \<Rightarrow> HNSWWrapper \<Rightarrow> HNSWWrapper \<times> go_error option" where
  "addUnlocked rnd vectorID vector hw =
     (if of_nat (length vector) \<noteq> hw_dimensions hw then (hw, Some DimensionMismatch)
      else if mget (hw_nodes hw) vectorID \<noteq> None then (hw, Some VectorExists)
      else
        let level = int (randomLevel rnd);
            node = \<lparr>node_ID = vectorID, node_Vector = vector, node_Level = level,
                    node_Neighbors = replicate (randomLevel rnd + 1) []\<rparr>
        in if \<not> hw_hasEntry hw then
             (hw\<lparr>hw_nodes := mput vectorID node (hw_nodes hw), hw_entryPoint := vectorID,
                 hw_hasEntry := True, hw_MaxLevel := level, hw_dirty := True\<rparr>, None)
           else
             case descend hw vector (rev [level + 1..hw_MaxLevel hw]) (hw_entryPoint hw) of
               Inl err \<Rightarrow> (hw, Some err)
             | Inr ep \<Rightarrow>
                 (case fold (insert_level vectorID vector) (rev [0..min level (hw_MaxLevel hw)])
                         (hw, ep, node_Neighbors node) of
                    (hw, ep, ns) \<Rightarrow>
                      let hw = hw\<lparr>hw_nodes := mput vectorID (node\<lparr>node_Neighbors := ns\<rparr>) (hw_nodes hw),
                                  hw_dirty := True\<rparr>
                      in (if level > hw_MaxLevel hw
                          then hw\<lparr>hw_MaxLevel := level, hw_entryPoint := vectorID\<rparr> else hw, None)))"

definition hw_Add ::
  "(nat \<Rightarrow> bool) \<Rightarrow> uint64 \<Rightarrow> float32 list \<Rightarrow> HNSWWrapper \<Rightarrow> HNSWWrapper \<times> go_error option" where
  "hw_Add rnd vectorID vector hw = addUnlocked rnd vectorID vector hw"

text \<open>Errors of single items are dropped and the loop goes on; a panic ends it.\<close>

fun hw_BatchAdd ::
  "(nat \<Rightarrow> nat \<Rightarrow> bool) \<Rightarrow> (uint64 \<times> float32 list) list \<Rightarrow> HNSWWrapper \<Rightarrow> HNSWWrapper \<times> go_error option" where
  "hw_BatchAdd rnds [] hw = (hw, None)"
| "hw_BatchAdd rnds ((vid, vector) # items) hw =
     (case addUnlocked (rnds 0) vid vector hw of
        (hw, Some (GoPanic msg)) \<Rightarrow> (hw, Some (GoPanic msg))
      | (hw, _) \<Rightarrow> hw_BatchAdd (\<lambda>i. rnds (Suc i)) items hw)"

subsection \<open>Search\<close>

record HNSWSearchResult =
  VectorID :: uint64
  Distance :: float32

fun collect_results ::
  "BitSet option \<Rightarrow> bool \<Rightarrow> nat \<Rightarrow> candidate list \<Rightarrow> HNSWSearchResult list \<Rightarrow> HNSWSearchResult list" where
  "collect_results flt hasFilter k [] results = results"
| "collect_results flt hasFilter k (c # cs) results =
     (if hasFilter \<and> \<not> (case flt of None \<Rightarrow> False | Some bs \<Rightarrow> BitSet_Contains bs (cand_ID c))
      then collect_results flt hasFilter k cs results
      else
        let results = results @ [\<lparr>VectorID = cand_ID c, Distance = cand_Distance c\<rparr>]
        in if length results \<ge> k then results else collect_results flt hasFilter k cs results)"

definition hw_Search ::
  "HNSWWrapper \<Rightarrow> float32 list \<Rightarrow> nat \<Rightarrow> BitSet option \<Rightarrow> go_error + HNSWSearchResult list" where
  "hw_Search hw query k flt =
     (if of_nat (length query) \<noteq> hw_dimensions hw then Inl QueryDimensionMismatch
      else if \<not> hw_hasEntry hw then Inr []
      else
        let hasFilter = (case flt of None \<Rightarrow> False | Some bs \<Rightarrow> \<not> IsEmpty bs);
            searchK = (if hasFilter
                       then (if k * 10 > length (hw_nodes hw) then length (hw_nodes hw) else k * 10)
                       else k);
            ep = fold (\<lambda>l ep. case searchLayer hw query ep 1 (nat l) of [] \<Rightarrow> ep | c # _ \<Rightarrow> cand_ID c)
                   (rev [1..hw_MaxLevel hw]) (hw_entryPoint hw);
            candidates = searchLayer hw query ep (max searchK (hw_EfSearch hw)) 0
        in Inr (collect_results flt hasFilter k candidates []))"

subsection \<open>Deletion\<close>

text \<open>\<open>ord\<close> is the order in which the map is visited.\<close>

fun entry_step :: "uint64 \<times> hnswNode \<Rightarrow> HNSWWrapper \<Rightarrow> HNSWWrapper" where
  "entry_step (nid, node) hw =
     (if \<not> hw_hasEntry hw \<or> node_Level node > hw_MaxLevel hw
      then hw\<lparr>hw_entryPoint := nid, hw_MaxLevel := node_Level node, hw_hasEntry := True\<rparr>
      else hw)"

definition updateEntryPoint ::
  "((uint64, hnswNode) gomap \<Rightarrow> (uint64, hnswNode) gomap) \<Rightarrow> HNSWWrapper \<Rightarrow> HNSWWrapper" where
  "updateEntryPoint ord hw =
     fold entry_step (ord (hw_nodes hw)) (hw\<lparr>hw_hasEntry := False, hw_MaxLevel := 0\<rparr>)"

definition hw_Delete ::
  "((uint64, hnswNode) gomap \<Rightarrow> (uint64, hnswNode) gomap) \<Rightarrow> uint64 \<Rightarrow> HNSWWrapper \<Rightarrow>
   HNSWWrapper \<times> go_error option" where
  "hw_Delete ord vectorID hw =
     (case mget (hw_nodes hw) vectorID of
        None \<Rightarrow> (hw, Some VectorNotFound)
      | Some node \<Rightarrow>
          let hw = fold (\<lambda>(level, neighbors) hw.
                     fold (\<lambda>neighborID hw. removeConnection neighborID vectorID level hw) neighbors hw)
                     (enumerate 0 (node_Neighbors node)) hw;
              hw = hw\<lparr>hw_nodes := mdel vectorID (hw_nodes hw), hw_dirty := True\<rparr>
          in (if hw_entryPoint hw = vectorID then updateEntryPoint ord hw else hw, None))"

definition IsDirty :: "HNSWWrapper \<Rightarrow> bool" where
  "IsDirty hw = hw_dirty hw"

definition hw_Dimensions :: "HNSWWrapper \<Rightarrow> uint32" where
  "hw_Dimensions hw = hw_dimensions hw"

definition hw_Metric :: "HNSWWrapper \<Rightarrow> DistanceMetric" where
  "hw_Metric hw = hw_metric hw"

definition hw_Count :: "HNSWWrapper \<Rightarrow> uint64" where
  "hw_Count hw = of_nat (length (hw_nodes hw))"

definition hw_Contains :: "HNSWWrapper \<Rightarrow> uint64 \<Rightarrow> bool" where
  "hw_Contains hw vectorID = (mget (hw_nodes hw) vectorID \<noteq> None)"

end
