(* ===== verification/HNSW_Search.thy ===== *)
theory HNSW_Search
  imports HNSW
begin

section \<open>Correctness of the graph search\<close>

text \<open>
  What \<^verbatim>\<open>searchLayer\<close> returns: candidates with distinct ids, each an existing node at its true
  distance, at most \<open>ef\<close> of them, in ascending order of distance when no distance is NaN; when
  \<open>ef\<close> is at least the number of nodes it returns exactly the nodes reachable in the layer. The
  facts are proved by invariants of the loop.
\<close>

interpretation min_heap: heap_order candidateHeap_Less "{c. \<not> isNaN (cand_Distance c)}"
  by unfold_locales (auto simp: candidateHeap_Less_def intro: f_lt_trans dest: f_lt_asym f_not_lt_trans)

interpretation max_heap: heap_order maxCandidateHeap_Less "{c. \<not> isNaN (cand_Distance c)}"
  by unfold_locales (auto simp: maxCandidateHeap_Less_def intro: f_lt_trans dest: f_lt_asym f_not_lt_trans)

text \<open>A candidate is genuine when it names a node and carries the distance of that node.\<close>

definition genuine :: "HNSWWrapper \<Rightarrow> float32 list \<Rightarrow> candidate \<Rightarrow> bool" where
  "genuine hw q c \<longleftrightarrow> (\<exists>node. mget (hw_nodes hw) (cand_ID c) = Some node \<and>
     cand_Distance c = hw_distance hw q (node_Vector node))"

fun search_inv :: "HNSWWrapper \<Rightarrow> float32 list \<Rightarrow> nat \<Rightarrow> search_state \<Rightarrow> bool" where
  "search_inv hw q ef (visited, cands, results) \<longleftrightarrow>
     distinct (map cand_ID results) \<and> cand_ID ` set results \<subseteq> set visited \<and>
     cand_ID ` set cands \<subseteq> set visited \<and> list_all (genuine hw q) (results @ cands) \<and>
     results \<noteq> [] \<and> length results \<le> ef"

lemma set_Pop: "heap_Pop lt h = Some (x, h') \<Longrightarrow> set h = insert x (set h')"
  using heap_Pop_mset by (metis set_mset_add_mset_insert set_mset_mset)

lemma distinct_ids_mset: "mset xs = mset ys \<Longrightarrow> distinct (map f xs) \<longleftrightarrow> distinct (map f ys)"
  by (metis mset_eq_imp_distinct_iff mset_map)

lemma distinct_ids_Pop:
  assumes "heap_Pop lt h = Some (x, h')" and "distinct (map f h)"
  shows "distinct (map f h')"
  using assms heap_Pop_mset [OF assms(1)] distinct_ids_mset [of h "x # h'" f] by simp

lemma search_inv_Pop:
  "search_inv hw q ef (visited, cands, results) \<Longrightarrow> heap_Pop lt cands = Some (c, cands') \<Longrightarrow>
   search_inv hw q ef (visited, cands', results) \<and> genuine hw q c \<and> cand_ID c \<in> set visited"
  by (auto simp: set_Pop list_all_iff)

text \<open>The results after a push that may overflow.\<close>

definition push_result :: "nat \<Rightarrow> candidate \<Rightarrow> candidate list \<Rightarrow> candidate list" where
  "push_result ef c results =
     (let results = heap_Push maxCandidateHeap_Less c results
      in if length results > ef then
           (case heap_Pop maxCandidateHeap_Less results of None \<Rightarrow> results | Some (_, rest) \<Rightarrow> rest)
         else results)"

lemma push_result_cases:
  assumes "results \<noteq> []" and "length results \<le> ef"
  obtains (kept) "mset (push_result ef c results) = add_mset c (mset results)" "length results < ef"
      "push_result ef c results = heap_Push maxCandidateHeap_Less c results"
  | (dropped) x where "length results = ef"
      "heap_Pop maxCandidateHeap_Less (heap_Push maxCandidateHeap_Less c results) =
         Some (x, push_result ef c results)"
      "add_mset c (mset results) = add_mset x (mset (push_result ef c results))"
proof (cases "length results < ef")
  case True
  then show thesis using kept by (simp add: push_result_def Let_def)
next
  case False
  let ?h = "heap_Push maxCandidateHeap_Less c results"
  have "?h \<noteq> []" by (metis length_heap_Push list.size(3) nat.distinct(1))
  then obtain x h' where p: "heap_Pop maxCandidateHeap_Less ?h = Some (x, h')" "mset ?h = add_mset x (mset h')"
    using heap_Pop_Some by metis
  then have "push_result ef c results = h'" using False by (simp add: push_result_def Let_def)
  with p False assms(2) show thesis using dropped by simp
qed

lemma visit_neighbor_cases:
  obtains (seen) "n \<in> set visited" "visit_neighbor hw q ef n (visited, cands, results) = (visited, cands, results)"
  | (gone) "n \<notin> set visited" "mget (hw_nodes hw) n = None"
      "visit_neighbor hw q ef n (visited, cands, results) = (n # visited, cands, results)"
  | (far) node where "n \<notin> set visited" "mget (hw_nodes hw) n = Some node"
      "\<not> length results < ef" "\<not> f_lt (hw_distance hw q (node_Vector node)) (cand_Distance (results ! 0))"
      "visit_neighbor hw q ef n (visited, cands, results) = (n # visited, cands, results)"
  | (near) node c where "n \<notin> set visited" "mget (hw_nodes hw) n = Some node"
      "c = \<lparr>cand_ID = n, cand_Distance = hw_distance hw q (node_Vector node)\<rparr>"
      "visit_neighbor hw q ef n (visited, cands, results) =
         (n # visited, heap_Push candidateHeap_Less c cands, push_result ef c results)"
proof (cases "n \<in> set visited")
  case True
  then show thesis using seen by (simp add: visit_neighbor_def)
next
  case False
  show thesis
  proof (cases "mget (hw_nodes hw) n")
    case None
    with False show thesis using gone by (simp add: visit_neighbor_def)
  next
    case (Some node)
    let ?d = "hw_distance hw q (node_Vector node)"
    show thesis
    proof (cases "length results < ef \<or> f_lt ?d (cand_Distance (results ! 0))")
      case True
      with False Some show thesis
        by (intro near [of node "\<lparr>cand_ID = n, cand_Distance = ?d\<rparr>"])
          (simp_all add: visit_neighbor_def Let_def push_result_def)
    next
      case F: False
      with False Some show thesis by (intro far [of node]) (simp_all add: visit_neighbor_def Let_def)
    qed
  qed
qed

lemma push_result_facts:
  assumes "results \<noteq> []" and "length results \<le> ef" and "distinct (map cand_ID (c # results))"
  shows "distinct (map cand_ID (push_result ef c results))" and "push_result ef c results \<noteq> []"
    and "length (push_result ef c results) \<le> ef" and "set (push_result ef c results) \<subseteq> insert c (set results)"
proof -
  consider "mset (push_result ef c results) = mset (c # results)" "length results < ef"
    | x where "length results = ef" "mset (c # results) = mset (x # push_result ef c results)"
    using push_result_cases [OF assms(1,2), of c] by (metis mset.simps(2))
  then have "distinct (map cand_ID (push_result ef c results)) \<and> length (push_result ef c results) > 0 \<and>
    length (push_result ef c results) \<le> ef \<and> set (push_result ef c results) \<subseteq> insert c (set results)"
  proof cases
    case 1
    then have "length (push_result ef c results) = Suc (length results)"
      "set (push_result ef c results) = insert c (set results)"
      by (metis length_Cons size_mset, metis list.set(2) mset_eq_setD)
    with 1 assms(3) distinct_ids_mset [OF 1(1), where f = cand_ID] show ?thesis by simp
  next
    case 2
    then have "Suc (length results) = Suc (length (push_result ef c results))"
      "insert c (set results) = insert x (set (push_result ef c results))"
      by (metis length_Cons size_mset, metis list.set(2) mset_eq_setD)
    with 2 assms distinct_ids_mset [OF 2(2), where f = cand_ID] show ?thesis by auto
  qed
  then show "distinct (map cand_ID (push_result ef c results))" "push_result ef c results \<noteq> []"
    "length (push_result ef c results) \<le> ef" "set (push_result ef c results) \<subseteq> insert c (set results)"
    by auto
qed

lemma search_inv_visit:
  assumes "search_inv hw q ef st"
  shows "search_inv hw q ef (visit_neighbor hw q ef n st)"
proof -
  obtain visited cands results where st: "st = (visited, cands, results)" by (cases st)
  show ?thesis
  proof (cases rule: visit_neighbor_cases [of n visited hw q ef cands results])
    case (near node c)
    have d: "distinct (map cand_ID (c # results))"
      using assms near by (auto simp: st)
    have r: "results \<noteq> []" "length results \<le> ef" using assms by (simp_all add: st)
    have g: "genuine hw q c" using near by (simp add: genuine_def)
    note p = push_result_facts [OF r d]
    have "cand_ID x \<in> set (n # visited) \<and> genuine hw q x" if "x \<in> set (push_result ef c results)" for x
    proof -
      from p(4) that have "x = c \<or> x \<in> set results" by auto
      then show ?thesis using assms g near(3) by (auto simp: st list_all_iff)
    qed
    then show ?thesis
      using assms g p(1-3) near by (auto simp: st list_all_iff)
  qed (use assms in \<open>auto simp: st\<close>)
qed

lemma search_inv_fold: "search_inv hw q ef st \<Longrightarrow> search_inv hw q ef (fold (visit_neighbor hw q ef) ns st)"
  by (induction ns arbitrary: st) (simp_all add: search_inv_visit del: search_inv.simps)

text \<open>
  The rule behind all facts about the loop: an invariant of one round holds of the final results,
  where the loop stops with no candidate left or at a candidate farther than every result.
\<close>

lemma search_loop_rule:
  assumes "Inv (visited, cands, results)"
    and round: "\<And>visited cands results c cands' node.
      Inv (visited, cands, results) \<Longrightarrow> heap_Pop candidateHeap_Less cands = Some (c, cands') \<Longrightarrow>
      (case mget (hw_nodes hw) (cand_ID c) of None \<Rightarrow> Inv (visited, cands', results)
       | Some node \<Rightarrow> if level \<ge> length (node_Neighbors node) then Inv (visited, cands', results)
         else Inv (fold (visit_neighbor hw q ef) (node_Neighbors node ! level) (visited, cands', results)))"
    and stop: "\<And>visited results. Inv (visited, [], results) \<Longrightarrow> Q results"
    and break: "\<And>visited cands results c cands'.
      Inv (visited, cands, results) \<Longrightarrow> heap_Pop candidateHeap_Less cands = Some (c, cands') \<Longrightarrow>
      ef \<le> length results \<Longrightarrow> f_lt (cand_Distance (results ! 0)) (cand_Distance c) \<Longrightarrow> Q results"
  shows "Q (search_loop hw q ef level (visited, cands, results))"
  using assms(1)
proof (induction "search_measure hw (visited, cands, results)" arbitrary: visited cands results
    rule: less_induct)
  case less
  show ?case
  proof (cases "heap_Pop candidateHeap_Less cands")
    case None
    then have "Q results" using stop less.prems by (simp add: heap_Pop_None)
    then show ?thesis by (subst search_loop.simps) (simp add: None)
  next
    case (Some p)
    obtain c cands' where p: "p = (c, cands')" by (cases p)
    note pop = Some [unfolded p]
    show ?thesis
    proof (cases "length results > 0 \<and> f_lt (cand_Distance (results ! 0)) (cand_Distance c) \<and> length results \<ge> ef")
      case True
      then show ?thesis
        using break [OF less.prems pop] pop by (subst search_loop.simps) simp
    next
      case False
      note r = round [OF less.prems pop]
      define st' where "st' = (case mget (hw_nodes hw) (cand_ID c) of None \<Rightarrow> (visited, cands', results)
         | Some node \<Rightarrow> if level \<ge> length (node_Neighbors node) then (visited, cands', results)
           else fold (visit_neighbor hw q ef) (node_Neighbors node ! level) (visited, cands', results))"
      have "search_loop hw q ef level (visited, cands, results) = search_loop hw q ef level st'"
        using False pop by (subst search_loop.simps) (auto simp: st'_def split: option.split)
      moreover have "search_measure hw st' < search_measure hw (visited, cands, results)"
        using search_measure_pop [OF pop] search_measure_round [OF pop]
        by (auto simp: st'_def split: option.split)
      moreover have "Inv st'"
        using r by (auto simp: st'_def split: option.split)
      ultimately show ?thesis
        using less.hyps by (cases st') metis
    qed
  qed
qed

lemma search_loop_inv:
  assumes "search_inv hw q ef (visited, cands, results)"
  shows "distinct (map cand_ID (search_loop hw q ef level (visited, cands, results))) \<and>
    list_all (genuine hw q) (search_loop hw q ef level (visited, cands, results)) \<and>
    search_loop hw q ef level (visited, cands, results) \<noteq> [] \<and>
    length (search_loop hw q ef level (visited, cands, results)) \<le> ef"
proof (rule search_loop_rule [where Inv = "search_inv hw q ef"
      and Q = "\<lambda>r. distinct (map cand_ID r) \<and> list_all (genuine hw q) r \<and> r \<noteq> [] \<and> length r \<le> ef"])
  fix visited cands results c cands'
  assume "search_inv hw q ef (visited, cands, results)"
    and "heap_Pop candidateHeap_Less cands = Some (c, cands')"
  then have "search_inv hw q ef (visited, cands', results)" using search_inv_Pop by blast
  then show "case mget (hw_nodes hw) (cand_ID c) of None \<Rightarrow> search_inv hw q ef (visited, cands', results)
       | Some node \<Rightarrow> if level \<ge> length (node_Neighbors node) then search_inv hw q ef (visited, cands', results)
         else search_inv hw q ef (fold (visit_neighbor hw q ef) (node_Neighbors node ! level) (visited, cands', results))"
    using search_inv_fold by (simp split: option.split del: search_inv.simps)
qed (use assms in auto)

text \<open>The start of the loop.\<close>

lemma searchLayer_start:
  assumes "mget (hw_nodes hw) e = Some node"
  shows "searchLayer hw q e ef level = heap_drain maxCandidateHeap_Less (search_loop hw q ef level
    ([e], [\<lparr>cand_ID = e, cand_Distance = hw_distance hw q (node_Vector node)\<rparr>],
     [\<lparr>cand_ID = e, cand_Distance = hw_distance hw q (node_Vector node)\<rparr>]))"
  using assms by (simp add: searchLayer_def heap_Init_def Let_def)

lemma searchLayer_facts:
  assumes "mget (hw_nodes hw) e = Some node" and "1 \<le> ef"
  shows "distinct (map cand_ID (searchLayer hw q e ef level))"
    and "list_all (genuine hw q) (searchLayer hw q e ef level)"
    and "searchLayer hw q e ef level \<noteq> []" and "length (searchLayer hw q e ef level) \<le> ef"
proof -
  let ?c = "\<lparr>cand_ID = e, cand_Distance = hw_distance hw q (node_Vector node)\<rparr>"
  let ?r = "search_loop hw q ef level ([e], [?c], [?c])"
  have "search_inv hw q ef ([e], [?c], [?c])"
    using assms by (simp add: genuine_def)
  note r = search_loop_inv [OF this, of level]
  have s: "searchLayer hw q e ef level = heap_drain maxCandidateHeap_Less ?r"
    by (rule searchLayer_start [OF assms(1)])
  show "distinct (map cand_ID (searchLayer hw q e ef level))"
    using r distinct_ids_mset [OF mset_heap_drain] by (auto simp: s)
  show "list_all (genuine hw q) (searchLayer hw q e ef level)"
    using r by (simp add: s list_all_iff set_heap_drain)
  show "searchLayer hw q e ef level \<noteq> []" "length (searchLayer hw q e ef level) \<le> ef"
    using r length_heap_drain [of maxCandidateHeap_Less ?r] by (auto simp: s)
qed

subsection \<open>Order of the results\<close>

definition no_nan :: "HNSWWrapper \<Rightarrow> float32 list \<Rightarrow> bool" where
  "no_nan hw q \<longleftrightarrow> list_all (\<lambda>(n, node). \<not> isNaN (hw_distance hw q (node_Vector node))) (hw_nodes hw)"

lemma genuine_not_nan: "no_nan hw q \<Longrightarrow> genuine hw q c \<Longrightarrow> \<not> isNaN (cand_Distance c)"
  by (fastforce simp: no_nan_def genuine_def list_all_iff dest: map_of_SomeD)

text \<open>The results form a max-heap, and one of them is no farther than the entry point.\<close>

fun ordered_inv :: "HNSWWrapper \<Rightarrow> float32 list \<Rightarrow> nat \<Rightarrow> float32 \<Rightarrow> search_state \<Rightarrow> bool" where
  "ordered_inv hw q ef d (visited, cands, results) \<longleftrightarrow>
     search_inv hw q ef (visited, cands, results) \<and> is_heap maxCandidateHeap_Less results \<and>
     (\<exists>c \<in> set results. \<not> f_lt d (cand_Distance c))"

lemma push_result_ordered:
  assumes h: "is_heap maxCandidateHeap_Less results" and ne: "results \<noteq> []" and le: "length results \<le> ef"
    and nan: "\<forall>x \<in> insert c (set results). \<not> isNaN (cand_Distance x)"
    and best: "\<exists>x \<in> set results. \<not> f_lt d (cand_Distance x)"
  shows "is_heap maxCandidateHeap_Less (push_result ef c results) \<and>
    (\<exists>x \<in> set (push_result ef c results). \<not> f_lt d (cand_Distance x))"
proof (cases rule: push_result_cases [OF ne le, of c])
  case 1
  have "is_heap maxCandidateHeap_Less (heap_Push maxCandidateHeap_Less c results)"
    using nan by (intro max_heap.is_heap_Push [OF h]) auto
  with best 1 show ?thesis by auto
next
  case (2 x)
  let ?h = "heap_Push maxCandidateHeap_Less c results"
  let ?r = "push_result ef c results"
  have "is_heap maxCandidateHeap_Less ?h"
    using nan by (intro max_heap.is_heap_Push [OF h]) auto
  moreover have S: "set ?h \<subseteq> {c. \<not> isNaN (cand_Distance c)}" using nan by auto
  ultimately have pop: "is_heap maxCandidateHeap_Less ?r" "\<forall>y \<in> set ?h. \<not> maxCandidateHeap_Less y x"
    using max_heap.heap_Pop_correct [OF _ S 2(2)] by auto
  have sets: "insert c (set results) = insert x (set ?r)"
    using 2(3) by (metis set_mset_add_mset_insert set_mset_mset)
  have "length ?r = length results"
    using 2(3) by (metis add_left_imp_eq plus_1_eq_Suc size_add_mset size_mset)
  with ne have "?r \<noteq> []" by auto
  then obtain y where y: "y \<in> set ?r" by (metis hd_in_set)
  from best obtain c0 where c0: "c0 \<in> set results" "\<not> f_lt d (cand_Distance c0)" by blast
  show ?thesis
  proof (cases "c0 \<in> set ?r")
    case True
    with pop c0 show ?thesis by blast
  next
    case False
    with c0 sets have "x = c0" by auto
    moreover have "\<not> f_lt (cand_Distance x) (cand_Distance y)"
      using pop(2) y sets by (auto simp: maxCandidateHeap_Less_def)
    moreover have "\<not> isNaN (cand_Distance x)" using nan sets by auto
    ultimately have "\<not> f_lt d (cand_Distance y)"
      using c0(2) f_not_lt_trans by blast
    with pop y show ?thesis by blast
  qed
qed

lemma ordered_inv_visit:
  assumes "no_nan hw q" and "ordered_inv hw q ef d st"
  shows "ordered_inv hw q ef d (visit_neighbor hw q ef n st)"
proof -
  obtain visited cands results where st: "st = (visited, cands, results)" by (cases st)
  have inv: "search_inv hw q ef st" using assms(2) by (simp add: st)
  note inv' = search_inv_visit [OF inv, of n]
  show ?thesis
  proof (cases rule: visit_neighbor_cases [of n visited hw q ef cands results])
    case (near node c)
    have "genuine hw q c" using near by (simp add: genuine_def)
    with inv have "\<forall>x \<in> insert c (set results). \<not> isNaN (cand_Distance x)"
      using genuine_not_nan [OF assms(1)] by (auto simp: st list_all_iff)
    then have "is_heap maxCandidateHeap_Less (push_result ef c results) \<and>
        (\<exists>x \<in> set (push_result ef c results). \<not> f_lt d (cand_Distance x))"
      using assms(2) by (intro push_result_ordered) (simp_all add: st)
    with inv' near show ?thesis by (simp add: st)
  qed (use inv' assms(2) in \<open>auto simp: st\<close>)
qed

lemma ordered_inv_fold:
  "no_nan hw q \<Longrightarrow> ordered_inv hw q ef d st \<Longrightarrow> ordered_inv hw q ef d (fold (visit_neighbor hw q ef) ns st)"
  by (induction ns arbitrary: st) (simp_all add: ordered_inv_visit del: ordered_inv.simps)

lemma search_loop_ordered:
  fixes level :: nat
  assumes "no_nan hw q" and "ordered_inv hw q ef d (visited, cands, results)"
  defines "r \<equiv> search_loop hw q ef level (visited, cands, results)"
  shows "is_heap maxCandidateHeap_Less r \<and> (\<exists>c \<in> set r. \<not> f_lt d (cand_Distance c))"
  unfolding r_def
proof (rule search_loop_rule [where Inv = "ordered_inv hw q ef d"
      and Q = "\<lambda>r. is_heap maxCandidateHeap_Less r \<and> (\<exists>c \<in> set r. \<not> f_lt d (cand_Distance c))"])
  fix visited cands results c cands'
  assume "ordered_inv hw q ef d (visited, cands, results)"
    and "heap_Pop candidateHeap_Less cands = Some (c, cands')"
  then have "ordered_inv hw q ef d (visited, cands', results)"
    using search_inv_Pop by (metis ordered_inv.simps)
  then show "case mget (hw_nodes hw) (cand_ID c) of None \<Rightarrow> ordered_inv hw q ef d (visited, cands', results)
       | Some node \<Rightarrow> if level \<ge> length (node_Neighbors node) then ordered_inv hw q ef d (visited, cands', results)
         else ordered_inv hw q ef d (fold (visit_neighbor hw q ef) (node_Neighbors node ! level) (visited, cands', results))"
    using ordered_inv_fold [OF assms(1)] by (simp split: option.split del: ordered_inv.simps)
qed (use assms in auto)

lemma searchLayer_ordered:
  fixes level :: nat
  assumes "no_nan hw q" and e: "mget (hw_nodes hw) e = Some node" and "1 \<le> ef"
  defines "r \<equiv> searchLayer hw q e ef level"
  shows "sorted_wrt (\<lambda>x y. \<not> f_lt (cand_Distance y) (cand_Distance x)) r"
    and "\<not> f_lt (hw_distance hw q (node_Vector node)) (cand_Distance (hd r))"
proof -
  let ?d = "hw_distance hw q (node_Vector node)"
  let ?c = "\<lparr>cand_ID = e, cand_Distance = ?d\<rparr>"
  let ?l = "search_loop hw q ef level ([e], [?c], [?c])"
  have start: "ordered_inv hw q ef ?d ([e], [?c], [?c])"
    using assms by (simp add: genuine_def heap_on_def)
  have r: "r = heap_drain maxCandidateHeap_Less ?l"
    unfolding r_def by (rule searchLayer_start [OF e])
  have gen: "list_all (genuine hw q) r" "r \<noteq> []"
    unfolding r_def using searchLayer_facts(2,3) [OF e assms(3)] by auto
  then have S: "set ?l \<subseteq> {c. \<not> isNaN (cand_Distance c)}"
    using genuine_not_nan [OF assms(1)] by (auto simp: r list_all_iff set_heap_drain)
  note o = search_loop_ordered [OF assms(1) start, of level]
  show sorted: "sorted_wrt (\<lambda>x y. \<not> f_lt (cand_Distance y) (cand_Distance x)) r"
    using max_heap.heap_drain_correct [OF _ S] o by (simp add: r maxCandidateHeap_Less_def)
  obtain c where c: "c \<in> set r" "\<not> f_lt ?d (cand_Distance c)"
    using o by (auto simp: r set_heap_drain)
  have "\<not> f_lt (cand_Distance c) (cand_Distance (hd r))"
    using sorted c(1) gen(2) by (cases r) auto
  moreover have "\<not> isNaN (cand_Distance c)"
    using c(1) S by (auto simp: r set_heap_drain)
  ultimately show "\<not> f_lt ?d (cand_Distance (hd r))"
    using c(2) f_not_lt_trans by blast
qed

subsection \<open>Completeness\<close>

text \<open>The edges of a layer, between existing nodes.\<close>

definition layer_edge :: "HNSWWrapper \<Rightarrow> nat \<Rightarrow> uint64 \<Rightarrow> uint64 \<Rightarrow> bool" where
  "layer_edge hw level u v \<longleftrightarrow>
     (\<exists>node. mget (hw_nodes hw) u = Some node \<and> level < length (node_Neighbors node) \<and>
        v \<in> set (node_Neighbors node ! level)) \<and> mget (hw_nodes hw) v \<noteq> None"

abbreviation reachable :: "HNSWWrapper \<Rightarrow> nat \<Rightarrow> uint64 \<Rightarrow> uint64 \<Rightarrow> bool" where
  "reachable hw level \<equiv> (layer_edge hw level)\<^sup>*\<^sup>*"

definition node_ids :: "HNSWWrapper \<Rightarrow> uint64 set" where
  "node_ids hw = {v. mget (hw_nodes hw) v \<noteq> None}"

lemma node_ids_keys: "node_ids hw = set (mkeys (hw_nodes hw))"
  unfolding node_ids_def set_mkeys dom_def by simp

lemma card_node_ids: "wf_map (hw_nodes hw) \<Longrightarrow> card (node_ids hw) = length (hw_nodes hw)"
  by (metis node_ids_keys distinct_card length_map wf_map_def)

fun explore_inv :: "HNSWWrapper \<Rightarrow> float32 list \<Rightarrow> nat \<Rightarrow> nat \<Rightarrow> uint64 \<Rightarrow> uint64 set \<Rightarrow> search_state \<Rightarrow> bool" where
  "explore_inv hw q ef level e X (visited, cands, results) \<longleftrightarrow>
     search_inv hw q ef (visited, cands, results) \<and> e \<in> set visited \<and>
     cand_ID ` set results = set visited \<inter> node_ids hw \<and>
     (\<forall>v \<in> set visited \<inter> node_ids hw. reachable hw level e v) \<and>
     (\<forall>v \<in> set visited \<inter> node_ids hw. v \<in> X \<or> v \<in> cand_ID ` set cands \<or>
        (\<forall>w. layer_edge hw level v w \<longrightarrow> w \<in> set visited))"

lemma room_for_unvisited:
  assumes "search_inv hw q ef (visited, cands, results)" and "wf_map (hw_nodes hw)"
    and "length (hw_nodes hw) \<le> ef" and "n \<notin> set visited" and "n \<in> node_ids hw"
  shows "length results < ef"
proof -
  have "cand_ID ` set results \<subseteq> node_ids hw"
    using assms(1) by (auto simp: list_all_iff genuine_def node_ids_def)
  moreover have "n \<notin> cand_ID ` set results" using assms(1,4) by auto
  ultimately have "cand_ID ` set results \<subset> node_ids hw" using assms(5) by blast
  moreover have "finite (node_ids hw)" by (simp add: node_ids_keys)
  ultimately have "card (cand_ID ` set results) < card (node_ids hw)"
    by (rule psubset_card_mono [rotated])
  moreover have "card (cand_ID ` set results) = length results"
    using assms(1) by (metis distinct_card length_map list.set_map search_inv.simps)
  ultimately show ?thesis using assms(2,3) by (simp add: card_node_ids)
qed

lemma explore_inv_visit:
  assumes inv: "explore_inv hw q ef level e X st" and "wf_map (hw_nodes hw)"
    and "length (hw_nodes hw) \<le> ef" and reach: "n \<in> node_ids hw \<Longrightarrow> reachable hw level e n"
  shows "explore_inv hw q ef level e X (visit_neighbor hw q ef n st)"
proof -
  obtain visited cands results where st: "st = (visited, cands, results)" by (cases st)
  have sinv: "search_inv hw q ef (visited, cands, results)" using inv by (simp add: st del: search_inv.simps)
  note sinv' = search_inv_visit [OF sinv, of n]
  show ?thesis
  proof (cases rule: visit_neighbor_cases [of n visited hw q ef cands results])
    case seen
    with inv show ?thesis by (simp add: st)
  next
    case gone
    then have "n \<notin> node_ids hw" by (simp add: node_ids_def)
    with inv sinv' gone show ?thesis by (auto simp: st simp del: search_inv.simps)
  next
    case (far node)
    then have "length results < ef"
      by (intro room_for_unvisited [OF sinv assms(2,3)]) (auto simp: node_ids_def)
    with far show ?thesis by simp
  next
    case (near node c)
    have n: "n \<in> node_ids hw" using near by (simp add: node_ids_def)
    have "length results < ef"
      using near n by (intro room_for_unvisited [OF sinv assms(2,3)])
    then have "push_result ef c results = heap_Push maxCandidateHeap_Less c results"
      by (simp add: push_result_def Let_def)
    with inv sinv' near n reach show ?thesis by (auto simp: st simp del: search_inv.simps)
  qed
qed

lemma explore_inv_fold:
  assumes "explore_inv hw q ef level e X st" and "wf_map (hw_nodes hw)"
    and "length (hw_nodes hw) \<le> ef" and "\<forall>n \<in> set ns. n \<in> node_ids hw \<longrightarrow> reachable hw level e n"
  shows "explore_inv hw q ef level e X (fold (visit_neighbor hw q ef) ns st) \<and>
    set ns \<union> set (fst st) \<subseteq> set (fst (fold (visit_neighbor hw q ef) ns st))"
  using assms(1,4)
proof (induction ns arbitrary: st)
  case Nil
  then show ?case by simp
next
  case (Cons n ns)
  have "insert n (set (fst st)) \<subseteq> set (fst (visit_neighbor hw q ef n st))"
    by (cases st, cases rule: visit_neighbor_cases [of n "fst st" hw q ef "fst (snd st)" "snd (snd st)"]) auto
  moreover have "explore_inv hw q ef level e X (visit_neighbor hw q ef n st)"
    using Cons.prems assms(2,3) by (intro explore_inv_visit) auto
  ultimately show ?case using Cons.IH [of "visit_neighbor hw q ef n st"] Cons.prems(2) by auto
qed

lemma explore_inv_expanded:
  assumes "explore_inv hw q ef level e {u} st" and "\<And>w. layer_edge hw level u w \<Longrightarrow> w \<in> set (fst st)"
  shows "explore_inv hw q ef level e {} st"
proof -
  obtain visited cands results where st: "st = (visited, cands, results)" by (cases st)
  have "v \<in> cand_ID ` set cands \<or> (\<forall>w. layer_edge hw level v w \<longrightarrow> w \<in> set visited)"
    if "v \<in> set visited \<inter> node_ids hw" for v
    using assms that by (cases "v = u") (auto simp: st simp del: search_inv.simps)
  with assms(1) show ?thesis by (simp add: st del: search_inv.simps)
qed

lemma explore_inv_round:
  assumes inv: "explore_inv hw q ef level e {} (visited, cands, results)"
    and wf: "wf_map (hw_nodes hw)" "length (hw_nodes hw) \<le> ef"
    and pop: "heap_Pop candidateHeap_Less cands = Some (c, cands')"
  shows "case mget (hw_nodes hw) (cand_ID c) of None \<Rightarrow> explore_inv hw q ef level e {} (visited, cands', results)
     | Some node \<Rightarrow> if level \<ge> length (node_Neighbors node) then explore_inv hw q ef level e {} (visited, cands', results)
       else explore_inv hw q ef level e {} (fold (visit_neighbor hw q ef) (node_Neighbors node ! level) (visited, cands', results))"
proof -
  let ?u = "cand_ID c"
  have sinv: "search_inv hw q ef (visited, cands', results)" "genuine hw q c" "?u \<in> set visited"
    using search_inv_Pop [OF _ pop, of hw q ef visited results] inv by (auto simp del: search_inv.simps)
  then obtain node where u: "mget (hw_nodes hw) ?u = Some node" by (auto simp: genuine_def)
  have ex: "explore_inv hw q ef level e {?u} (visited, cands', results)"
    using inv sinv(1) set_Pop [OF pop] by (auto simp del: search_inv.simps)
  show ?thesis
  proof (cases "level \<ge> length (node_Neighbors node)")
    case True
    then have "\<not> layer_edge hw level ?u w" for w by (auto simp: layer_edge_def u)
    with explore_inv_expanded [OF ex] True u show ?thesis by (simp del: explore_inv.simps)
  next
    case False
    let ?st = "fold (visit_neighbor hw q ef) (node_Neighbors node ! level) (visited, cands', results)"
    have "reachable hw level e ?u" using inv sinv(3) u by (auto simp: node_ids_def)
    then have "\<forall>n \<in> set (node_Neighbors node ! level). n \<in> node_ids hw \<longrightarrow> reachable hw level e n"
      using u False by (auto simp: layer_edge_def node_ids_def intro: rtranclp.rtrancl_into_rtrancl)
    from explore_inv_fold [OF ex wf this]
    have st: "explore_inv hw q ef level e {?u} ?st" "set (node_Neighbors node ! level) \<subseteq> set (fst ?st)"
      by auto
    have "w \<in> set (fst ?st)" if "layer_edge hw level ?u w" for w
      using that st(2) u by (auto simp: layer_edge_def)
    from explore_inv_expanded [OF st(1) this] False u show ?thesis by (simp del: explore_inv.simps)
  qed
qed

lemma reachable_node: "reachable hw level e v \<Longrightarrow> e \<in> node_ids hw \<Longrightarrow> v \<in> node_ids hw"
  by (induction rule: rtranclp_induct) (auto simp: layer_edge_def node_ids_def)

lemma searchLayer_reaches:
  assumes e: "mget (hw_nodes hw) e = Some node" and wf: "wf_map (hw_nodes hw)" "length (hw_nodes hw) \<le> ef"
  shows "cand_ID ` set (searchLayer hw q e ef level) = {v. reachable hw level e v}"
proof -
  let ?c = "\<lparr>cand_ID = e, cand_Distance = hw_distance hw q (node_Vector node)\<rparr>"
  have e_id: "e \<in> node_ids hw" using e by (simp add: node_ids_def)
  have "hw_nodes hw \<noteq> []" using e by auto
  then have ef: "1 \<le> ef" using wf(2) by (cases "hw_nodes hw") auto
  have "cand_ID ` set (search_loop hw q ef level ([e], [?c], [?c])) = {v. reachable hw level e v}"
  proof (rule search_loop_rule [where Inv = "explore_inv hw q ef level e {}"
        and Q = "\<lambda>r. cand_ID ` set r = {v. reachable hw level e v}"])
    show "explore_inv hw q ef level e {} ([e], [?c], [?c])"
      using e ef e_id by (auto simp: genuine_def)
  next
    fix visited results
    assume inv: "explore_inv hw q ef level e {} (visited, [], results)"
    have "v \<in> set visited" if "reachable hw level e v" for v
      using that
    proof (induction rule: rtranclp_induct)
      case base
      show ?case using inv by simp
    next
      case (step v w)
      then have "v \<in> node_ids hw" by (auto simp: layer_edge_def node_ids_def)
      with step inv show ?case by auto
    qed
    moreover have "cand_ID ` set results = set visited \<inter> node_ids hw"
      "\<forall>v \<in> set visited \<inter> node_ids hw. reachable hw level e v"
      using inv by simp_all
    ultimately show "cand_ID ` set results = {v. reachable hw level e v}"
      using reachable_node [OF _ e_id] by blast
  next
    fix visited cands results c cands'
    assume inv: "explore_inv hw q ef level e {} (visited, cands, results)" and full: "ef \<le> length results"
    have sub: "cand_ID ` set results \<subseteq> node_ids hw" using inv by auto
    have "card (cand_ID ` set results) = length results"
      using inv distinct_card [of "map cand_ID results"] by simp
    then have "cand_ID ` set results = node_ids hw"
      using full wf card_node_ids [OF wf(1)] sub
      by (intro card_seteq) (auto simp: node_ids_keys)
    moreover have "\<forall>v \<in> cand_ID ` set results. reachable hw level e v" using inv by simp
    ultimately show "cand_ID ` set results = {v. reachable hw level e v}"
      using reachable_node [OF _ e_id] by blast
  qed (rule explore_inv_round [OF _ wf])
  then show ?thesis by (simp add: searchLayer_start [OF e] set_heap_drain)
qed

end
