(* ===== verification/HNSW_Index.thy ===== *)
theory HNSW_Index
  imports HNSW_Search
begin

section \<open>Correctness of the vector index\<close>

text \<open>
  The invariant \<open>hnsw_ok\<close> of the index and its preservation by insertion, batch insertion and
  deletion; the contents of an index as a map from ids to vectors; soundness of the search and
  its exactness on small indexes; the interface \<open>vector_index\<close> that a collection uses.
\<close>

text \<open>What never changes of a node once it is in the index.\<close>

definition node_frame :: "hnswNode \<Rightarrow> uint64 \<times> float32 list \<times> int \<times> nat" where
  "node_frame n = (node_ID n, node_Vector n, node_Level n, length (node_Neighbors n))"

definition same_frame :: "HNSWWrapper \<Rightarrow> HNSWWrapper \<Rightarrow> bool" where
  "same_frame hw hw' \<longleftrightarrow> hw'\<lparr>hw_nodes := []\<rparr> = hw\<lparr>hw_nodes := []\<rparr> \<and>
     (wf_map (hw_nodes hw) \<longrightarrow> wf_map (hw_nodes hw')) \<and>
     (\<forall>v. map_option node_frame (mget (hw_nodes hw') v) = map_option node_frame (mget (hw_nodes hw) v))"

definition node_degrees_ok :: "nat \<Rightarrow> hnswNode \<Rightarrow> bool" where
  "node_degrees_ok m n \<longleftrightarrow> list_all (\<lambda>ns. length ns \<le> m) (node_Neighbors n)"

definition degrees_ok :: "HNSWWrapper \<Rightarrow> bool" where
  "degrees_ok hw \<longleftrightarrow> (\<forall>v n. mget (hw_nodes hw) v = Some n \<longrightarrow> node_degrees_ok (hw_M hw * 2) n)"

text \<open>
  The invariant: the index has an entry point exactly when it has nodes; the entry point is a node
  of the highest level; every node has the index's dimension, one neighbour list for each of its
  levels, and at most \<open>2 * M\<close> neighbours in each.
\<close>

definition node_ok :: "HNSWWrapper \<Rightarrow> uint64 \<Rightarrow> hnswNode \<Rightarrow> bool" where
  "node_ok hw v n \<longleftrightarrow> node_ID n = v \<and> of_nat (length (node_Vector n)) = hw_dimensions hw \<and>
     0 \<le> node_Level n \<and> node_Level n \<le> hw_MaxLevel hw \<and>
     length (node_Neighbors n) = nat (node_Level n) + 1"

definition entry_ok :: "HNSWWrapper \<Rightarrow> bool" where
  "entry_ok hw \<longleftrightarrow> (hw_hasEntry hw \<longleftrightarrow> hw_nodes hw \<noteq> []) \<and>
     (hw_hasEntry hw \<longrightarrow> (\<exists>n. mget (hw_nodes hw) (hw_entryPoint hw) = Some n \<and> node_Level n = hw_MaxLevel hw))"

definition hnsw_ok :: "HNSWWrapper \<Rightarrow> bool" where
  "hnsw_ok hw \<longleftrightarrow> wf_map (hw_nodes hw) \<and> entry_ok hw \<and> degrees_ok hw \<and>
     1 \<le> hw_EfConstruction hw \<and> 1 \<le> hw_EfSearch hw \<and>
     (\<forall>v n. mget (hw_nodes hw) v = Some n \<longrightarrow> node_ok hw v n)"

lemma hnsw_ok_New: "hnsw_ok (NewHNSWWrapper dims metric)"
  by (simp add: hnsw_ok_def NewHNSWWrapper_def entry_ok_def degrees_ok_def)

subsection \<open>Changes of neighbour lists keep the frame\<close>

lemma same_frame_refl [simp]: "same_frame hw hw"
  by (simp add: same_frame_def)

lemma same_frame_trans: "same_frame a b \<Longrightarrow> same_frame b c \<Longrightarrow> same_frame a c"
  by (simp add: same_frame_def)

lemma same_frame_fields:
  assumes "same_frame hw hw'"
  shows "hw_M hw' = hw_M hw" "hw_dimensions hw' = hw_dimensions hw" "hw_MaxLevel hw' = hw_MaxLevel hw"
    "hw_entryPoint hw' = hw_entryPoint hw" "hw_hasEntry hw' = hw_hasEntry hw" "hw_metric hw' = hw_metric hw"
    "hw_EfConstruction hw' = hw_EfConstruction hw" "hw_EfSearch hw' = hw_EfSearch hw"
proof -
  have eq: "hw'\<lparr>hw_nodes := []\<rparr> = hw\<lparr>hw_nodes := []\<rparr>" using assms by (simp add: same_frame_def)
  show "hw_M hw' = hw_M hw" "hw_dimensions hw' = hw_dimensions hw" "hw_MaxLevel hw' = hw_MaxLevel hw"
    "hw_entryPoint hw' = hw_entryPoint hw" "hw_hasEntry hw' = hw_hasEntry hw" "hw_metric hw' = hw_metric hw"
    "hw_EfConstruction hw' = hw_EfConstruction hw" "hw_EfSearch hw' = hw_EfSearch hw"
    using arg_cong [OF eq, of hw_M] arg_cong [OF eq, of hw_dimensions] arg_cong [OF eq, of hw_MaxLevel]
      arg_cong [OF eq, of hw_entryPoint] arg_cong [OF eq, of hw_hasEntry] arg_cong [OF eq, of hw_metric]
      arg_cong [OF eq, of hw_EfConstruction] arg_cong [OF eq, of hw_EfSearch]
    by simp_all
qed

lemma same_frame_node:
  assumes "same_frame hw hw'" and "mget (hw_nodes hw') v = Some n'"
  obtains n where "mget (hw_nodes hw) v = Some n" "node_frame n = node_frame n'"
proof -
  have "map_option node_frame (mget (hw_nodes hw) v) = Some (node_frame n')"
    using assms unfolding same_frame_def by (metis option.simps(9))
  with that show thesis by auto
qed

lemma same_frame_ids: "same_frame hw hw' \<Longrightarrow> node_ids hw' = node_ids hw"
  unfolding same_frame_def node_ids_def by (metis map_option_is_None)

lemma frame_level:
  assumes "same_frame hw hw'" and "mget (hw_nodes hw) v = Some n"
  shows "\<exists>n'. mget (hw_nodes hw') v = Some n' \<and> node_Level n' = node_Level n"
proof -
  have "v \<in> node_ids hw'" using assms(2) same_frame_ids [OF assms(1)] by (simp add: node_ids_def)
  then obtain n' where n': "mget (hw_nodes hw') v = Some n'" by (auto simp: node_ids_def)
  obtain m where "mget (hw_nodes hw) v = Some m" "node_frame m = node_frame n'" using same_frame_node [OF assms(1) n'] .
  with n' assms(2) show ?thesis by (simp add: node_frame_def)
qed

lemma same_frame_set_neighbors:
  assumes "mget (hw_nodes hw) nid = Some node"
  shows "same_frame hw (set_neighbors nid l ns node hw)"
  using assms by (auto simp: same_frame_def set_neighbors_def node_frame_def)

lemma node_degrees_update:
  "node_degrees_ok m node \<Longrightarrow> length ns \<le> m \<Longrightarrow> node_degrees_ok m (node\<lparr>node_Neighbors := (node_Neighbors node)[l := ns]\<rparr>)"
  unfolding node_degrees_ok_def by (auto simp: list_all_iff dest!: subsetD [OF set_update_subset_insert])

lemma degrees_set_neighbors:
  assumes "mget (hw_nodes hw) nid = Some node" and "degrees_ok hw" and "length ns \<le> hw_M hw * 2"
  shows "degrees_ok (set_neighbors nid l ns node hw)"
  using assms node_degrees_update [of "hw_M hw * 2" node ns l]
  by (auto simp: degrees_ok_def set_neighbors_def)

lemma pruneConnections_frame: "same_frame hw (pruneConnections nid l hw)"
  using same_frame_set_neighbors by (simp add: pruneConnections_def Let_def split: option.split)

lemma length_selectNeighbors: "length (selectNeighbors cs m) \<le> m"
  by (simp add: selectNeighbors_def)

lemma set_selectNeighbors: "set (selectNeighbors cs m) \<subseteq> set cs"
  by (auto simp: selectNeighbors_def dest: in_set_takeD)

lemma pruneConnections_node:
  assumes "mget (hw_nodes hw) nid = Some node" and "l < length (node_Neighbors node)"
  obtains ms where "length ms \<le> hw_M hw" "pruneConnections nid l hw = set_neighbors nid l ms node hw"
proof -
  obtain cs where "pruneConnections nid l hw =
      set_neighbors nid l (map cand_ID (selectNeighbors cs (hw_M hw))) node hw"
    using assms by (simp add: pruneConnections_def Let_def)
  with that show thesis using length_selectNeighbors by (metis length_map)
qed

lemma addConnection_frame: "same_frame hw (addConnection s t l hw)"
  using same_frame_set_neighbors [of hw s] pruneConnections_frame same_frame_trans
  by (auto simp: addConnection_def Let_def split: option.split) metis

text \<open>The list that overflows is cut to \<open>M\<close> by the prune that follows.\<close>

lemma addConnection_degrees:
  assumes "degrees_ok hw"
  shows "degrees_ok (addConnection s t l hw)"
proof (cases "mget (hw_nodes hw) s")
  case None
  with assms show ?thesis by (simp add: addConnection_def)
next
  case (Some source)
  let ?ns = "node_Neighbors source ! l @ [t]"
  let ?hw = "set_neighbors s l ?ns source hw"
  let ?source = "source\<lparr>node_Neighbors := (node_Neighbors source)[l := ?ns]\<rparr>"
  show ?thesis
  proof (cases "l \<ge> length (node_Neighbors source) \<or> t \<in> set (node_Neighbors source ! l)")
    case True
    with assms Some show ?thesis by (auto simp: addConnection_def)
  next
    case l: False
    show ?thesis
    proof (cases "length ?ns > hw_M hw * 2")
      case False
      with l Some show ?thesis
        using degrees_set_neighbors [OF Some assms, of ?ns l] by (simp add: addConnection_def Let_def set_neighbors_def)
    next
      case True
      then have a: "addConnection s t l hw = pruneConnections s l ?hw"
        using l Some by (simp add: addConnection_def Let_def set_neighbors_def)
      obtain ms where ms: "length ms \<le> hw_M hw" and p: "pruneConnections s l ?hw = set_neighbors s l ms ?source ?hw"
        using pruneConnections_node [of ?hw s ?source l] l by (auto simp: set_neighbors_def)
      have "set_neighbors s l ms ?source ?hw = set_neighbors s l ms source hw"
        by (simp add: set_neighbors_def)
      moreover have "degrees_ok (set_neighbors s l ms source hw)"
        using ms by (intro degrees_set_neighbors [OF Some assms]) simp
      ultimately show ?thesis using a p by simp
    qed
  qed
qed

lemma removeConnection_frame: "same_frame hw (removeConnection s t l hw)"
  using same_frame_set_neighbors by (simp add: removeConnection_def split: option.split)

lemma removeConnection_degrees:
  assumes "degrees_ok hw"
  shows "degrees_ok (removeConnection s t l hw)"
proof (cases "mget (hw_nodes hw) s")
  case (Some source)
  then have "node_degrees_ok (hw_M hw * 2) source" using assms by (simp add: degrees_ok_def)
  then have "length (filter (\<lambda>n. n \<noteq> t) (node_Neighbors source ! l)) \<le> hw_M hw * 2"
    if "l < length (node_Neighbors source)"
    using that le_trans [OF length_filter_le] by (auto simp: node_degrees_ok_def list_all_length)
  with Some assms show ?thesis
    using degrees_set_neighbors [OF Some assms] by (simp add: removeConnection_def)
qed (use assms in \<open>simp add: removeConnection_def\<close>)

text \<open>Any sequence of such changes.\<close>

lemma fold_frame:
  assumes "\<And>x hw. same_frame hw (f x hw) \<and> (degrees_ok hw \<longrightarrow> degrees_ok (f x hw))"
  shows "same_frame hw (fold f xs hw) \<and> (degrees_ok hw \<longrightarrow> degrees_ok (fold f xs hw))"
proof (induction xs arbitrary: hw)
  case (Cons x xs)
  with assms [of hw x] show ?case using same_frame_trans by (metis fold_simps(2))
qed simp

lemmas connection_frames = addConnection_frame addConnection_degrees removeConnection_frame removeConnection_degrees

subsection \<open>Insertion\<close>

text \<open>The vectors an index holds: what \<^verbatim>\<open>GetVectorByID\<close> returns.\<close>

definition vector_of :: "HNSWWrapper \<Rightarrow> uint64 \<Rightarrow> float32 list option" where
  "vector_of hw v = map_option node_Vector (mget (hw_nodes hw) v)"

lemma same_frame_vector: "same_frame hw hw' \<Longrightarrow> vector_of hw' v = vector_of hw v"
proof -
  assume "same_frame hw hw'"
  then have "map_option (fst \<circ> snd) (map_option node_frame (mget (hw_nodes hw') v)) =
      map_option (fst \<circ> snd) (map_option node_frame (mget (hw_nodes hw) v))"
    by (simp add: same_frame_def)
  then show ?thesis by (simp add: vector_of_def option.map_comp comp_def node_frame_def)
qed

lemma searchLayer_ids:
  assumes "e \<in> node_ids hw" and "1 \<le> ef" and "c \<in> set (searchLayer hw q e ef l)"
  shows "cand_ID c \<in> node_ids hw"
proof -
  obtain node where "mget (hw_nodes hw) e = Some node" using assms(1) by (auto simp: node_ids_def)
  from searchLayer_facts(2) [OF this assms(2), of q l] assms(3) show ?thesis
    by (auto simp: list_all_iff genuine_def node_ids_def)
qed

lemma searchLayer_nonempty: "e \<in> node_ids hw \<Longrightarrow> 1 \<le> ef \<Longrightarrow> searchLayer hw q e ef l \<noteq> []"
  using searchLayer_facts(3) by (auto simp: node_ids_def)

lemma descend_ok: "ep \<in> node_ids hw \<Longrightarrow> \<exists>ep'. descend hw q ls ep = Inr ep' \<and> ep' \<in> node_ids hw"
proof (induction ls arbitrary: ep)
  case (Cons l ls)
  obtain c cs where c: "searchLayer hw q ep 1 (nat l) = c # cs"
    using searchLayer_nonempty [OF Cons.prems, of 1 q "nat l"] by (auto simp: neq_Nil_conv)
  then have "cand_ID c \<in> node_ids hw" using searchLayer_ids [OF Cons.prems, of 1 c q "nat l"] by simp
  with Cons.IH c show ?case by simp
qed simp

fun insert_inv :: "HNSWWrapper \<Rightarrow> nat \<Rightarrow> HNSWWrapper \<times> uint64 \<times> uint64 list list \<Rightarrow> bool" where
  "insert_inv hw0 k (hw, ep, ns) \<longleftrightarrow>
     same_frame hw0 hw \<and> degrees_ok hw \<and> ep \<in> node_ids hw0 \<and> length ns = k \<and>
     list_all (\<lambda>xs. length xs \<le> hw_M hw0 * 2) ns"

lemma insert_level_inv:
  assumes "1 \<le> hw_EfConstruction hw0" and "insert_inv hw0 k st"
  shows "insert_inv hw0 k (insert_level v q l st)"
proof -
  obtain hw ep ns where st: "st = (hw, ep, ns)" by (cases st)
  have inv: "same_frame hw0 hw" "degrees_ok hw" "ep \<in> node_ids hw" "length ns = k"
    "list_all (\<lambda>xs. length xs \<le> hw_M hw0 * 2) ns"
    using assms(2) same_frame_ids by (auto simp: st)
  define nb where "nb = searchLayer hw q ep (hw_EfConstruction hw) (nat l)"
  define sel where "sel = selectNeighbors nb (hw_M hw)"
  define hw' where "hw' = fold (\<lambda>n hw. addConnection (cand_ID n) v (nat l) hw) sel hw"
  have frame: "same_frame hw hw'" "degrees_ok hw'"
    using fold_frame [of "\<lambda>n hw. addConnection (cand_ID n) v (nat l) hw" hw sel] connection_frames inv(2)
    by (auto simp: hw'_def)
  have ef: "1 \<le> hw_EfConstruction hw" using assms(1) same_frame_fields(7) [OF inv(1)] by simp
  have ids: "cand_ID (nb ! 0) \<in> node_ids hw" if "nb \<noteq> []"
    using searchLayer_ids [OF inv(3) ef, of "nb ! 0" q "nat l"] that by (auto simp: nb_def)
  have "length (map cand_ID sel) \<le> hw_M hw0 * 2"
    using length_selectNeighbors [of nb "hw_M hw"] same_frame_fields(1) [OF inv(1)] by (simp add: sel_def)
  then have "list_all (\<lambda>xs. length xs \<le> hw_M hw0 * 2) (ns[nat l := map cand_ID sel])"
    using inv(5) by (auto simp: list_all_iff dest!: subsetD [OF set_update_subset_insert])
  moreover have "insert_level v q l st =
      (hw', if length nb > 0 then cand_ID (nb ! 0) else ep, ns[nat l := map cand_ID sel])"
    by (simp add: st insert_level_def nb_def sel_def hw'_def Let_def)
  ultimately show ?thesis
    using inv frame ids same_frame_trans [OF inv(1) frame(1)] same_frame_ids [OF inv(1)] by auto
qed

lemma insert_levels_inv:
  "1 \<le> hw_EfConstruction hw0 \<Longrightarrow> insert_inv hw0 k st \<Longrightarrow> insert_inv hw0 k (fold (insert_level v q) ls st)"
  by (induction ls arbitrary: st) (simp_all add: insert_level_inv del: insert_inv.simps)

lemma addUnlocked_rejects:
  "of_nat (length vector) \<noteq> hw_dimensions hw \<Longrightarrow> addUnlocked rnd v vector hw = (hw, Some DimensionMismatch)"
  "of_nat (length vector) = hw_dimensions hw \<Longrightarrow> v \<in> node_ids hw \<Longrightarrow>
   addUnlocked rnd v vector hw = (hw, Some VectorExists)"
  by (auto simp: addUnlocked_def node_ids_def)

lemma addUnlocked_shape:
  assumes "hnsw_ok hw" and dim: "of_nat (length vector) = hw_dimensions hw" and fresh: "v \<notin> node_ids hw"
  obtains hw' ns where "same_frame hw hw'" "degrees_ok hw'" "length ns = randomLevel rnd + 1"
    "list_all (\<lambda>xs. length xs \<le> hw_M hw * 2) ns"
    "addUnlocked rnd v vector hw =
      (let level = int (randomLevel rnd);
           top = (\<not> hw_hasEntry hw \<or> level > hw_MaxLevel hw)
       in hw'\<lparr>hw_nodes := mput v \<lparr>node_ID = v, node_Vector = vector, node_Level = level, node_Neighbors = ns\<rparr>
               (hw_nodes hw'),
             hw_entryPoint := (if top then v else hw_entryPoint hw), hw_hasEntry := True,
             hw_MaxLevel := (if top then level else hw_MaxLevel hw), hw_dirty := True\<rparr>, None)"
proof (cases "hw_hasEntry hw")
  case False
  show thesis
    by (rule that [of hw "replicate (randomLevel rnd + 1) []"])
      (use assms False in \<open>auto simp: addUnlocked_def node_ids_def hnsw_ok_def Let_def list_all_iff simp del: replicate_Suc\<close>)
next
  case True
  let ?level = "int (randomLevel rnd)"
  let ?ns = "replicate (randomLevel rnd + 1) []"
  have ep: "hw_entryPoint hw \<in> node_ids hw"
    using assms(1) True by (auto simp: hnsw_ok_def entry_ok_def node_ids_def)
  obtain ep where d: "descend hw vector (rev [?level + 1..hw_MaxLevel hw]) (hw_entryPoint hw) = Inr ep"
    and e: "ep \<in> node_ids hw"
    using descend_ok [OF ep] by metis
  obtain hw' ep' ns where f: "fold (insert_level v vector) (rev [0..min ?level (hw_MaxLevel hw)]) (hw, ep, ?ns) =
      (hw', ep', ns)" by (metis prod_cases3)
  have "insert_inv hw (randomLevel rnd + 1) (hw, ep, ?ns)"
    using assms(1) e by (simp add: hnsw_ok_def list_all_iff)
  from insert_levels_inv [OF _ this, of v vector "rev [0..min ?level (hw_MaxLevel hw)]"] assms(1)
  have inv: "insert_inv hw (randomLevel rnd + 1) (hw', ep', ns)"
    unfolding f hnsw_ok_def by blast
  then have fr: "same_frame hw hw'" by simp
  show thesis
    by (rule that [of hw' ns])
      (use inv fresh dim True d f same_frame_fields [OF fr] in
        \<open>auto simp: addUnlocked_def node_ids_def Let_def simp del: replicate_Suc\<close>)
qed

lemma frame_node_ok:
  assumes "same_frame hw hw'" and "\<forall>v n. mget (hw_nodes hw) v = Some n \<longrightarrow> node_ok hw v n"
    and "mget (hw_nodes hw') v = Some n'"
  shows "node_ok hw v n'"
proof -
  obtain n where n: "mget (hw_nodes hw) v = Some n" "node_frame n = node_frame n'"
    using same_frame_node [OF assms(1,3)] .
  with assms(2) have "node_ok hw v n" by blast
  with n(2) show ?thesis by (simp add: node_ok_def node_frame_def)
qed

lemma mput_not_Nil [simp]: "mput k v m \<noteq> []"
  by (metis list.simps(8) mget_mput option.distinct(1) map_of.simps(1))

lemma addUnlocked_ok:
  assumes ok: "hnsw_ok hw" and dim: "of_nat (length vector) = hw_dimensions hw" and fresh: "v \<notin> node_ids hw"
  shows "snd (addUnlocked rnd v vector hw) = None \<and> hnsw_ok (fst (addUnlocked rnd v vector hw)) \<and>
    (\<forall>w. vector_of (fst (addUnlocked rnd v vector hw)) w = (if w = v then Some vector else vector_of hw w)) \<and>
    hw_dimensions (fst (addUnlocked rnd v vector hw)) = hw_dimensions hw"
proof -
  obtain hw' ns where fr: "same_frame hw hw'" and deg: "degrees_ok hw'"
    and ns: "length ns = randomLevel rnd + 1" "list_all (\<lambda>xs. length xs \<le> hw_M hw * 2) ns"
    and r: "addUnlocked rnd v vector hw =
      (let level = int (randomLevel rnd);
           top = (\<not> hw_hasEntry hw \<or> level > hw_MaxLevel hw)
       in hw'\<lparr>hw_nodes := mput v \<lparr>node_ID = v, node_Vector = vector, node_Level = level, node_Neighbors = ns\<rparr>
               (hw_nodes hw'),
             hw_entryPoint := (if top then v else hw_entryPoint hw), hw_hasEntry := True,
             hw_MaxLevel := (if top then level else hw_MaxLevel hw), hw_dirty := True\<rparr>, None)"
    by (rule addUnlocked_shape [OF assms, of rnd])
  let ?r = "fst (addUnlocked rnd v vector hw)"
  note fields = same_frame_fields [OF fr]
  have nodes: "mget (hw_nodes ?r) w =
      (if w = v then Some \<lparr>node_ID = v, node_Vector = vector, node_Level = int (randomLevel rnd), node_Neighbors = ns\<rparr>
       else mget (hw_nodes hw') w)" for w
    by (simp add: r Let_def)
  have old: "node_ok hw w n" if "mget (hw_nodes hw') w = Some n" for w n
    using frame_node_ok [OF fr _ that] ok by (simp add: hnsw_ok_def)
  have empty: "mget (hw_nodes hw') w = None" if "\<not> hw_hasEntry hw" for w
    using same_frame_ids [OF fr] that ok
    by (auto simp: node_ids_def hnsw_ok_def entry_ok_def)
  have "node_ok ?r w n" if "mget (hw_nodes ?r) w = Some n" for w n
    using that old [of w n] empty [of w] dim ns(1) fields
    by (auto simp: nodes r Let_def node_ok_def split: if_splits)
  moreover have "degrees_ok ?r"
    using deg ns(2) fields by (auto simp: degrees_ok_def r Let_def node_degrees_ok_def split: if_splits)
  moreover have "entry_ok ?r"
  proof (cases "hw_hasEntry hw")
    case False
    then show ?thesis by (simp add: entry_ok_def r Let_def)
  next
    case True
    then obtain n where "mget (hw_nodes hw) (hw_entryPoint hw) = Some n" "node_Level n = hw_MaxLevel hw"
      using ok by (auto simp: hnsw_ok_def entry_ok_def)
    with frame_level [OF fr this(1)] fresh show ?thesis using True by (auto simp: entry_ok_def r Let_def node_ids_def)
  qed
  moreover have "wf_map (hw_nodes ?r)" "1 \<le> hw_EfConstruction ?r" "1 \<le> hw_EfSearch ?r"
    "hw_dimensions ?r = hw_dimensions hw"
    using ok fr fields by (auto simp: r Let_def hnsw_ok_def same_frame_def)
  moreover have "vector_of ?r w = (if w = v then Some vector else vector_of hw w)" for w
    using same_frame_vector [OF fr, of w] by (simp add: vector_of_def nodes)
  ultimately show ?thesis by (simp add: hnsw_ok_def r Let_def)
qed

text \<open>A batch inserts the items one after the other and skips the ones an insertion rejects.\<close>

definition spec_insert :: "uint32 \<Rightarrow> uint64 \<times> float32 list \<Rightarrow> (uint64 \<rightharpoonup> float32 list) \<Rightarrow> (uint64 \<rightharpoonup> float32 list)" where
  "spec_insert dims item V =
     (if of_nat (length (snd item)) = dims \<and> V (fst item) = None then V(fst item \<mapsto> snd item) else V)"

lemma node_ids_vector: "v \<in> node_ids hw \<longleftrightarrow> vector_of hw v \<noteq> None"
  by (auto simp: node_ids_def vector_of_def)

lemma addUnlocked_vectors:
  assumes "hnsw_ok hw"
  shows "hnsw_ok (fst (addUnlocked rnd v vec hw)) \<and>
    hw_dimensions (fst (addUnlocked rnd v vec hw)) = hw_dimensions hw \<and>
    vector_of (fst (addUnlocked rnd v vec hw)) = spec_insert (hw_dimensions hw) (v, vec) (vector_of hw) \<and>
    snd (addUnlocked rnd v vec hw) \<in> {None, Some DimensionMismatch, Some VectorExists}"
proof (cases "of_nat (length vec) = hw_dimensions hw \<and> v \<notin> node_ids hw")
  case True
  with addUnlocked_ok [OF assms, of vec v rnd] show ?thesis
    by (auto simp: spec_insert_def node_ids_vector fun_eq_iff)
next
  case False
  with assms show ?thesis
    by (cases "of_nat (length vec) = hw_dimensions hw")
      (auto simp: spec_insert_def node_ids_vector addUnlocked_rejects)
qed

lemma hw_BatchAdd_vectors:
  assumes "hnsw_ok hw"
  shows "snd (hw_BatchAdd rnds items hw) = None \<and> hnsw_ok (fst (hw_BatchAdd rnds items hw)) \<and>
    vector_of (fst (hw_BatchAdd rnds items hw)) = fold (spec_insert (hw_dimensions hw)) items (vector_of hw) \<and>
    hw_dimensions (fst (hw_BatchAdd rnds items hw)) = hw_dimensions hw"
  using assms
proof (induction items arbitrary: hw rnds)
  case (Cons item items)
  obtain v vec where item: "item = (v, vec)" by (cases item)
  note a = addUnlocked_vectors [OF Cons.prems, of "rnds 0" v vec]
  obtain hw' err where r: "addUnlocked (rnds 0) v vec hw = (hw', err)" by (cases "addUnlocked (rnds 0) v vec hw")
  have "hw_BatchAdd rnds (item # items) hw = hw_BatchAdd (\<lambda>i. rnds (Suc i)) items hw'"
    using a by (auto simp: item r)
  with Cons.IH [of hw' "\<lambda>i. rnds (Suc i)"] a show ?case by (simp add: item r)
qed simp

subsection \<open>Deletion\<close>

definition is_order :: "('a list \<Rightarrow> 'a list) \<Rightarrow> bool" where
  "is_order ord \<longleftrightarrow> (\<forall>xs. mset (ord xs) = mset xs)"

lemma is_order_id [simp]: "is_order (\<lambda>x. x)"
  by (simp add: is_order_def)

lemma set_order: "is_order ord \<Longrightarrow> set (ord xs) = set xs"
  unfolding is_order_def by (metis set_mset_mset)

definition best_entry :: "(uint64 \<times> hnswNode) list \<Rightarrow> HNSWWrapper \<Rightarrow> bool" where
  "best_entry seen hw \<longleftrightarrow> (hw_hasEntry hw \<longleftrightarrow> seen \<noteq> []) \<and>
     (hw_hasEntry hw \<longrightarrow> (\<exists>n. (hw_entryPoint hw, n) \<in> set seen \<and> node_Level n = hw_MaxLevel hw)) \<and>
     (\<forall>(v, n) \<in> set seen. node_Level n \<le> hw_MaxLevel hw)"

lemma best_entry_fold:
  "best_entry seen hw \<Longrightarrow> best_entry (seen @ xs) (fold entry_step xs hw)"
proof (induction xs arbitrary: seen hw)
  case (Cons x xs)
  obtain v n where x: "x = (v, n)" by (cases x)
  have "best_entry (seen @ [x]) (entry_step x hw)"
    using Cons.prems by (fastforce simp: x best_entry_def)
  from Cons.IH [OF this] show ?case by simp
qed simp

lemma updateEntryPoint_fields:
  "hw_nodes (updateEntryPoint ord hw) = hw_nodes hw \<and> hw_M (updateEntryPoint ord hw) = hw_M hw \<and>
   hw_dimensions (updateEntryPoint ord hw) = hw_dimensions hw \<and>
   hw_EfConstruction (updateEntryPoint ord hw) = hw_EfConstruction hw \<and>
   hw_EfSearch (updateEntryPoint ord hw) = hw_EfSearch hw"
proof -
  have "hw_nodes (fold entry_step xs hw) = hw_nodes hw \<and> hw_M (fold entry_step xs hw) = hw_M hw \<and>
      hw_dimensions (fold entry_step xs hw) = hw_dimensions hw \<and>
      hw_EfConstruction (fold entry_step xs hw) = hw_EfConstruction hw \<and>
      hw_EfSearch (fold entry_step xs hw) = hw_EfSearch hw" for xs hw
    by (induction xs arbitrary: hw) auto
  then show ?thesis unfolding updateEntryPoint_def by simp
qed

lemma updateEntryPoint_ok:
  assumes "is_order ord" and "wf_map (hw_nodes hw)" and "degrees_ok hw"
    and "1 \<le> hw_EfConstruction hw" and "1 \<le> hw_EfSearch hw"
    and nodes: "\<forall>v n. mget (hw_nodes hw) v = Some n \<longrightarrow> node_ok hw v n"
  shows "hnsw_ok (updateEntryPoint ord hw)"
proof -
  let ?r = "updateEntryPoint ord hw"
  have "best_entry ([] @ ord (hw_nodes hw)) ?r"
    unfolding updateEntryPoint_def by (rule best_entry_fold) (simp add: best_entry_def)
  moreover have "ord (hw_nodes hw) = [] \<longleftrightarrow> hw_nodes hw = []"
    using assms(1) unfolding is_order_def by (metis mset_zero_iff)
  ultimately have b: "best_entry (hw_nodes hw) ?r"
    using set_order [OF assms(1)] by (simp add: best_entry_def)
  note f = updateEntryPoint_fields [of ord hw]
  have "entry_ok ?r"
    using b f mget_in_set [OF assms(2)] by (auto simp: entry_ok_def best_entry_def)
  moreover have "node_ok ?r v n" if "mget (hw_nodes ?r) v = Some n" for v n
    using that nodes b f mget_in_set [OF assms(2)] by (fastforce simp: node_ok_def best_entry_def)
  ultimately show ?thesis
    using assms f by (simp add: hnsw_ok_def degrees_ok_def)
qed

lemma hw_Delete_missing: "v \<notin> node_ids hw \<Longrightarrow> hw_Delete ord v hw = (hw, Some VectorNotFound)"
  by (auto simp: hw_Delete_def node_ids_def split: option.split)

lemma hw_Delete_shape:
  assumes "mget (hw_nodes hw) v = Some node" and "degrees_ok hw"
  obtains hw' where "same_frame hw hw'" "degrees_ok hw'"
    "hw_Delete ord v hw =
       (let d = hw'\<lparr>hw_nodes := mdel v (hw_nodes hw'), hw_dirty := True\<rparr>
        in if hw_entryPoint hw = v then updateEntryPoint ord d else d, None)"
proof -
  define f where "f = (\<lambda>(level, neighbors) hw.
      fold (\<lambda>neighborID hw. removeConnection neighborID v level hw) neighbors hw)"
  have "same_frame hw (f x hw) \<and> (degrees_ok hw \<longrightarrow> degrees_ok (f x hw))" for x :: "nat \<times> uint64 list" and hw
    unfolding f_def by (cases x) (simp add: fold_frame connection_frames)
  from fold_frame [where f = f, OF this, of hw "enumerate 0 (node_Neighbors node)"] assms(2)
  have fr: "same_frame hw (fold f (enumerate 0 (node_Neighbors node)) hw)"
    "degrees_ok (fold f (enumerate 0 (node_Neighbors node)) hw)" by auto
  show thesis
    using that [OF fr] assms(1) same_frame_fields(4) [OF fr(1)]
    by (simp add: hw_Delete_def f_def [symmetric] Let_def)
qed

lemma hw_Delete_ok:
  assumes ok: "hnsw_ok hw" and v: "v \<in> node_ids hw" and ord: "is_order ord"
  shows "snd (hw_Delete ord v hw) = None \<and> hnsw_ok (fst (hw_Delete ord v hw)) \<and>
    vector_of (fst (hw_Delete ord v hw)) = (vector_of hw)(v := None) \<and>
    hw_dimensions (fst (hw_Delete ord v hw)) = hw_dimensions hw"
proof -
  obtain node where node: "mget (hw_nodes hw) v = Some node" using v by (auto simp: node_ids_def)
  have degs: "degrees_ok hw" using ok by (simp add: hnsw_ok_def)
  obtain hw' where fr: "same_frame hw hw'" and deg: "degrees_ok hw'"
    and r: "hw_Delete ord v hw =
       (let d = hw'\<lparr>hw_nodes := mdel v (hw_nodes hw'), hw_dirty := True\<rparr>
        in if hw_entryPoint hw = v then updateEntryPoint ord d else d, None)"
    by (rule hw_Delete_shape [OF node degs, of ord])
  let ?d = "hw'\<lparr>hw_nodes := mdel v (hw_nodes hw'), hw_dirty := True\<rparr>"
  note fields = same_frame_fields [OF fr]
  have wf: "wf_map (hw_nodes ?d)" using fr ok by (simp add: same_frame_def hnsw_ok_def)
  have deg': "degrees_ok ?d" using deg by (simp add: degrees_ok_def)
  have nodes: "\<forall>w n. mget (hw_nodes ?d) w = Some n \<longrightarrow> node_ok ?d w n"
  proof (intro allI impI)
    fix w n
    assume "mget (hw_nodes ?d) w = Some n"
    then have "mget (hw_nodes hw') w = Some n" by (simp split: if_splits)
    then have "node_ok hw w n" using frame_node_ok [OF fr] ok by (simp add: hnsw_ok_def)
    then show "node_ok ?d w n" using fields by (simp add: node_ok_def)
  qed
  have "hnsw_ok (fst (hw_Delete ord v hw))"
  proof (cases "hw_entryPoint hw = v")
    case True
    have "hnsw_ok (updateEntryPoint ord ?d)"
      by (rule updateEntryPoint_ok [OF ord wf deg' _ _ nodes]) (use ok fields in \<open>simp_all add: hnsw_ok_def\<close>)
    with True r show ?thesis by simp
  next
    case False
    have "hw_hasEntry hw" using ok v by (auto simp: hnsw_ok_def entry_ok_def node_ids_def)
    then obtain n where n: "mget (hw_nodes hw) (hw_entryPoint hw) = Some n" "node_Level n = hw_MaxLevel hw"
      using ok by (auto simp: hnsw_ok_def entry_ok_def)
    then have "hw_entryPoint hw \<in> node_ids hw'" using same_frame_ids [OF fr] by (simp add: node_ids_def)
    then obtain n' where n': "mget (hw_nodes hw') (hw_entryPoint hw) = Some n'" by (auto simp: node_ids_def)
    obtain m where "mget (hw_nodes hw) (hw_entryPoint hw) = Some m" "node_frame m = node_frame n'"
      using same_frame_node [OF fr n'] .
    with n have "node_Level n' = hw_MaxLevel hw" by (simp add: node_frame_def)
    moreover from n' False have "mdel v (hw_nodes hw') \<noteq> []"
      by (metis mget_mdel option.distinct(1) map_of.simps(1))
    ultimately have "entry_ok ?d" using n' False fields \<open>hw_hasEntry hw\<close> by (simp add: entry_ok_def)
    with wf deg' nodes ok fields False r show ?thesis by (simp add: hnsw_ok_def)
  qed
  moreover have "vector_of (fst (hw_Delete ord v hw)) w = ((vector_of hw)(v := None)) w" for w
    using same_frame_vector [OF fr, of w] updateEntryPoint_fields [of ord ?d] r by (simp add: vector_of_def Let_def)
  moreover have "hw_dimensions (fst (hw_Delete ord v hw)) = hw_dimensions hw"
    using updateEntryPoint_fields [of ord ?d] r fields by (simp add: Let_def)
  ultimately show ?thesis using r by (auto simp: Let_def)
qed

subsection \<open>Search\<close>

definition as_result :: "candidate \<Rightarrow> HNSWSearchResult" where
  "as_result c = \<lparr>VectorID = cand_ID c, Distance = cand_Distance c\<rparr>"

definition passes :: "BitSet option \<Rightarrow> uint64 \<Rightarrow> bool" where
  "passes flt v \<longleftrightarrow> (case flt of None \<Rightarrow> True | Some bs \<Rightarrow> IsEmpty bs \<or> BitSet_Contains bs v)"

definition has_filter :: "BitSet option \<Rightarrow> bool" where
  "has_filter flt = (case flt of None \<Rightarrow> False | Some bs \<Rightarrow> \<not> IsEmpty bs)"

lemma collect_results_take:
  "length acc < max k 1 \<Longrightarrow>
   collect_results flt (has_filter flt) k cs acc =
     acc @ map as_result (take (max k 1 - length acc) (filter (\<lambda>c. passes flt (cand_ID c)) cs))"
proof (induction cs arbitrary: acc)
  case (Cons c cs)
  show ?case
  proof (cases "passes flt (cand_ID c)")
    case False
    then show ?thesis
      using Cons by (auto simp: passes_def has_filter_def split: option.splits)
  next
    case True
    then have p: "\<not> (has_filter flt \<and> \<not> (case flt of None \<Rightarrow> False | Some bs \<Rightarrow> BitSet_Contains bs (cand_ID c)))"
      by (auto simp: passes_def has_filter_def split: option.splits)
    show ?thesis
    proof (cases "Suc (length acc) \<ge> k")
      case T: True
      then have "max k 1 - length acc = 1" using Cons.prems by (simp add: max_def split: if_splits)
      with True T show ?thesis by (simp add: p as_result_def Let_def del: de_Morgan_conj not_not)
    next
      case F: False
      then have "length (acc @ [as_result c]) < max k 1" by simp
      moreover have "max k 1 - length acc = Suc (max k 1 - Suc (length acc))" using F by simp
      ultimately show ?thesis
        using Cons.IH [of "acc @ [as_result c]"] F True
        by (simp add: p as_result_def Let_def del: de_Morgan_conj not_not)
    qed
  qed
qed simp

lemma search_entry:
  assumes "hnsw_ok hw" and "ep \<in> node_ids hw"
  shows "fold (\<lambda>l ep. case searchLayer hw q ep 1 (nat l) of [] \<Rightarrow> ep | c # _ \<Rightarrow> cand_ID c) ls ep \<in> node_ids hw"
  using assms(2)
proof (induction ls arbitrary: ep)
  case (Cons l ls)
  have "(case searchLayer hw q ep 1 (nat l) of [] \<Rightarrow> ep | c # _ \<Rightarrow> cand_ID c) \<in> node_ids hw"
    using searchLayer_ids [OF Cons.prems, of 1 _ q "nat l"] Cons.prems by (auto split: list.split)
  then show ?case using Cons.IH by simp
qed simp

text \<open>The point from which the bottom layer is searched.\<close>

definition base_entry :: "HNSWWrapper \<Rightarrow> float32 list \<Rightarrow> uint64" where
  "base_entry hw q =
     fold (\<lambda>l ep. case searchLayer hw q ep 1 (nat l) of [] \<Rightarrow> ep | c # _ \<Rightarrow> cand_ID c)
       (rev [1..hw_MaxLevel hw]) (hw_entryPoint hw)"

lemma base_entry_node:
  assumes "hnsw_ok hw" and "hw_hasEntry hw"
  obtains node where "mget (hw_nodes hw) (base_entry hw q) = Some node"
proof -
  have "hw_entryPoint hw \<in> node_ids hw"
    using assms by (auto simp: hnsw_ok_def entry_ok_def node_ids_def)
  then have "base_entry hw q \<in> node_ids hw"
    unfolding base_entry_def by (rule search_entry [OF assms(1)])
  with that show thesis by (auto simp: node_ids_def)
qed

lemma hw_Search_result:
  assumes "hnsw_ok hw" and "of_nat (length q) = hw_dimensions hw" and "hw_hasEntry hw"
  obtains ef where "max (if has_filter flt then 0 else k) (hw_EfSearch hw) \<le> ef"
    "hw_Search hw q k flt = Inr (map as_result (take (max k 1)
       (filter (\<lambda>c. passes flt (cand_ID c)) (searchLayer hw q (base_entry hw q) ef 0))))"
proof -
  define searchK where "searchK = (if has_filter flt
      then (if k * 10 > length (hw_nodes hw) then length (hw_nodes hw) else k * 10) else k)"
  have "hw_Search hw q k flt = Inr (collect_results flt (has_filter flt) k
      (searchLayer hw q (base_entry hw q) (max searchK (hw_EfSearch hw)) 0) [])"
    using assms(2,3) by (simp add: hw_Search_def Let_def has_filter_def searchK_def base_entry_def)
  also have "\<dots> = Inr (map as_result (take (max k 1)
       (filter (\<lambda>c. passes flt (cand_ID c)) (searchLayer hw q (base_entry hw q) (max searchK (hw_EfSearch hw)) 0))))"
    by (simp add: collect_results_take)
  finally show thesis
    by (intro that [of "max searchK (hw_EfSearch hw)"]) (auto simp: searchK_def)
qed

text \<open>What is true of every search.\<close>

definition result_ok :: "HNSWWrapper \<Rightarrow> float32 list \<Rightarrow> BitSet option \<Rightarrow> HNSWSearchResult \<Rightarrow> bool" where
  "result_ok hw q flt r \<longleftrightarrow>
     (case vector_of hw (VectorID r) of None \<Rightarrow> False | Some vec \<Rightarrow> Distance r = hw_distance hw q vec) \<and>
     passes flt (VectorID r)"

lemma hw_Search_sound:
  assumes "hnsw_ok hw" and "of_nat (length q) = hw_dimensions hw"
  shows "\<exists>rs. hw_Search hw q k flt = Inr rs \<and> length rs \<le> max k 1 \<and> distinct (map VectorID rs) \<and>
    list_all (result_ok hw q flt) rs \<and>
    (no_nan hw q \<longrightarrow> sorted_wrt (\<lambda>r s. \<not> f_lt (Distance s) (Distance r)) rs)"
proof (cases "hw_hasEntry hw")
  case False
  with assms(2) show ?thesis by (simp add: hw_Search_def)
next
  case True
  obtain ef where ef: "max (if has_filter flt then 0 else k) (hw_EfSearch hw) \<le> ef"
    and r: "hw_Search hw q k flt = Inr (map as_result (take (max k 1)
       (filter (\<lambda>c. passes flt (cand_ID c)) (searchLayer hw q (base_entry hw q) ef 0))))"
    by (rule hw_Search_result [OF assms True, of flt k])
  have ef1: "1 \<le> ef" using ef assms(1) by (simp add: hnsw_ok_def)
  obtain node where e: "mget (hw_nodes hw) (base_entry hw q) = Some node"
    by (rule base_entry_node [OF assms(1) True])
  define cs where "cs = searchLayer hw q (base_entry hw q) ef 0"
  define ds where "ds = take (max k 1) (filter (\<lambda>c. passes flt (cand_ID c)) cs)"
  note f = searchLayer_facts [OF e ef1, of q 0, folded cs_def]
  have sub: "set ds \<subseteq> {c \<in> set cs. passes flt (cand_ID c)}"
    by (auto simp: ds_def dest: in_set_takeD)
  have "distinct (map cand_ID ds)"
    using f(1) by (simp add: ds_def take_map [symmetric] distinct_map_filter distinct_take)
  then have "distinct (map VectorID (map as_result ds))" by (simp add: comp_def as_result_def)
  moreover have "list_all (result_ok hw q flt) (map as_result ds)"
    using f(2) sub by (fastforce simp: list_all_iff result_ok_def genuine_def as_result_def vector_of_def)
  moreover have "sorted_wrt (\<lambda>r s. \<not> f_lt (Distance s) (Distance r)) (map as_result ds)" if "no_nan hw q"
    using searchLayer_ordered(1) [OF that e ef1, of 0, folded cs_def]
    by (simp add: ds_def sorted_wrt_map as_result_def sorted_wrt_filter sorted_wrt_take)
  ultimately show ?thesis
    using r by (intro exI [of _ "map as_result ds"]) (simp add: ds_def cs_def)
qed

text \<open>
  A small index is searched exhaustively: no vector reachable in the bottom layer is left out
  unless \<open>k\<close> others that are no farther are returned.
\<close>

lemma hw_Search_nearest:
  assumes "hnsw_ok hw" and "of_nat (length q) = hw_dimensions hw" and "hw_hasEntry hw"
    and small: "length (hw_nodes hw) \<le> hw_EfSearch hw" and nan: "no_nan hw q" and k: "1 \<le> k"
    and reach: "reachable hw 0 (base_entry hw q) v" and vec: "vector_of hw v = Some vec" and "passes flt v"
  shows "\<exists>rs. hw_Search hw q k flt = Inr rs \<and>
    (v \<in> VectorID ` set rs \<or>
     length rs = k \<and> list_all (\<lambda>r. \<not> f_lt (hw_distance hw q vec) (Distance r)) rs)"
proof -
  obtain ef where ef: "max (if has_filter flt then 0 else k) (hw_EfSearch hw) \<le> ef"
    and r: "hw_Search hw q k flt = Inr (map as_result (take (max k 1)
       (filter (\<lambda>c. passes flt (cand_ID c)) (searchLayer hw q (base_entry hw q) ef 0))))"
    by (rule hw_Search_result [OF assms(1-3), of flt k])
  have ef1: "1 \<le> ef" "length (hw_nodes hw) \<le> ef" using ef small assms(1) by (simp_all add: hnsw_ok_def)
  obtain node where e: "mget (hw_nodes hw) (base_entry hw q) = Some node"
    by (rule base_entry_node [OF assms(1,3)])
  define cs where "cs = searchLayer hw q (base_entry hw q) ef 0"
  define ps where "ps = filter (\<lambda>c. passes flt (cand_ID c)) cs"
  have "cand_ID ` set cs = {v. reachable hw 0 (base_entry hw q) v}"
    unfolding cs_def using assms(1) ef1(2) by (intro searchLayer_reaches [OF e]) (simp_all add: hnsw_ok_def)
  with reach have "v \<in> cand_ID ` set cs" by simp
  then obtain c where c: "c \<in> set cs" "cand_ID c = v" by blast
  then have cp: "c \<in> set ps" using assms(9) by (simp add: ps_def)
  have "genuine hw q c"
    using searchLayer_facts(2) [OF e ef1(1), of q 0] c(1) by (auto simp: cs_def list_all_iff)
  then have d: "cand_Distance c = hw_distance hw q vec" using c(2) vec by (auto simp: genuine_def vector_of_def)
  have sorted: "sorted_wrt (\<lambda>x y. \<not> f_lt (cand_Distance y) (cand_Distance x)) ps"
    using searchLayer_ordered(1) [OF nan e ef1(1), of 0] by (simp add: ps_def cs_def sorted_wrt_filter)
  have s: "hw_Search hw q k flt = Inr (map as_result (take k ps))"
    using r k by (simp add: ps_def cs_def max_def)
  show ?thesis
  proof (cases "c \<in> set (take k ps)")
    case True
    then have "v \<in> VectorID ` set (map as_result (take k ps))" using c(2) by (force simp: as_result_def)
    with s show ?thesis by blast
  next
    case False
    with cp have dr: "c \<in> set (drop k ps)" by (metis Un_iff append_take_drop_id set_append)
    then have "drop k ps \<noteq> []" by auto
    then have "length (take k ps) = k" by simp
    moreover have "\<not> f_lt (cand_Distance c) (cand_Distance x)" if "x \<in> set (take k ps)" for x
    proof -
      have "sorted_wrt (\<lambda>x y. \<not> f_lt (cand_Distance y) (cand_Distance x)) (take k ps @ drop k ps)"
        using sorted by simp
      then show ?thesis using that dr unfolding sorted_wrt_append by blast
    qed
    then have "list_all (\<lambda>r. \<not> f_lt (hw_distance hw q vec) (Distance r)) (map as_result (take k ps))"
      unfolding d [symmetric] by (simp add: list.pred_map list_all_iff as_result_def)
    ultimately show ?thesis using s by (metis length_map)
  qed
qed

subsection \<open>Distances\<close>

lemma zip_swap_fold:
  assumes "\<And>x y s. f (x, y) s = g (y, x) s"
  shows "fold f (zip a b) s = fold g (zip b a) s"
proof (induction a arbitrary: b s)
  case (Cons x a)
  then show ?case using assms by (cases b) auto
qed simp

lemma distanceL2_commute: "distanceL2 a b = distanceL2 b a"
  unfolding distanceL2_def
proof (rule zip_swap_fold)
  fix x y s
  show "(case (x, y) of (x, y) \<Rightarrow> \<lambda>sum. let diff = f_sub x y in f_add sum (f_mul diff diff)) s =
      (case (y, x) of (x, y) \<Rightarrow> \<lambda>sum. let diff = f_sub x y in f_add sum (f_mul diff diff)) s"
    using f_mul_same_bits [OF f_bits_sub_commute [of x y]] by (simp add: Let_def)
qed

lemma distanceL2_nonneg: "\<not> f_neg_bit (distanceL2 a b)"
proof -
  have "\<not> f_neg_bit (fold (\<lambda>(x, y) sum. let diff = f_sub x y in f_add sum (f_mul diff diff)) ps s)"
    if "\<not> f_neg_bit s" for ps s
    using that
  proof (induction ps arbitrary: s)
    case (Cons p ps)
    then show ?case by (cases p) (simp add: Let_def f_add_nonneg f_square_nonneg)
  qed simp
  moreover have "\<not> f_neg_bit f_zero" by (simp add: f_zero_def f_neg_bit_def)
  ultimately show ?thesis unfolding distanceL2_def by blast
qed

lemma distanceL2_self: "list_all (\<lambda>x. \<not> isNaN x \<and> \<not> isInf x) a \<Longrightarrow> distanceL2 a a = f_zero"
  unfolding distanceL2_def by (induction a) (simp_all add: f_sub_self f_zero_ops Let_def)

subsection \<open>The interface of a vector index\<close>

text \<open>
  What a collection relies on: an index holds a map from ids to vectors of one dimension; adding and
  removing change that map and nothing else, and keep the invariant. The randomness of an insertion
  and the visiting order of a deletion are arguments that the laws quantify over.
\<close>

locale vector_index =
  fixes inv :: "'i \<Rightarrow> bool"
    and vecs :: "'i \<Rightarrow> uint64 \<Rightarrow> float32 list option"
    and dims :: "'i \<Rightarrow> uint32"
    and add :: "'r \<Rightarrow> uint64 \<Rightarrow> float32 list \<Rightarrow> 'i \<Rightarrow> 'i \<times> go_error option"
    and remove :: "'o \<Rightarrow> uint64 \<Rightarrow> 'i \<Rightarrow> 'i \<times> go_error option"
    and order_ok :: "'o \<Rightarrow> bool"
  assumes add_accepts: "inv s \<Longrightarrow> of_nat (length vec) = dims s \<Longrightarrow> vecs s v = None \<Longrightarrow>
        snd (add r v vec s) = None \<and> inv (fst (add r v vec s)) \<and>
        vecs (fst (add r v vec s)) = (vecs s)(v \<mapsto> vec) \<and> dims (fst (add r v vec s)) = dims s"
    and add_rejects: "inv s \<Longrightarrow> \<not> (of_nat (length vec) = dims s \<and> vecs s v = None) \<Longrightarrow>
        \<exists>err. add r v vec s = (s, Some err)"
    and remove_ok: "inv s \<Longrightarrow> order_ok d \<Longrightarrow>
        inv (fst (remove d v s)) \<and> vecs (fst (remove d v s)) = (vecs s)(v := None) \<and>
        dims (fst (remove d v s)) = dims s"
begin

lemma remove_all:
  assumes "inv s" and "order_ok d"
  shows "inv (fold (\<lambda>v s. fst (remove d v s)) vs s) \<and>
    vecs (fold (\<lambda>v s. fst (remove d v s)) vs s) = vecs s |` (- set vs) \<and>
    dims (fold (\<lambda>v s. fst (remove d v s)) vs s) = dims s"
  using assms(1)
proof (induction vs arbitrary: s)
  case (Cons v vs)
  note r = remove_ok [OF Cons.prems assms(2), of v]
  with Cons.IH [of "fst (remove d v s)"] show ?case
    by (auto simp: fun_eq_iff restrict_map_def)
qed (simp add: fun_eq_iff restrict_map_def)

lemma add_keeps_others: "inv s \<Longrightarrow> w \<noteq> v \<Longrightarrow> vecs (fst (add r v vec s)) w = vecs s w"
  using add_accepts [of s vec v r] add_rejects [of s vec v r]
  by (cases "of_nat (length vec) = dims s \<and> vecs s v = None") auto

end

lemma hw_Delete_vectors:
  assumes "hnsw_ok hw" and "is_order ord"
  shows "hnsw_ok (fst (hw_Delete ord v hw)) \<and> vector_of (fst (hw_Delete ord v hw)) = (vector_of hw)(v := None) \<and>
    hw_dimensions (fst (hw_Delete ord v hw)) = hw_dimensions hw"
proof (cases "v \<in> node_ids hw")
  case True
  with hw_Delete_ok [OF assms(1) True assms(2)] show ?thesis by simp
next
  case False
  then have "(vector_of hw)(v := None) = vector_of hw" by (auto simp: node_ids_vector fun_eq_iff)
  with False assms show ?thesis by (simp add: hw_Delete_missing)
qed

interpretation graph: vector_index hnsw_ok vector_of hw_dimensions hw_Add hw_Delete is_order
proof
  fix s v r and vec :: "float32 list"
  assume "hnsw_ok s" "of_nat (length vec) = hw_dimensions s" "vector_of s v = None"
  then show "snd (hw_Add r v vec s) = None \<and> hnsw_ok (fst (hw_Add r v vec s)) \<and>
      vector_of (fst (hw_Add r v vec s)) = (vector_of s)(v \<mapsto> vec) \<and>
      hw_dimensions (fst (hw_Add r v vec s)) = hw_dimensions s"
    using addUnlocked_ok [of s vec v r] by (auto simp: hw_Add_def node_ids_vector fun_eq_iff)
next
  fix s v r and vec :: "float32 list"
  assume "hnsw_ok s" "\<not> (of_nat (length vec) = hw_dimensions s \<and> vector_of s v = None)"
  then show "\<exists>err. hw_Add r v vec s = (s, Some err)"
    by (cases "of_nat (length vec) = hw_dimensions s") (simp_all add: hw_Add_def addUnlocked_rejects node_ids_vector)
next
  fix s and d :: "(uint64, hnswNode) gomap \<Rightarrow> (uint64, hnswNode) gomap" and v
  assume "hnsw_ok s" "is_order d"
  then show "hnsw_ok (fst (hw_Delete d v s)) \<and> vector_of (fst (hw_Delete d v s)) = (vector_of s)(v := None) \<and>
      hw_dimensions (fst (hw_Delete d v s)) = hw_dimensions s"
    by (rule hw_Delete_vectors)
qed

subsection \<open>Properties\<close>

text \<open>An index with one vector, for the witnesses.\<close>

definition sample_hnsw :: HNSWWrapper where
  "sample_hnsw = fst (hw_Add (\<lambda>_. False) 7 [f_one] (NewHNSWWrapper 1 MetricL2))"

lemma sample_hnsw_eq: "sample_hnsw =
  \<lparr>hw_nodes = [(7, \<lparr>node_ID = 7, node_Vector = [f_one], node_Level = 0, node_Neighbors = [[]]\<rparr>)],
   hw_entryPoint = 7, hw_hasEntry = True, hw_dimensions = 1, hw_metric = MetricL2,
   hw_M = 16, hw_EfConstruction = 200, hw_EfSearch = 100, hw_MaxLevel = 0, hw_dirty = True\<rparr>"
  by (simp add: sample_hnsw_def hw_Add_def addUnlocked_def NewHNSWWrapper_def randomLevel_def Let_def upt_rec)

lemma sample_hnsw_ok: "hnsw_ok sample_hnsw"
  using graph.add_accepts [OF hnsw_ok_New, of "[f_one]" 1 MetricL2 7 "\<lambda>_. False"]
  by (simp add: sample_hnsw_def NewHNSWWrapper_def vector_of_def)

lemma sample_vector: "vector_of sample_hnsw v = (if v = 7 then Some [f_one] else None)"
  by (simp add: sample_hnsw_eq vector_of_def)

lemma sample_distance: "hw_distance sample_hnsw [f_one] [f_one] = f_zero"
  by (simp add: sample_hnsw_eq hw_distance_def metric_defs) code_simp

lemma sample_no_nan: "no_nan sample_hnsw [f_one]"
proof -
  have "\<not> isNaN f_zero" by code_simp
  then show ?thesis using sample_distance by (simp add: no_nan_def) (simp add: sample_hnsw_eq)
qed

text \<open>
  C13. Insertion: an index that satisfies the invariant (an entry point of the highest level exactly
  when there are nodes, all vectors of one dimension, one neighbour list per level, at most twice
  \<^verbatim>\<open>M\<close> neighbours in a list) rejects a vector of another dimension and an id in use without any
  change; otherwise it never panics, keeps the invariant, holds the new vector and keeps all others,
  whatever the random level.
\<close>

theorem hw_Add_correct:
  assumes "hnsw_ok hw"
  shows "if of_nat (length vec) \<noteq> hw_dimensions hw then hw_Add rnd v vec hw = (hw, Some DimensionMismatch)
    else if vector_of hw v \<noteq> None then hw_Add rnd v vec hw = (hw, Some VectorExists)
    else snd (hw_Add rnd v vec hw) = None \<and> hnsw_ok (fst (hw_Add rnd v vec hw)) \<and>
      vector_of (fst (hw_Add rnd v vec hw)) = (vector_of hw)(v \<mapsto> vec)"
  using graph.add_accepts [OF assms, of vec v rnd] by (simp add: hw_Add_def addUnlocked_rejects node_ids_vector)

theorem hw_Add_correct_witness:
  "hnsw_ok sample_hnsw \<and> snd (hw_Add (\<lambda>n. n < 3) 8 [f_zero] sample_hnsw) = None \<and>
   hnsw_ok (fst (hw_Add (\<lambda>n. n < 3) 8 [f_zero] sample_hnsw)) \<and>
   vector_of (fst (hw_Add (\<lambda>n. n < 3) 8 [f_zero] sample_hnsw)) 8 = Some [f_zero]"
  using hw_Add_correct [OF sample_hnsw_ok, of "[f_zero]" "\<lambda>n. n < 3" 8] sample_hnsw_ok sample_vector [of 8]
  by (simp add: sample_hnsw_eq)

text \<open>
  A batch insertion returns no error, keeps the invariant and holds afterwards exactly the
  vectors that inserting the items one by one, skipping the rejected ones, gives.
\<close>

theorem hw_BatchAdd_correct:
  assumes "hnsw_ok hw"
  shows "snd (hw_BatchAdd rnds items hw) = None \<and> hnsw_ok (fst (hw_BatchAdd rnds items hw)) \<and>
    vector_of (fst (hw_BatchAdd rnds items hw)) = fold (spec_insert (hw_dimensions hw)) items (vector_of hw)"
  using hw_BatchAdd_vectors [OF assms] by blast

theorem hw_BatchAdd_correct_witness:
  "hnsw_ok sample_hnsw \<and>
   vector_of (fst (hw_BatchAdd (\<lambda>_ _. False) [(7, [f_zero]), (8, [f_zero]), (9, [])] sample_hnsw)) 8 = Some [f_zero] \<and>
   vector_of (fst (hw_BatchAdd (\<lambda>_ _. False) [(7, [f_zero]), (8, [f_zero]), (9, [])] sample_hnsw)) 7 = Some [f_one]"
proof -
  have d: "hw_dimensions sample_hnsw = 1" by (simp add: sample_hnsw_eq)
  show ?thesis
    using hw_BatchAdd_correct [OF sample_hnsw_ok, of "\<lambda>_ _. False" "[(7, [f_zero]), (8, [f_zero]), (9, [])]"]
      sample_hnsw_ok
    by (simp add: d spec_insert_def sample_vector del: hw_BatchAdd.simps)
qed

text \<open>
  C16. Deletion: an unknown id is reported and nothing changes; a known one is removed, every other
  vector stays, and the invariant holds again (a new entry point of the highest level is found when
  the entry point goes), in whatever order the map is visited.
\<close>

theorem hw_Delete_correct:
  assumes "hnsw_ok hw" and "is_order ord"
  shows "if vector_of hw v = None then hw_Delete ord v hw = (hw, Some VectorNotFound)
    else snd (hw_Delete ord v hw) = None \<and> hnsw_ok (fst (hw_Delete ord v hw)) \<and>
      vector_of (fst (hw_Delete ord v hw)) = (vector_of hw)(v := None)"
  using hw_Delete_ok [OF assms(1) _ assms(2), of v] hw_Delete_missing [of v hw ord]
  by (simp add: node_ids_vector)

theorem hw_Delete_correct_witness:
  "hnsw_ok sample_hnsw \<and> is_order rev \<and> snd (hw_Delete rev 7 sample_hnsw) = None \<and>
   hnsw_ok (fst (hw_Delete rev 7 sample_hnsw)) \<and> vector_of (fst (hw_Delete rev 7 sample_hnsw)) 7 = None"
proof -
  have "is_order (rev :: (uint64, hnswNode) gomap \<Rightarrow> _)" by (simp add: is_order_def)
  then show ?thesis
    using hw_Delete_correct [OF sample_hnsw_ok, of rev 7] sample_hnsw_ok sample_vector [of 7]
    by (simp add: is_order_def)
qed

text \<open>
  The search of one layer from an existing node with \<open>ef\<close> at least 1 returns between 1 and
  \<open>ef\<close> candidates with distinct ids, each an existing node with its true distance; when no distance
  is NaN they come in ascending order of distance and the first is no farther than the start.
\<close>

theorem searchLayer_correct:
  assumes "mget (hw_nodes hw) e = Some node" and "1 \<le> ef"
  shows "searchLayer hw q e ef l \<noteq> [] \<and> length (searchLayer hw q e ef l) \<le> ef \<and>
    distinct (map cand_ID (searchLayer hw q e ef l)) \<and> list_all (genuine hw q) (searchLayer hw q e ef l) \<and>
    (no_nan hw q \<longrightarrow>
       sorted_wrt (\<lambda>x y. \<not> f_lt (cand_Distance y) (cand_Distance x)) (searchLayer hw q e ef l) \<and>
       \<not> f_lt (hw_distance hw q (node_Vector node)) (cand_Distance (hd (searchLayer hw q e ef l))))"
  using searchLayer_facts [OF assms] searchLayer_ordered [OF _ assms] by simp

theorem searchLayer_correct_witness:
  "\<exists>node. mget (hw_nodes sample_hnsw) 7 = Some node \<and> no_nan sample_hnsw [f_one] \<and>
     searchLayer sample_hnsw [f_one] 7 5 0 \<noteq> [] \<and> length (searchLayer sample_hnsw [f_one] 7 5 0) \<le> 5 \<and>
     \<not> f_lt f_zero (cand_Distance (hd (searchLayer sample_hnsw [f_one] 7 5 0)))"
proof -
  define node where "node = \<lparr>node_ID = 7, node_Vector = [f_one], node_Level = 0, node_Neighbors = [[]]\<rparr>"
  have n: "mget (hw_nodes sample_hnsw) 7 = Some node" by (simp add: sample_hnsw_eq node_def)
  have "node_Vector node = [f_one]" by (simp add: node_def)
  then show ?thesis
    using searchLayer_correct [OF n, of 5 "[f_one]" 0] n sample_no_nan sample_distance by auto
qed

text \<open>
  The search of one layer is complete when \<open>ef\<close> is at least the number of nodes: it returns
  exactly the nodes reachable from the start along the layer's edges. In particular the loop ends.
\<close>

theorem searchLayer_complete:
  assumes "mget (hw_nodes hw) e = Some node" and "wf_map (hw_nodes hw)" and "length (hw_nodes hw) \<le> ef"
  shows "cand_ID ` set (searchLayer hw q e ef l) = {v. (layer_edge hw l)\<^sup>*\<^sup>* e v}"
  using assms by (rule searchLayer_reaches)

theorem searchLayer_complete_witness:
  "wf_map (hw_nodes sample_hnsw) \<and> length (hw_nodes sample_hnsw) \<le> 1 \<and>
   cand_ID ` set (searchLayer sample_hnsw [f_one] 7 1 0) = {v. (layer_edge sample_hnsw 0)\<^sup>*\<^sup>* 7 v}"
  using searchLayer_complete [of sample_hnsw 7 _ 1 "[f_one]" 0] by (simp add: sample_hnsw_eq wf_map_def)



text \<open>
  C15. An index of at most \<^verbatim>\<open>EfSearch\<close> (100) vectors is searched exactly: every vector that the
  bottom layer's edges reach and that passes the filter is returned, unless \<open>k\<close> results that are no
  farther are returned instead.
\<close>

theorem hw_Search_exhaustive:
  assumes "hnsw_ok hw" and "of_nat (length q) = hw_dimensions hw" and "hw_hasEntry hw"
    and "length (hw_nodes hw) \<le> hw_EfSearch hw" and "no_nan hw q" and "1 \<le> k"
    and "(layer_edge hw 0)\<^sup>*\<^sup>* (base_entry hw q) v" and "vector_of hw v = Some vec" and "passes flt v"
  shows "\<exists>rs. hw_Search hw q k flt = Inr rs \<and>
    (v \<in> VectorID ` set rs \<or>
     length rs = k \<and> list_all (\<lambda>r. \<not> f_lt (hw_distance hw q vec) (Distance r)) rs)"
  using assms by (rule hw_Search_nearest)

theorem hw_Search_exhaustive_witness:
  "\<exists>rs. hw_Search sample_hnsw [f_one] 2 None = Inr rs \<and>
     (7 \<in> VectorID ` set rs \<or>
      length rs = 2 \<and> list_all (\<lambda>r. \<not> f_lt (hw_distance sample_hnsw [f_one] [f_one]) (Distance r)) rs)"
proof -
  have b: "base_entry sample_hnsw [f_one] = 7" by (simp add: base_entry_def sample_hnsw_eq)
  show ?thesis
    by (rule hw_Search_exhaustive [OF sample_hnsw_ok _ _ _ sample_no_nan])
      (simp_all add: sample_vector b passes_def, simp_all add: sample_hnsw_eq)
qed

text \<open>
  C33. The squared Euclidean distance as computed in single precision is symmetric, never below
  zero, and zero from a vector of finite numbers to itself, rounding included.
\<close>

theorem distanceL2_properties:
  "distanceL2 a b = distanceL2 b a \<and> \<not> f_lt (distanceL2 a b) f_zero \<and>
   (list_all (\<lambda>x. \<not> isNaN x \<and> \<not> isInf x) a \<longrightarrow> distanceL2 a a = f_zero)"
  using distanceL2_commute distanceL2_nonneg f_nonneg_not_lt_zero distanceL2_self by blast

theorem distanceL2_properties_witness:
  "list_all (\<lambda>x. \<not> isNaN x \<and> \<not> isInf x) [f_one, 0x3DCCCCCD] \<and>
   distanceL2 [f_one, 0x3DCCCCCD] [f_one, 0x3DCCCCCD] = f_zero"
proof -
  have "list_all (\<lambda>x. \<not> isNaN x \<and> \<not> isInf x) [f_one, 0x3DCCCCCD]" by code_simp
  then show ?thesis using distanceL2_properties [of "[f_one, 0x3DCCCCCD]"] by blast
qed

end
