(* ===== verification/HNSW_File.thy ===== *)
theory HNSW_File
  imports HNSW_Index
begin

section \<open>The file of the vector index\<close>

text \<open>
  \<^verbatim>\<open>Save\<close> and \<^verbatim>\<open>Load\<close> of \<^verbatim>\<open>internal/storage/hnsw_wrapper.go\<close>: a 64-byte header, a table of
  24-byte entries in the order of the ids, the vectors, and the neighbour lists. \<^verbatim>\<open>Load\<close> reads the
  sections in sequence and does not use the offsets of the table. The index is changed only after
  the whole file has been read. A missing file is \<open>None\<close>.
\<close>

definition hnswMagic :: bytes where "hnswMagic = bytes_of_string ''HNSWV001''"
definition hnswHeaderSize :: nat where "hnswHeaderSize = 64"

definition metricByteL2 :: uint8 where "metricByteL2 = 0"
definition metricByteCosine :: uint8 where "metricByteCosine = 1"
definition metricByteIP :: uint8 where "metricByteIP = 2"

lemmas metric_bytes = metricByteL2_def metricByteCosine_def metricByteIP_def

definition metricToByte :: "DistanceMetric \<Rightarrow> uint8" where
  "metricToByte m =
     (if m = MetricCosine then metricByteCosine
      else if m = MetricIP then metricByteIP
      else metricByteL2)"

definition byteToMetric :: "uint8 \<Rightarrow> DistanceMetric" where
  "byteToMetric b =
     (if b = metricByteCosine then MetricCosine
      else if b = metricByteIP then MetricIP
      else MetricL2)"

record nodeEntry =
  ne_id :: uint64
  ne_level :: uint32
  ne_vectorOffset :: uint32
  ne_neighborOffset :: uint32
  ne_neighborCount :: uint32

subsection \<open>Writing\<close>

definition totalNeighbors :: "hnswNode \<Rightarrow> uint32" where
  "totalNeighbors node = fold (\<lambda>neighbors n. n + of_nat (length neighbors)) (node_Neighbors node) 0"

definition neighborSize :: "hnswNode \<Rightarrow> uint32" where
  "neighborSize node = fold (\<lambda>neighbors n. n + (2 + of_nat (length neighbors) * 8)) (node_Neighbors node) 2"

fun node_entries :: "uint32 \<Rightarrow> uint32 \<Rightarrow> nat \<Rightarrow> uint32 \<Rightarrow> (uint64, hnswNode) gomap \<Rightarrow> nodeEntry list" where
  "node_entries vectorSize neighborSectionOffset i neighborOffset [] = []"
| "node_entries vectorSize neighborSectionOffset i neighborOffset ((nid, node) # nodes) =
     \<lparr>ne_id = nid, ne_level = of_int (node_Level node), ne_vectorOffset = of_nat i * vectorSize,
      ne_neighborOffset = neighborSectionOffset + neighborOffset, ne_neighborCount = totalNeighbors node\<rparr> #
     node_entries vectorSize neighborSectionOffset (Suc i) (neighborOffset + neighborSize node) nodes"

definition enc_nodeEntry :: "nodeEntry \<Rightarrow> bytes" where
  "enc_nodeEntry e =
     LE_PutUint64 (ne_id e) @ LE_PutUint32 (ne_level e) @ LE_PutUint32 (ne_vectorOffset e) @
     LE_PutUint32 (ne_neighborOffset e) @ LE_PutUint32 (ne_neighborCount e)"

definition enc_neighbors :: "hnswNode \<Rightarrow> bytes" where
  "enc_neighbors node =
     LE_PutUint16 (of_nat (length (node_Neighbors node))) @
     concat (map (\<lambda>neighbors. LE_PutUint16 (of_nat (length neighbors)) @ concat (map LE_PutUint64 neighbors))
       (node_Neighbors node))"

definition enc_header :: "HNSWWrapper \<Rightarrow> bytes" where
  "enc_header hw =
     hnswMagic @ LE_PutUint32 (hw_dimensions hw) @ [metricToByte (hw_metric hw)] @ replicate 3 0 @
     LE_PutUint32 (of_nat (length (hw_nodes hw))) @ LE_PutUint64 (hw_entryPoint hw) @
     LE_PutUint32 (of_int (hw_MaxLevel hw)) @ LE_PutUint32 (of_nat (hw_M hw)) @
     [if hw_hasEntry hw then 1 else 0] @ replicate 27 0"

definition hw_Save :: "HNSWWrapper \<Rightarrow> HNSWWrapper \<times> bytes" where
  "hw_Save hw =
     (let nodes = sort_key fst (hw_nodes hw);
          vectorSize = hw_dimensions hw * 4;
          nodeTableSize = of_nat (length (hw_nodes hw)) * 24;
          vectorSectionOffset = of_nat hnswHeaderSize + nodeTableSize;
          neighborSectionOffset = vectorSectionOffset + of_nat (length (hw_nodes hw)) * vectorSize
      in (hw\<lparr>hw_dirty := False\<rparr>,
          enc_header hw @
          concat (map enc_nodeEntry (node_entries vectorSize neighborSectionOffset 0 0 nodes)) @
          concat (map (\<lambda>(nid, node). concat (map LE_PutUint32 (node_Vector node))) nodes) @
          concat (map (\<lambda>(nid, node). enc_neighbors node) nodes)))"

subsection \<open>Reading\<close>

definition dec_nodeEntry :: "bytes \<Rightarrow> nodeEntry" where
  "dec_nodeEntry b =
     \<lparr>ne_id = LE_Uint64 (slice b 0 8), ne_level = LE_Uint32 (slice b 8 12),
      ne_vectorOffset = LE_Uint32 (slice b 12 16), ne_neighborOffset = LE_Uint32 (slice b 16 20),
      ne_neighborCount = LE_Uint32 (slice b 20 24)\<rparr>"

fun load_vectors ::
  "nat \<Rightarrow> nodeEntry list \<Rightarrow> bytes \<Rightarrow> (uint64, hnswNode) gomap \<Rightarrow> ((uint64, hnswNode) gomap \<times> bytes) option" where
  "load_vectors dims [] bs nodes = Some (nodes, bs)"
| "load_vectors dims (e # es) bs nodes =
     (case read_items 4 LE_Uint32 dims bs of
        None \<Rightarrow> None
      | Some (vector, rest) \<Rightarrow>
          load_vectors dims es rest
            (mput (ne_id e) \<lparr>node_ID = ne_id e, node_Vector = vector, node_Level = sint (ne_level e),
                             node_Neighbors = []\<rparr> nodes))"

fun load_levels :: "nat \<Rightarrow> bytes \<Rightarrow> (uint64 list list \<times> bytes) option" where
  "load_levels 0 bs = Some ([], bs)"
| "load_levels (Suc n) bs =
     (if length bs < 2 then None
      else case read_items 8 LE_Uint64 (unat (LE_Uint16 (take 2 bs))) (drop 2 bs) of
        None \<Rightarrow> None
      | Some (neighbors, rest) \<Rightarrow>
          (case load_levels n rest of
             None \<Rightarrow> None
           | Some (levels, rest) \<Rightarrow> Some (neighbors # levels, rest)))"

fun load_neighbors ::
  "nodeEntry list \<Rightarrow> bytes \<Rightarrow> (uint64, hnswNode) gomap \<Rightarrow> (uint64, hnswNode) gomap option" where
  "load_neighbors [] bs nodes = Some nodes"
| "load_neighbors (e # es) bs nodes =
     (if length bs < 2 then None
      else case load_levels (unat (LE_Uint16 (take 2 bs))) (drop 2 bs) of
        None \<Rightarrow> None
      | Some (levels, rest) \<Rightarrow>
          (case mget nodes (ne_id e) of
             None \<Rightarrow> None
           | Some node \<Rightarrow> load_neighbors es rest (mput (ne_id e) (node\<lparr>node_Neighbors := levels\<rparr>) nodes)))"

definition hw_Load :: "bytes option \<Rightarrow> HNSWWrapper \<Rightarrow> HNSWWrapper \<times> go_error option" where
  "hw_Load file hw =
     (case file of
        None \<Rightarrow> (hw, None)
      | Some bs \<Rightarrow>
          if length bs < hnswHeaderSize then (hw, Some (Wrapped ''failed to read header'' UnexpectedEOF))
          else if slice bs 0 8 \<noteq> hnswMagic then (hw, Some WrongMagic)
          else
            let dimensions = LE_Uint32 (slice bs 8 12);
                metric = byteToMetric (bs ! 12);
                nodeCount = LE_Uint32 (slice bs 16 20);
                entryPoint = LE_Uint64 (slice bs 20 28);
                maxLevel = uint (LE_Uint32 (slice bs 28 32));
                hasEntry = (bs ! 36 = 1)
            in if dimensions \<noteq> hw_dimensions hw then (hw, Some FileDimensionMismatch)
               else if metric \<noteq> hw_metric hw then (hw, Some FileMetricMismatch)
               else
                 case read_items 24 dec_nodeEntry (unat nodeCount) (drop hnswHeaderSize bs) of
                   None \<Rightarrow> (hw, Some (Wrapped ''failed to read node table'' UnexpectedEOF))
                 | Some (entries, rest) \<Rightarrow>
                     (case load_vectors (unat dimensions) entries rest [] of
                        None \<Rightarrow> (hw, Some (Wrapped ''failed to read vector'' UnexpectedEOF))
                      | Some (nodes, rest) \<Rightarrow>
                          (case load_neighbors entries rest nodes of
                             None \<Rightarrow> (hw, Some (Wrapped ''failed to read neighbors'' UnexpectedEOF))
                           | Some nodes \<Rightarrow>
                               (hw\<lparr>hw_nodes := nodes, hw_entryPoint := entryPoint, hw_hasEntry := hasEntry,
                                   hw_MaxLevel := maxLevel, hw_dirty := False\<rparr>, None))))"

subsection \<open>The sections round-trip\<close>

lemma slice_join: "i \<le> j \<Longrightarrow> j \<le> k \<Longrightarrow> slice xs i j @ slice xs j k = slice xs i k"
  using take_add [of "j - i" "k - j" "drop i xs"] by (simp add: slice_def)

interpretation table: fixed_codec 24 enc_nodeEntry dec_nodeEntry
proof
  fix e
  show "length (enc_nodeEntry e) = 24" by (simp add: enc_nodeEntry_def codec_simps)
  show "dec_nodeEntry (enc_nodeEntry e) = e"
    by (simp add: dec_nodeEntry_def enc_nodeEntry_def slice_def codec_simps)
next
  fix bs :: bytes
  assume len: "length bs = 24"
  have "slice bs 0 8 @ slice bs 8 12 @ slice bs 12 16 @ slice bs 16 20 @ slice bs 20 24 = slice bs 0 24"
    by (simp add: slice_join)
  also have "\<dots> = bs" using len by (simp add: slice_simps)
  finally show "enc_nodeEntry (dec_nodeEntry bs) = bs"
    using len by (simp add: enc_nodeEntry_def dec_nodeEntry_def le32.enc_dec le64.enc_dec)
qed

text \<open>A saved entry and its node: the id and the level of the entry are those of the node.\<close>

definition entry_for :: "nodeEntry \<Rightarrow> uint64 \<times> hnswNode \<Rightarrow> bool" where
  "entry_for e p \<longleftrightarrow> ne_id e = fst p \<and> ne_level e = of_int (node_Level (snd p))"

lemma node_entries_for: "list_all2 entry_for (node_entries vs ns i off nodes) nodes"
  by (induction vs ns i off nodes rule: node_entries.induct) (simp_all add: entry_for_def)

definition storable :: "nat \<Rightarrow> hnswNode \<Rightarrow> bool" where
  "storable dims node \<longleftrightarrow> length (node_Vector node) = dims \<and> 0 \<le> node_Level node \<and> node_Level node < 2 ^ 31 \<and>
     length (node_Neighbors node) < 2 ^ 16 \<and> list_all (\<lambda>ns. length ns < 2 ^ 16) (node_Neighbors node)"

text \<open>The nodes as they are between the two passes over the file.\<close>

definition bare :: "uint64 \<times> hnswNode \<Rightarrow> uint64 \<times> hnswNode" where
  "bare p = (fst p, (snd p)\<lparr>node_ID := fst p, node_Neighbors := []\<rparr>)"

lemma sint_level: "0 \<le> l \<Longrightarrow> l < 2 ^ 31 \<Longrightarrow> sint (of_int l :: uint32) = l"
  by (simp add: signed_of_int signed_take_bit_int_eq_self)

lemma load_vectors_saved:
  assumes "list_all2 entry_for es nodes" and "list_all (\<lambda>p. storable dims (snd p)) nodes"
  shows "load_vectors dims es (concat (map (\<lambda>(nid, node). concat (map LE_PutUint32 (node_Vector node))) nodes) @ rest) acc =
    Some (fold (\<lambda>(k, v). mput k v) (map bare nodes) acc, rest)"
  using assms
proof (induction arbitrary: acc rule: list_all2_induct)
  case (Cons e es p nodes)
  obtain nid node where p: "p = (nid, node)" by (cases p)
  have st: "length (node_Vector node) = dims" "sint (of_int (node_Level node) :: uint32) = node_Level node"
    using Cons.prems by (simp_all add: p storable_def sint_level)
  have rd: "read_items 4 LE_Uint32 dims (concat (map LE_PutUint32 (node_Vector node)) @ more) =
      Some (node_Vector node, more)" for more
    using le32.read_items_concat [of "node_Vector node" more] st(1) by simp
  have "\<lparr>node_ID = nid, node_Vector = node_Vector node, node_Level = node_Level node, node_Neighbors = []\<rparr> =
      snd (bare (nid, node))"
    by (simp add: bare_def)
  then show ?case
    using Cons st rd by (simp add: p entry_for_def) (simp add: bare_def)
qed simp

lemma load_levels_saved:
  assumes "list_all (\<lambda>ns. length ns < 2 ^ 16) levels"
  shows "load_levels (length levels) (concat (map (\<lambda>neighbors. LE_PutUint16 (of_nat (length neighbors)) @
      concat (map LE_PutUint64 neighbors)) levels) @ rest) = Some (levels, rest)"
  using assms
proof (induction levels)
  case (Cons ns levels)
  then have "unat (of_nat (length ns) :: uint16) = length ns" by (simp add: unat_of_nat_small)
  with Cons show ?case
    by (simp add: codec_simps le64.read_items_concat)
qed simp

lemma load_neighbors_saved:
  assumes "list_all2 entry_for es nodes" and "list_all (\<lambda>p. storable dims (snd p)) nodes"
    and "wf_map nodes" and "\<And>p. p \<in> set nodes \<Longrightarrow> mget acc (fst p) = Some (snd (bare p))"
    and "list_all (\<lambda>p. node_ID (snd p) = fst p) nodes"
  shows "\<exists>m. load_neighbors es (concat (map (\<lambda>(nid, node). enc_neighbors node) nodes) @ rest) acc = Some m \<and>
    (\<forall>v. mget m v = (case mget nodes v of None \<Rightarrow> mget acc v | Some node \<Rightarrow> Some node))"
  using assms
proof (induction arbitrary: acc rule: list_all2_induct)
  case (Cons e es p nodes)
  obtain nid node where p: "p = (nid, node)" by (cases p)
  have st: "length (node_Neighbors node) < 2 ^ 16" "list_all (\<lambda>ns. length ns < 2 ^ 16) (node_Neighbors node)"
    using Cons.prems(1) by (simp_all add: p storable_def)
  have cnt: "unat (of_nat (length (node_Neighbors node)) :: uint16) = length (node_Neighbors node)"
    using st(1) by (simp add: unat_of_nat_small)
  have acc: "mget acc nid = Some (snd (bare (nid, node)))" using Cons.prems(3) [of p] by (simp add: p)
  have full: "(snd (bare (nid, node)))\<lparr>node_Neighbors := node_Neighbors node\<rparr> = node"
    using Cons.prems(4) by (simp add: p bare_def)
  have fresh: "nid \<notin> fst ` set nodes" "wf_map nodes" using Cons.prems(2) by (auto simp: p wf_map_def)
  let ?acc = "mput nid node acc"
  have "mget ?acc (fst r) = Some (snd (bare r))" if "r \<in> set nodes" for r
    using Cons.prems(3) [of r] that fresh(1) by force
  then obtain m where m: "load_neighbors es (concat (map (\<lambda>(nid, node). enc_neighbors node) nodes) @ rest) ?acc = Some m"
    "\<forall>v. mget m v = (case mget nodes v of None \<Rightarrow> mget ?acc v | Some node \<Rightarrow> Some node)"
    using Cons.IH [of ?acc] Cons.prems fresh(2) by auto
  have none: "mget nodes nid = None" using fresh(1) by (simp add: map_of_eq_None_iff)
  have "load_neighbors (e # es) (concat (map (\<lambda>(nid, node). enc_neighbors node) (p # nodes)) @ rest) acc = Some m"
    using m(1) Cons.hyps(1) acc full load_levels_saved [OF st(2)]
    by (simp add: p entry_for_def enc_neighbors_def cnt codec_simps)
  with m(2) none show ?case by (auto simp: p split: option.split)
qed simp

subsection \<open>Round trip of the index\<close>

lemma length_enc_header: "length (enc_header hw) = 64"
  by (simp add: enc_header_def hnswMagic_def codec_simps)

lemma header_fields:
  fixes hw :: HNSWWrapper and body :: bytes
  defines "bs \<equiv> enc_header hw @ body"
  shows "slice bs 0 8 = hnswMagic" "slice bs 8 12 = LE_PutUint32 (hw_dimensions hw)"
    "bs ! 12 = metricToByte (hw_metric hw)" "slice bs 16 20 = LE_PutUint32 (of_nat (length (hw_nodes hw)))"
    "slice bs 20 28 = LE_PutUint64 (hw_entryPoint hw)" "slice bs 28 32 = LE_PutUint32 (of_int (hw_MaxLevel hw))"
    "bs ! 36 = (if hw_hasEntry hw then 1 else 0)" "drop 64 bs = body"
proof -
  have m: "length hnswMagic = 8" by (simp add: hnswMagic_def)
  show "slice bs 0 8 = hnswMagic" "slice bs 8 12 = LE_PutUint32 (hw_dimensions hw)"
    "bs ! 12 = metricToByte (hw_metric hw)" "slice bs 16 20 = LE_PutUint32 (of_nat (length (hw_nodes hw)))"
    "slice bs 20 28 = LE_PutUint64 (hw_entryPoint hw)" "slice bs 28 32 = LE_PutUint32 (of_int (hw_MaxLevel hw))"
    "bs ! 36 = (if hw_hasEntry hw then 1 else 0)"
    by (simp_all add: bs_def enc_header_def slice_def m codec_simps nth_append)
  show "drop 64 bs = body" using length_enc_header [of hw] by (simp add: bs_def)
qed

lemma byteToMetric_metricToByte:
  "m \<in> {MetricL2, MetricCosine, MetricIP} \<Longrightarrow> byteToMetric (metricToByte m) = m"
  by (auto simp: byteToMetric_def metricToByte_def metric_bytes metric_defs)

lemma sorted_nodes:
  assumes "wf_map m"
  shows "wf_map (sort_key fst m)" and "mget (sort_key fst m) v = mget m v"
proof -
  have "mset (mkeys (sort_key fst m)) = mset (mkeys m)" by simp
  then show wf: "wf_map (sort_key fst m)"
    using assms unfolding wf_map_def by (metis mset_eq_imp_distinct_iff)
  show "mget (sort_key fst m) v = mget m v"
    using mget_in_set [OF wf] mget_in_set [OF assms] by (metis not_None_eq set_sort)
qed

definition saveable :: "HNSWWrapper \<Rightarrow> bool" where
  "saveable hw \<longleftrightarrow> hw_metric hw \<in> {MetricL2, MetricCosine, MetricIP} \<and> length (hw_nodes hw) < 2 ^ 32 \<and>
     hw_MaxLevel hw < 65535 \<and> 0 \<le> hw_MaxLevel hw \<and> hw_M hw \<le> 32767 \<and>
     list_all (\<lambda>p. length (node_Vector (snd p)) < 2 ^ 32) (hw_nodes hw)"

lemma saveable_storable:
  assumes "hnsw_ok hw" and "saveable hw" and "p \<in> set (hw_nodes hw)"
  shows "storable (unat (hw_dimensions hw)) (snd p) \<and> node_ID (snd p) = fst p"
proof -
  have p: "mget (hw_nodes hw) (fst p) = Some (snd p)"
    using assms(1,3) mget_in_set [of "hw_nodes hw" "fst p" "snd p"] by (simp add: hnsw_ok_def)
  then have n: "node_ok hw (fst p) (snd p)" "node_degrees_ok (hw_M hw * 2) (snd p)"
    using assms(1) by (auto simp: hnsw_ok_def degrees_ok_def)
  have "length (node_Vector (snd p)) < 2 ^ 32" using assms(2,3) by (simp add: saveable_def list_all_iff)
  then have "length (node_Vector (snd p)) = unat (hw_dimensions hw)"
    using n(1) unat_of_nat_small [where 'a = 32, of "length (node_Vector (snd p))"] by (simp add: node_ok_def)
  moreover have "node_Level (snd p) < 65535" using n(1) assms(2) by (simp add: node_ok_def saveable_def)
  moreover have "list_all (\<lambda>ns. length ns < 2 ^ 16) (node_Neighbors (snd p))"
    using n(2) assms(2) by (fastforce simp: node_degrees_ok_def list_all_iff saveable_def)
  ultimately show ?thesis using n(1) by (simp add: storable_def node_ok_def)
qed

lemma fold_bare:
  assumes "wf_map nodes" and "p \<in> set nodes"
  shows "mget (fold (\<lambda>(k, v). mput k v) (map bare nodes) []) (fst p) = Some (snd (bare p))"
proof -
  have "wf_map (map bare nodes)" using assms(1) by (simp add: wf_map_def bare_def comp_def)
  moreover have "bare p \<in> set (map bare nodes)" using assms(2) by simp
  then have "mget (map bare nodes) (fst (bare p)) = Some (snd (bare p))"
    using mget_in_set [OF \<open>wf_map (map bare nodes)\<close>] by simp
  ultimately show ?thesis by (simp add: mget_fold_mput bare_def)
qed

lemma Load_Save:
  assumes ok: "hnsw_ok hw" and sv: "saveable hw"
    and "hw_dimensions hw0 = hw_dimensions hw" and "hw_metric hw0 = hw_metric hw"
  shows "\<exists>nodes. hw_Load (Some (snd (hw_Save hw))) hw0 =
      (hw0\<lparr>hw_nodes := nodes, hw_entryPoint := hw_entryPoint hw, hw_hasEntry := hw_hasEntry hw,
           hw_MaxLevel := hw_MaxLevel hw, hw_dirty := False\<rparr>, None) \<and>
    (\<forall>v. mget nodes v = mget (hw_nodes hw) v)"
proof -
  define sorted where "sorted = sort_key fst (hw_nodes hw)"
  define es where "es = node_entries (hw_dimensions hw * 4)
     (of_nat hnswHeaderSize + of_nat (length (hw_nodes hw)) * 24 + of_nat (length (hw_nodes hw)) * (hw_dimensions hw * 4))
     0 0 sorted"
  define vectors where "vectors = concat (map (\<lambda>(nid, node). concat (map LE_PutUint32 (node_Vector node))) sorted)"
  define lists where "lists = concat (map (\<lambda>(nid, node). enc_neighbors node) sorted)"
  define body where "body = concat (map enc_nodeEntry es) @ vectors @ lists"
  have saved: "snd (hw_Save hw) = enc_header hw @ body"
    by (simp add: hw_Save_def Let_def sorted_def es_def vectors_def lists_def body_def)
  have wf: "wf_map (hw_nodes hw)" using ok by (simp add: hnsw_ok_def)
  note srt = sorted_nodes [OF wf, folded sorted_def]
  have sets: "set sorted = set (hw_nodes hw)" by (simp add: sorted_def)
  have st: "list_all (\<lambda>p. storable (unat (hw_dimensions hw)) (snd p)) sorted"
    "list_all (\<lambda>p. node_ID (snd p) = fst p) sorted"
    using saveable_storable [OF ok sv] by (auto simp: list_all_iff sets)
  have es: "list_all2 entry_for es sorted" unfolding es_def by (rule node_entries_for)
  have len: "length es = length (hw_nodes hw)"
    using list_all2_lengthD [OF es] by (simp add: sorted_def)
  have cnt: "unat (of_nat (length (hw_nodes hw)) :: uint32) = length es"
    using sv by (simp add: saveable_def unat_of_nat_small len)
  have tab: "read_items 24 dec_nodeEntry (length es) body = Some (es, vectors @ lists)"
    unfolding body_def by (rule table.read_items_concat)
  let ?bare = "fold (\<lambda>(k, v). mput k v) (map bare sorted) []"
  have vec: "load_vectors (unat (hw_dimensions hw)) es (vectors @ lists) [] = Some (?bare, lists)"
    unfolding vectors_def by (rule load_vectors_saved [OF es st(1)])
  obtain nodes where nb: "load_neighbors es lists ?bare = Some nodes"
    and m: "\<forall>v. mget nodes v = (case mget sorted v of None \<Rightarrow> mget ?bare v | Some node \<Rightarrow> Some node)"
    using load_neighbors_saved [OF es st(1) srt(1) fold_bare [OF srt(1)] st(2), of "[]"]
    by (auto simp: lists_def)
  have "mget ?bare v = None" if "mget sorted v = None" for v
  proof -
    have "wf_map (map bare sorted)" using srt(1) by (simp add: wf_map_def bare_def comp_def)
    moreover have "mget (map bare sorted) v = None"
      using that by (simp add: map_of_eq_None_iff bare_def image_image)
    ultimately show ?thesis by (simp add: mget_fold_mput)
  qed
  with m srt(2) have same: "\<forall>v. mget nodes v = mget (hw_nodes hw) v" by (simp split: option.split)
  have lvl: "uint (of_int (hw_MaxLevel hw) :: uint32) = hw_MaxLevel hw"
    using sv by (simp add: saveable_def unsigned_of_int take_bit_int_eq_self)
  have met: "byteToMetric (metricToByte (hw_metric hw)) = hw_metric hw"
    using sv by (intro byteToMetric_metricToByte) (simp add: saveable_def)
  have "hw_Load (Some (snd (hw_Save hw))) hw0 =
      (hw0\<lparr>hw_nodes := nodes, hw_entryPoint := hw_entryPoint hw, hw_hasEntry := hw_hasEntry hw,
           hw_MaxLevel := hw_MaxLevel hw, hw_dirty := False\<rparr>, None)"
    using assms(3,4) tab vec nb length_enc_header [of hw]
    unfolding hw_Load_def saved
    by (simp add: header_fields Let_def hnswHeaderSize_def codec_simps met cnt lvl)
  with same show ?thesis by blast
qed

subsection \<open>What an index keeps\<close>

text \<open>The configuration of an index is fixed when it is made.\<close>

definition hw_params :: "HNSWWrapper \<Rightarrow> uint32 \<times> DistanceMetric \<times> nat \<times> nat \<times> nat" where
  "hw_params hw = (hw_dimensions hw, hw_metric hw, hw_M hw, hw_EfConstruction hw, hw_EfSearch hw)"

lemma hw_params_eq_iff:
  "hw_params a = hw_params b \<longleftrightarrow> hw_dimensions a = hw_dimensions b \<and> hw_metric a = hw_metric b \<and>
     hw_M a = hw_M b \<and> hw_EfConstruction a = hw_EfConstruction b \<and> hw_EfSearch a = hw_EfSearch b"
  by (simp add: hw_params_def)

lemma hw_params_updates [simp]:
  "hw_params (hw\<lparr>hw_nodes := n\<rparr>) = hw_params hw" "hw_params (hw\<lparr>hw_dirty := b\<rparr>) = hw_params hw"
  "hw_params (hw\<lparr>hw_entryPoint := e\<rparr>) = hw_params hw" "hw_params (hw\<lparr>hw_hasEntry := b\<rparr>) = hw_params hw"
  "hw_params (hw\<lparr>hw_MaxLevel := l\<rparr>) = hw_params hw"
  by (simp_all add: hw_params_def)

lemma same_frame_params: "same_frame hw hw' \<Longrightarrow> hw_params hw' = hw_params hw"
  unfolding same_frame_def by (metis hw_params_updates(1))

lemma fold_params: "(\<And>x hw. hw_params (f x hw) = hw_params hw) \<Longrightarrow> hw_params (fold f xs hw) = hw_params hw"
  by (induction xs arbitrary: hw) simp_all

lemma insert_levels_params: "hw_params (fst (fold (insert_level v vec) ls st)) = hw_params (fst st)"
proof (induction ls arbitrary: st)
  case (Cons l ls)
  obtain hw ep ns where st: "st = (hw, ep, ns)" by (cases st)
  have "hw_params (fst (insert_level v vec l st)) = hw_params hw"
    by (simp add: st insert_level_def Let_def fold_params same_frame_params [OF addConnection_frame])
  with Cons show ?case by (simp add: st)
qed simp

lemma hw_Add_params [simp]: "hw_params (fst (hw_Add rnd v vec hw)) = hw_params hw"
proof -
  have "hw_params hw' = hw_params hw"
    if "fold (insert_level v vec) ls (hw, ep, ns0) = (hw', ep', ns)" for ls ep ns0 hw' ep' ns
    using insert_levels_params [of v vec ls "(hw, ep, ns0)"] that by simp
  then show ?thesis by (simp add: hw_Add_def addUnlocked_def Let_def split: prod.split sum.split)
qed

lemma hw_BatchAdd_params [simp]: "hw_params (fst (hw_BatchAdd rnds items hw)) = hw_params hw"
proof (induction rnds items hw rule: hw_BatchAdd.induct)
  case (2 rnds vid vector items hw)
  then show ?case
    using hw_Add_params [of "rnds 0" vid vector hw]
    by (auto simp: hw_Add_def split: prod.splits option.splits go_error.splits)
qed simp

lemma updateEntryPoint_params: "hw_params (updateEntryPoint ord hw) = hw_params hw"
proof -
  have "hw_params (entry_step p hw) = hw_params hw" for p hw by (cases p) simp
  then show ?thesis by (simp add: updateEntryPoint_def fold_params)
qed

lemma hw_Delete_params [simp]: "hw_params (fst (hw_Delete ord v hw)) = hw_params hw"
proof -
  have "hw_params (fold (\<lambda>(level, neighbors) hw.
          fold (\<lambda>neighborID hw. removeConnection neighborID v level hw) neighbors hw) xs hw) = hw_params hw" for xs
    by (rule fold_params)
      (auto simp: case_prod_beta intro!: fold_params same_frame_params [OF removeConnection_frame])
  then show ?thesis
    by (simp add: hw_Delete_def Let_def updateEntryPoint_params split: option.split)
qed

lemma wf_load_vectors:
  "load_vectors n es bs nodes = Some (nodes', rest) \<Longrightarrow> wf_map nodes \<Longrightarrow> wf_map nodes'"
  by (induction n es bs nodes rule: load_vectors.induct) (auto split: option.splits if_splits)

lemma wf_load_neighbors: "load_neighbors es bs nodes = Some nodes' \<Longrightarrow> wf_map nodes \<Longrightarrow> wf_map nodes'"
  by (induction es bs nodes rule: load_neighbors.induct) (auto split: option.splits if_splits simp: Let_def)

lemma wf_hw_Load: "snd (hw_Load f hw0) = None \<Longrightarrow> wf_map (hw_nodes hw0) \<Longrightarrow> wf_map (hw_nodes (fst (hw_Load f hw0)))"
  by (auto simp: hw_Load_def Let_def wf_load_neighbors wf_load_vectors split: option.splits prod.splits if_splits)

lemma hnsw_ok_cong:
  assumes "hnsw_ok hw" and "wf_map (hw_nodes hw')" and "\<forall>v. mget (hw_nodes hw') v = mget (hw_nodes hw) v"
    and "hw_params hw' = hw_params hw" and "hw_entryPoint hw' = hw_entryPoint hw"
    and "hw_hasEntry hw' = hw_hasEntry hw" and "hw_MaxLevel hw' = hw_MaxLevel hw"
  shows "hnsw_ok hw'"
proof -
  have "hw_nodes hw' = [] \<longleftrightarrow> hw_nodes hw = []"
    using assms(3) by (metis map_of.simps(1) map_of_eq_empty_iff ext)
  then show ?thesis
    using assms by (simp add: hnsw_ok_def entry_ok_def degrees_ok_def node_ok_def hw_params_eq_iff)
qed

lemma Load_Save_ok:
  assumes "hnsw_ok hw" and "saveable hw" and "hw_params hw0 = hw_params hw" and "hw_nodes hw0 = []"
  shows "\<exists>hw'. hw_Load (Some (snd (hw_Save hw))) hw0 = (hw', None) \<and> hnsw_ok hw' \<and>
    hw_params hw' = hw_params hw \<and> vector_of hw' = vector_of hw"
proof -
  obtain nodes where ld: "hw_Load (Some (snd (hw_Save hw))) hw0 =
      (hw0\<lparr>hw_nodes := nodes, hw_entryPoint := hw_entryPoint hw, hw_hasEntry := hw_hasEntry hw,
           hw_MaxLevel := hw_MaxLevel hw, hw_dirty := False\<rparr>, None)" (is "_ = (?hw', _)")
    and same: "\<forall>v. mget nodes v = mget (hw_nodes hw) v"
    using Load_Save [OF assms(1,2), of hw0] assms(3) by (auto simp: hw_params_eq_iff)
  have "wf_map nodes" using wf_hw_Load [of "Some (snd (hw_Save hw))" hw0] ld assms(4) by simp
  then have "hnsw_ok ?hw'" using same assms(3) by (intro hnsw_ok_cong [OF assms(1)]) simp_all
  moreover have "vector_of ?hw' = vector_of hw" using same by (simp add: vector_of_def fun_eq_iff)
  ultimately show ?thesis using ld assms(3) by auto
qed

lemma hw_Save_ok:
  "hnsw_ok hw \<Longrightarrow> hnsw_ok (fst (hw_Save hw))" "vector_of (fst (hw_Save hw)) = vector_of hw"
  "hw_params (fst (hw_Save hw)) = hw_params hw" "saveable hw \<Longrightarrow> saveable (fst (hw_Save hw))"
proof -
  have "fst (hw_Save hw) = hw\<lparr>hw_dirty := False\<rparr>" by (simp add: hw_Save_def Let_def)
  then show "hnsw_ok hw \<Longrightarrow> hnsw_ok (fst (hw_Save hw))" "vector_of (fst (hw_Save hw)) = vector_of hw"
    "hw_params (fst (hw_Save hw)) = hw_params hw" "saveable hw \<Longrightarrow> saveable (fst (hw_Save hw))"
    by (simp_all add: vector_of_def fun_eq_iff saveable_def
        hnsw_ok_def entry_ok_def degrees_ok_def node_ok_def)
qed

subsection \<open>Properties\<close>

text \<open>
  C18. Saving and loading the vector index: for an index that satisfies the invariant and fits the
  widths of the file format (fewer than \<open>2 ^ 32\<close> nodes and components, levels below 65535, one of the
  three metrics), loading the saved bytes into a wrapper with the same dimension and metric succeeds
  and restores every node with its vector, level and neighbour lists, the entry point, the flag and
  the maximal level.
\<close>

theorem hw_Load_Save:
  assumes "hnsw_ok hw" and "saveable hw"
    and "hw_dimensions hw0 = hw_dimensions hw" and "hw_metric hw0 = hw_metric hw"
  shows "\<exists>nodes. hw_Load (Some (snd (hw_Save hw))) hw0 =
      (hw0\<lparr>hw_nodes := nodes, hw_entryPoint := hw_entryPoint hw, hw_hasEntry := hw_hasEntry hw,
           hw_MaxLevel := hw_MaxLevel hw, hw_dirty := False\<rparr>, None) \<and>
    (\<forall>v. mget nodes v = mget (hw_nodes hw) v)"
  using assms by (rule Load_Save)

theorem hw_Load_Save_witness:
  "hnsw_ok sample_hnsw \<and> saveable sample_hnsw \<and>
   snd (hw_Load (Some (snd (hw_Save sample_hnsw))) (NewHNSWWrapper 1 MetricL2)) = None \<and>
   vector_of (fst (hw_Load (Some (snd (hw_Save sample_hnsw))) (NewHNSWWrapper 1 MetricL2))) 7 = Some [f_one]"
proof -
  have sv: "saveable sample_hnsw" by (simp add: saveable_def sample_hnsw_eq)
  have f: "hw_dimensions (NewHNSWWrapper 1 MetricL2) = hw_dimensions sample_hnsw"
    "hw_metric (NewHNSWWrapper 1 MetricL2) = hw_metric sample_hnsw"
    by (simp_all add: NewHNSWWrapper_def sample_hnsw_eq)
  show ?thesis
    using hw_Load_Save [OF sample_hnsw_ok sv f] sample_hnsw_ok sv sample_vector [of 7]
    by (auto simp: vector_of_def)
qed

end
