(* ===== verification/Collection.thy ===== *)
theory Collection
  imports Keyword_Index HNSW_File "HOL-Library.List_Lexorder" "HOL-Library.Char_ord"
begin

section \<open>Collections\<close>

text \<open>
  \<^verbatim>\<open>internal/storage/collection.go\<close>, with \<^verbatim>\<open>ValidateCollectionConfig\<close>, \<^verbatim>\<open>SaveCollectionMeta\<close> and
  \<^verbatim>\<open>LoadCollectionMeta\<close> of \<^verbatim>\<open>hnsw_wrapper.go\<close>: a collection joins the vector index, the keyword
  index and the forward index with two maps kept in memory, and the collection manager owns one
  directory for each collection.

  An operation that changes a collection returns it with its result, so that the changes made
  before an error are part of the model. The file system below \<^verbatim>\<open>indexes\<close> is the field \<open>cm_disk\<close>:
  a map from absolute paths, as lists of components, to the files of a directory. A JSON or gob file
  is the value it holds. Errors of the operating system are modelled for missing directories only.
  Arguments: \<open>ul\<close> is \<^verbatim>\<open>strings.ToLower\<close> beyond ASCII, \<open>rnd\<close> the random draws of an
  insertion, \<open>ord\<close> the order in which a map is visited.
\<close>

text \<open>\<^verbatim>\<open>fmt.Errorf\<close> with \<^verbatim>\<open>%w\<close> wraps an error; a panic passes through unchanged.\<close>

fun wrap_error :: "string \<Rightarrow> go_error \<Rightarrow> go_error" where
  "wrap_error msg (GoPanic p) = GoPanic p"
| "wrap_error msg err = Wrapped msg err"

subsection \<open>Operations of a collection\<close>

type_synonym path = "string list"

record Collection =
  Config :: CollectionConfig
  HNSWIndex :: HNSWWrapper
  KeywordIndex :: InvertedIndex
  DocMap :: ForwardIndex
  coll_basePath :: path
  KeyLengths :: "(string, uint32) gomap"
  KeyIndex :: "(string, uint64 list) gomap"

text \<open>The bookkeeping of one block: the forward index, the keyword index and the two maps.\<close>

definition register_block ::
  "(string \<Rightarrow> string) \<Rightarrow> string \<Rightarrow> BlockData \<Rightarrow> uint64 \<Rightarrow> uint32 \<Rightarrow> Collection \<Rightarrow> Collection" where
  "register_block ul key block vectorID index c =
     c\<lparr>DocMap := FI_Add vectorID key index (DocMap c),
       KeywordIndex := (if length (BlockKeywords block) > 0
                        then II_Add ul (BlockKeywords block) vectorID (KeywordIndex c) else KeywordIndex c),
       KeyLengths := mput key (mget0 0 (KeyLengths c) key + 1) (KeyLengths c),
       KeyIndex := mput key (mget0 [] (KeyIndex c) key @ [vectorID]) (KeyIndex c)\<rparr>"

definition Coll_AppendBlock ::
  "(string \<Rightarrow> string) \<Rightarrow> (nat \<Rightarrow> bool) \<Rightarrow> string \<Rightarrow> BlockData \<Rightarrow> Collection \<Rightarrow> Collection \<times> (go_error + uint32)" where
  "Coll_AppendBlock ul rnd key block c =
     (let index = mget0 0 (KeyLengths c) key;
          vectorID = GetNextVectorID (DocMap c);
          (hnsw, err) = (if length (Vector block) > 0 then hw_Add rnd vectorID (Vector block) (HNSWIndex c)
                         else (HNSWIndex c, None));
          c = c\<lparr>HNSWIndex := hnsw\<rparr>
      in case err of
           Some e \<Rightarrow> (c, Inl (wrap_error ''failed to add vector'' e))
         | None \<Rightarrow> (register_block ul key block vectorID index c, Inr index))"

text \<open>The loop of \<^verbatim>\<open>BatchAppendBlocks\<close>: the collection, the results and the prepared vectors.\<close>

fun batch_register ::
  "(string \<Rightarrow> string) \<Rightarrow> string list \<Rightarrow> BlockData list \<Rightarrow>
   Collection \<times> (uint64 \<times> uint32) list \<times> (uint64 \<times> float32 list) list \<Rightarrow>
   Collection \<times> (go_error + (uint64 \<times> uint32) list \<times> (uint64 \<times> float32 list) list)" where
  "batch_register ul [] blocks (c, results, hnswItems) = (c, Inr (results, hnswItems))"
| "batch_register ul (key # keys) [] (c, results, hnswItems) = (c, Inl (GoPanic ''index out of range''))"
| "batch_register ul (key # keys) (block # blocks) (c, results, hnswItems) =
     (let index = mget0 0 (KeyLengths c) key;
          vectorID = GetNextVectorID (DocMap c);
          hnswItems = (if length (Vector block) > 0 then hnswItems @ [(vectorID, Vector block)] else hnswItems)
      in batch_register ul keys blocks
           (register_block ul key block vectorID index c, results @ [(vectorID, index)], hnswItems))"

definition Coll_BatchAppendBlocks ::
  "(string \<Rightarrow> string) \<Rightarrow> (nat \<Rightarrow> nat \<Rightarrow> bool) \<Rightarrow> string list \<Rightarrow> BlockData list \<Rightarrow> Collection \<Rightarrow>
   Collection \<times> (go_error + (uint64 \<times> uint32) list)" where
  "Coll_BatchAppendBlocks ul rnds keys blocks c =
     (case batch_register ul keys blocks (c, [], []) of
        (c, Inl err) \<Rightarrow> (c, Inl err)
      | (c, Inr (results, hnswItems)) \<Rightarrow>
          if length hnswItems > 0 then
            (case hw_BatchAdd rnds hnswItems (HNSWIndex c) of
               (hnsw, Some err) \<Rightarrow> (c\<lparr>HNSWIndex := hnsw\<rparr>, Inl (wrap_error ''HNSW batch add failed'' err))
             | (hnsw, None) \<Rightarrow> (c\<lparr>HNSWIndex := hnsw\<rparr>, Inr results))
          else (c, Inr results))"

text \<open>The filter of a search: nil, the keyword matches, the ids of the keys, or both.\<close>

definition keyBitset :: "Collection \<Rightarrow> string list \<Rightarrow> BitSet" where
  "keyBitset c keys = fold (\<lambda>key bs. fold SetBit (mget0 [] (KeyIndex c) key) bs) keys NewBitSet"

definition search_filter ::
  "(string \<Rightarrow> string) \<Rightarrow> Collection \<Rightarrow> SearchFilter option \<Rightarrow> BitSet option" where
  "search_filter ul c flt =
     (case flt of
        None \<Rightarrow> None
      | Some f \<Rightarrow>
          let bitset = (if length (FilterKeywords f) > 0
                        then II_Search ul (KeywordIndex c) (FilterKeywords f) (KeywordMode f) (MaxDistance f)
                        else None)
          in if length (FilterKeys f) > 0 then
               (case bitset of
                  None \<Rightarrow> Some (keyBitset c (FilterKeys f))
                | Some bs \<Rightarrow> Some (Intersect (Some bs) (Some (keyBitset c (FilterKeys f)))))
             else bitset)"

definition Coll_Search ::
  "(string \<Rightarrow> string) \<Rightarrow> Collection \<Rightarrow> float32 list \<Rightarrow> uint32 \<Rightarrow> SearchFilter option \<Rightarrow>
   go_error + SearchResultItem list" where
  "Coll_Search ul c queryVector topK flt =
     (case hw_Search (HNSWIndex c) queryVector (unat topK) (search_filter ul c flt) of
        Inl err \<Rightarrow> Inl err
      | Inr hnswResults \<Rightarrow>
          Inr (concat (map (\<lambda>hr. case FI_Get (DocMap c) (VectorID hr) of
                 None \<Rightarrow> []
               | Some loc \<Rightarrow> [\<lparr>ItemKey = LocKey loc, ItemIndex = LocIndex loc, ItemDistance = Distance hr,
                                ItemBlock = None\<rparr>]) hnswResults)))"

definition Coll_KeywordSearch ::
  "(string \<Rightarrow> string) \<Rightarrow> Collection \<Rightarrow> string list \<Rightarrow> string \<Rightarrow> uint32 \<Rightarrow> string list" where
  "Coll_KeywordSearch ul c keywords mode maxDistance =
     (case II_Search ul (KeywordIndex c) keywords mode maxDistance of
        None \<Rightarrow> []
      | Some bitset \<Rightarrow>
          if IsEmpty bitset then []
          else mkeys (fold (\<lambda>vectorID uniqueKeys. case FI_Get (DocMap c) vectorID of
                 None \<Rightarrow> uniqueKeys
               | Some loc \<Rightarrow> mput (LocKey loc) () uniqueKeys) (ToSlice bitset) []))"

definition Coll_DeleteKey ::
  "((uint64, hnswNode) gomap \<Rightarrow> (uint64, hnswNode) gomap) \<Rightarrow> string \<Rightarrow> Collection \<Rightarrow>
   Collection \<times> go_error option" where
  "Coll_DeleteKey ord key c =
     (case mget (KeyIndex c) key of
        None \<Rightarrow> (c, Some KeyNotFound)
      | Some vectorIDs \<Rightarrow>
          let c = fold (\<lambda>vid c. c\<lparr>HNSWIndex := fst (hw_Delete ord vid (HNSWIndex c)),
                                    DocMap := FI_Delete vid (DocMap c)\<rparr>) vectorIDs c
          in (c\<lparr>KeyLengths := mdel key (KeyLengths c), KeyIndex := mdel key (KeyIndex c)\<rparr>, None))"

definition Coll_GetKeyLength :: "Collection \<Rightarrow> string \<Rightarrow> go_error + uint32" where
  "Coll_GetKeyLength c key =
     (case mget (KeyLengths c) key of Some l \<Rightarrow> Inr l | None \<Rightarrow> Inl KeyNotFound)"

definition GetBlockVectorID :: "Collection \<Rightarrow> string \<Rightarrow> uint32 \<Rightarrow> go_error + uint64" where
  "GetBlockVectorID c key index =
     (case mget (KeyIndex c) key of
        None \<Rightarrow> Inl KeyNotFound
      | Some vectorIDs \<Rightarrow>
          (case find (\<lambda>vid. case FI_Get (DocMap c) vid of
                       None \<Rightarrow> False | Some loc \<Rightarrow> LocIndex loc = index) vectorIDs of
             None \<Rightarrow> Inl BlockNotFound
           | Some vid \<Rightarrow> Inr vid))"

definition Coll_ListKeys :: "Collection \<Rightarrow> string list" where
  "Coll_ListKeys c = mkeys (KeyLengths c)"

definition Coll_ContainsKey :: "Collection \<Rightarrow> string \<Rightarrow> bool" where
  "Coll_ContainsKey c key = (mget (KeyLengths c) key \<noteq> None)"

definition Coll_Count :: "Collection \<Rightarrow> uint64" where
  "Coll_Count c = hw_Count (HNSWIndex c)"

definition GetVectorByID :: "Collection \<Rightarrow> uint64 \<Rightarrow> float32 list option" where
  "GetVectorByID c vid = map_option node_Vector (mget (hw_nodes (HNSWIndex c)) vid)"

fun rebuild_step :: "uint64 \<times> DocLocation \<Rightarrow> Collection \<Rightarrow> Collection" where
  "rebuild_step (vid, loc) c =
     (let c = c\<lparr>KeyIndex := mput (LocKey loc) (mget0 [] (KeyIndex c) (LocKey loc) @ [vid]) (KeyIndex c)\<rparr>
      in if LocIndex loc \<ge> mget0 0 (KeyLengths c) (LocKey loc)
         then c\<lparr>KeyLengths := mput (LocKey loc) (LocIndex loc + 1) (KeyLengths c)\<rparr> else c)"

definition rebuildMemoryIndexes ::
  "((uint64, DocLocation) gomap \<Rightarrow> (uint64, DocLocation) gomap) \<Rightarrow> Collection \<Rightarrow> Collection" where
  "rebuildMemoryIndexes ord c = fold rebuild_step (ord (mapping (DocMap c))) c"

subsection \<open>Directories\<close>

text \<open>
  \<^verbatim>\<open>filepath.Join\<close> cleans its result: empty and \<^verbatim>\<open>.\<close> components vanish, \<^verbatim>\<open>..\<close> removes the
  component before it. The base path is absolute, so \<^verbatim>\<open>..\<close> at the root is dropped.
\<close>

fun split_slash :: "string \<Rightarrow> string list" where
  "split_slash [] = [[]]"
| "split_slash (c # cs) =
     (if c = CHR ''/'' then [] # split_slash cs
      else case split_slash cs of [] \<Rightarrow> [[c]] | p # ps \<Rightarrow> (c # p) # ps)"

fun clean_step :: "string \<Rightarrow> path \<Rightarrow> path" where
  "clean_step part p =
     (if part = [] \<or> part = ''.'' then p
      else if part = ''..'' then butlast p
      else p @ [part])"

definition filepath_Join :: "path \<Rightarrow> string \<Rightarrow> path" where
  "filepath_Join base name = fold clean_step (split_slash name) base"

record CollectionMeta =
  meta_Name :: string
  meta_Dimensions :: uint32
  meta_Metric :: DistanceMetric

text \<open>The files of one directory below \<^verbatim>\<open>indexes\<close>.\<close>

record coll_dir =
  meta_json :: "CollectionMeta gob_file"
  vectors_hnsw :: "bytes option"
  keywords_inv :: "(string, uint64 list) gomap gob_file"
  doc_map_bin :: "(uint64, DocLocation) gomap gob_file"

type_synonym disk = "(path, coll_dir) gomap"

definition empty_dir :: coll_dir where
  "empty_dir = \<lparr>meta_json = NoFile, vectors_hnsw = None, keywords_inv = NoFile, doc_map_bin = NoFile\<rparr>"

text \<open>
  \<^verbatim>\<open>os.MkdirAll\<close> creates a directory and its missing ancestors and leaves an existing one as it is;
  \<^verbatim>\<open>os.RemoveAll\<close> removes a directory with everything below it.
\<close>

definition MkdirAll :: "path \<Rightarrow> disk \<Rightarrow> disk" where
  "MkdirAll p d =
     fold (\<lambda>i d. if mget d (take i p) = None then mput (take i p) empty_dir d else d) [0..<length p + 1] d"

definition RemoveAll :: "path \<Rightarrow> disk \<Rightarrow> disk" where
  "RemoveAll p d = filter (\<lambda>(q, _). take (length p) q \<noteq> p) d"

text \<open>Writing one file of an existing directory; \<^verbatim>\<open>os.Create\<close> fails when the directory is missing.\<close>

definition write_file :: "path \<Rightarrow> (coll_dir \<Rightarrow> coll_dir) \<Rightarrow> disk \<Rightarrow> disk \<times> go_error option" where
  "write_file p upd d =
     (case mget d p of None \<Rightarrow> (d, Some FileNotFound) | Some dir \<Rightarrow> (mput p (upd dir) d, None))"

text \<open>\<^verbatim>\<open>encoding/json\<close> replaces what is not UTF-8 in a string, as a conversion to runes and back does.\<close>

definition SaveCollectionMeta :: "path \<Rightarrow> CollectionMeta \<Rightarrow> disk \<Rightarrow> disk \<times> go_error option" where
  "SaveCollectionMeta p meta d =
     write_file p (\<lambda>dir. dir\<lparr>meta_json := GobFile (meta\<lparr>meta_Name := string_of_runes (runes (meta_Name meta)),
                     meta_Metric := string_of_runes (runes (meta_Metric meta))\<rparr>)\<rparr>) d"

definition LoadCollectionMeta :: "path \<Rightarrow> disk \<Rightarrow> go_error + CollectionMeta" where
  "LoadCollectionMeta p d =
     (case mget d p of
        None \<Rightarrow> Inl FileNotFound
      | Some dir \<Rightarrow>
          (case meta_json dir of
             NoFile \<Rightarrow> Inl FileNotFound
           | BadFile \<Rightarrow> Inl UnexpectedEOF
           | GobFile meta \<Rightarrow> Inr meta))"

definition ValidateCollectionConfig :: "CollectionConfig \<Rightarrow> go_error option" where
  "ValidateCollectionConfig config =
     (if Name config = [] then Some NameEmpty
      else if Dimensions config = 0 then Some DimensionsZero
      else if Metric config = MetricL2 \<or> Metric config = MetricCosine \<or> Metric config = MetricIP then None
      else Some InvalidMetric)"

subsection \<open>Persistence of a collection\<close>

definition Coll_FlushHNSW :: "Collection \<Rightarrow> disk \<Rightarrow> Collection \<times> disk \<times> go_error option" where
  "Coll_FlushHNSW c d =
     (let (hnsw, file) = hw_Save (HNSWIndex c)
      in case write_file (coll_basePath c) (\<lambda>dir. dir\<lparr>vectors_hnsw := Some file\<rparr>) d of
           (d, Some err) \<Rightarrow> (c, d, Some err)
         | (d, None) \<Rightarrow> (c\<lparr>HNSWIndex := hnsw\<rparr>, d, None))"

text \<open>The errors of the three writes are joined; here the first one stands for them.\<close>

definition first_error :: "go_error option list \<Rightarrow> go_error option" where
  "first_error errs = (case filter (\<lambda>e. e \<noteq> None) errs of [] \<Rightarrow> None | e # _ \<Rightarrow> e)"

definition Coll_Save :: "Collection \<Rightarrow> disk \<Rightarrow> Collection \<times> disk \<times> go_error option" where
  "Coll_Save c d =
     (let (c, d, err1) = Coll_FlushHNSW c d;
          (d, err2) = write_file (coll_basePath c) (\<lambda>dir. dir\<lparr>keywords_inv := II_Save (KeywordIndex c)\<rparr>) d;
          (d, err3) = write_file (coll_basePath c) (\<lambda>dir. dir\<lparr>doc_map_bin := FI_Save (DocMap c)\<rparr>) d
      in (c, d, first_error [err1, err2, err3]))"

text \<open>\<^verbatim>\<open>HNSWIndex.Close\<close> does nothing, so closing a collection is saving it.\<close>

definition hw_Close :: "HNSWWrapper \<Rightarrow> go_error option" where
  "hw_Close hw = None"

definition Coll_Close :: "Collection \<Rightarrow> disk \<Rightarrow> Collection \<times> disk \<times> go_error option" where
  "Coll_Close c d =
     (let (c, d, err1) = Coll_FlushHNSW c d;
          err2 = hw_Close (HNSWIndex c);
          (d, err3) = write_file (coll_basePath c) (\<lambda>dir. dir\<lparr>keywords_inv := II_Save (KeywordIndex c)\<rparr>) d;
          (d, err4) = write_file (coll_basePath c) (\<lambda>dir. dir\<lparr>doc_map_bin := FI_Save (DocMap c)\<rparr>) d
      in (c, d, first_error [err1, err2, err3, err4]))"

subsection \<open>The collection manager\<close>

record CollectionManager =
  collections :: "(string, Collection) gomap"
  cm_basePath :: path
  cm_disk :: disk

definition loadCollection ::
  "((uint64, DocLocation) gomap \<Rightarrow> (uint64, DocLocation) gomap) \<Rightarrow> CollectionMeta \<Rightarrow> CollectionManager \<Rightarrow>
   go_error + Collection" where
  "loadCollection ord meta cm =
     (let collPath = filepath_Join (cm_basePath cm) (meta_Name meta);
          dir = (case mget (cm_disk cm) collPath of None \<Rightarrow> empty_dir | Some dir \<Rightarrow> dir);
          hnsw = NewHNSWWrapper (meta_Dimensions meta) (meta_Metric meta)
      in case hw_Load (vectors_hnsw dir) hnsw of
           (_, Some err) \<Rightarrow> Inl err
         | (hnsw, None) \<Rightarrow>
             (case II_Load (keywords_inv dir) NewInvertedIndex of
                (_, Some err) \<Rightarrow> Inl err
              | (kwIndex, None) \<Rightarrow>
                  (case FI_Load (doc_map_bin dir) NewForwardIndex of
                     (_, Some err) \<Rightarrow> Inl err
                   | (docMap, None) \<Rightarrow>
                       Inr (rebuildMemoryIndexes ord
                         \<lparr>Config = \<lparr>Name = meta_Name meta, Dimensions = meta_Dimensions meta,
                                    Metric = meta_Metric meta\<rparr>,
                          HNSWIndex = hnsw, KeywordIndex = kwIndex, DocMap = docMap,
                          coll_basePath = collPath, KeyLengths = [], KeyIndex = []\<rparr>))))"

text \<open>\<^verbatim>\<open>os.ReadDir\<close> lists the entries of a directory by name; only its subdirectories matter.\<close>

definition ReadDir :: "path \<Rightarrow> disk \<Rightarrow> path list" where
  "ReadDir p d = sort (filter (\<lambda>q. q \<noteq> [] \<and> butlast q = p) (mkeys d))"

fun load_dirs ::
  "((uint64, DocLocation) gomap \<Rightarrow> (uint64, DocLocation) gomap) \<Rightarrow> path list \<Rightarrow> CollectionManager \<Rightarrow>
   CollectionManager \<times> go_error option" where
  "load_dirs ord [] cm = (cm, None)"
| "load_dirs ord (p # ps) cm =
     (case LoadCollectionMeta p (cm_disk cm) of
        Inl err \<Rightarrow> load_dirs ord ps cm
      | Inr meta \<Rightarrow>
          (case loadCollection ord meta cm of
             Inl err \<Rightarrow> (cm, Some (wrap_error ''failed to load collection'' err))
           | Inr coll \<Rightarrow> load_dirs ord ps (cm\<lparr>collections := mput (meta_Name meta) coll (collections cm)\<rparr>)))"

definition loadExistingCollections ::
  "((uint64, DocLocation) gomap \<Rightarrow> (uint64, DocLocation) gomap) \<Rightarrow> CollectionManager \<Rightarrow>
   CollectionManager \<times> go_error option" where
  "loadExistingCollections ord cm = load_dirs ord (ReadDir (cm_basePath cm) (cm_disk cm)) cm"

definition NewCollectionManager ::
  "((uint64, DocLocation) gomap \<Rightarrow> (uint64, DocLocation) gomap) \<Rightarrow> path \<Rightarrow> disk \<Rightarrow>
   go_error + CollectionManager" where
  "NewCollectionManager ord dataPath d =
     (let indexesPath = filepath_Join dataPath ''indexes'';
          cm = \<lparr>collections = [], cm_basePath = indexesPath, cm_disk = MkdirAll indexesPath d\<rparr>
      in case loadExistingCollections ord cm of
           (_, Some err) \<Rightarrow> Inl err
         | (cm, None) \<Rightarrow> Inr cm)"

definition CreateCollection ::
  "string \<Rightarrow> uint32 \<Rightarrow> DistanceMetric \<Rightarrow> CollectionManager \<Rightarrow> CollectionManager \<times> go_error option" where
  "CreateCollection name dims metric cm =
     (if mget (collections cm) name \<noteq> None then (cm, Some CollectionExists)
      else
        let config = \<lparr>Name = name, Dimensions = dims, Metric = metric\<rparr>
        in case ValidateCollectionConfig config of
             Some err \<Rightarrow> (cm, Some err)
           | None \<Rightarrow>
               let collPath = filepath_Join (cm_basePath cm) name;
                   d = MkdirAll collPath (cm_disk cm)
               in case SaveCollectionMeta collPath
                         \<lparr>meta_Name = name, meta_Dimensions = dims, meta_Metric = metric\<rparr> d of
                    (d, Some err) \<Rightarrow>
                      (cm\<lparr>cm_disk := RemoveAll collPath d\<rparr>,
                       Some (wrap_error ''failed to save collection metadata'' err))
                  | (d, None) \<Rightarrow>
                      (cm\<lparr>cm_disk := d,
                          collections := mput name
                            \<lparr>Config = config, HNSWIndex = NewHNSWWrapper dims metric,
                             KeywordIndex = NewInvertedIndex, DocMap = NewForwardIndex,
                             coll_basePath = collPath, KeyLengths = [], KeyIndex = []\<rparr> (collections cm)\<rparr>,
                       None))"

definition CM_DeleteCollection :: "string \<Rightarrow> CollectionManager \<Rightarrow> CollectionManager \<times> go_error option" where
  "CM_DeleteCollection name cm =
     (case mget (collections cm) name of
        None \<Rightarrow> (cm, Some CollectionNotFound)
      | Some coll \<Rightarrow>
          let (coll, d, _) = Coll_Close coll (cm_disk cm)
          in (cm\<lparr>collections := mdel name (collections cm), cm_disk := RemoveAll (coll_basePath coll) d\<rparr>, None))"

definition GetCollection :: "CollectionManager \<Rightarrow> string \<Rightarrow> go_error + Collection" where
  "GetCollection cm name =
     (case mget (collections cm) name of None \<Rightarrow> Inl CollectionNotFound | Some coll \<Rightarrow> Inr coll)"

definition ListCollections :: "CollectionManager \<Rightarrow> CollectionConfig list" where
  "ListCollections cm = map (\<lambda>(_, coll). Config coll) (collections cm)"

text \<open>Storing a changed collection back stands for the update through its pointer.\<close>

definition set_collection :: "string \<Rightarrow> Collection \<Rightarrow> disk \<Rightarrow> CollectionManager \<Rightarrow> CollectionManager" where
  "set_collection name coll d cm = cm\<lparr>collections := mput name coll (collections cm), cm_disk := d\<rparr>"

definition CM_Close :: "CollectionManager \<Rightarrow> CollectionManager \<times> go_error option" where
  "CM_Close cm =
     fold (\<lambda>(name, coll) (cm, lastErr).
             let (coll, d, err) = Coll_Close coll (cm_disk cm)
             in (set_collection name coll d cm, if err = None then lastErr else err))
       (collections cm) (cm, None)"

end
