(* ===== verification/Collection_Rep.thy ===== *)
theory Collection_Rep
  imports Collection
begin

section \<open>Correctness of collections\<close>

text \<open>
  The specification of a collection is a map from keys to the list of their blocks, each block its
  vector id and its vector (empty when the block has none). \<open>coll_rep\<close> relates a collection to its
  specification: the forward index locates exactly the blocks, the vector index holds exactly their
  non-empty vectors, and the two maps in memory agree with them. The ids of a key may be listed in
  any order, as they are after a restart.
\<close>

type_synonym coll_spec = "string \<rightharpoonup> (uint64 \<times> float32 list) list"

definition blocks_of :: "coll_spec \<Rightarrow> string \<Rightarrow> (uint64 \<times> float32 list) list" where
  "blocks_of A k = (case A k of None \<Rightarrow> [] | Some bs \<Rightarrow> bs)"

definition located :: "coll_spec \<Rightarrow> uint64 \<Rightarrow> DocLocation \<Rightarrow> bool" where
  "located A v loc \<longleftrightarrow> unat (LocIndex loc) < length (blocks_of A (LocKey loc)) \<and>
     fst (blocks_of A (LocKey loc) ! unat (LocIndex loc)) = v"

definition holds_vector :: "coll_spec \<Rightarrow> uint64 \<Rightarrow> float32 list \<Rightarrow> bool" where
  "holds_vector A v vec \<longleftrightarrow> vec \<noteq> [] \<and> (\<exists>k. (v, vec) \<in> set (blocks_of A k))"

definition memory_rep :: "Collection \<Rightarrow> coll_spec \<Rightarrow> bool" where
  "memory_rep c A \<longleftrightarrow> wf_map (KeyLengths c) \<and> wf_map (KeyIndex c) \<and>
     (\<forall>k. mget (KeyLengths c) k = map_option (\<lambda>bs. of_nat (length bs)) (A k)) \<and>
     (\<forall>k. map_option mset (mget (KeyIndex c) k) = map_option (\<lambda>bs. mset (map fst bs)) (A k))"

definition spec_ok :: "coll_spec \<Rightarrow> bool" where
  "spec_ok A \<longleftrightarrow> (\<forall>k. A k \<noteq> Some [] \<and> length (blocks_of A k) < 2 ^ 32)"

definition docs_rep :: "ForwardIndex \<Rightarrow> coll_spec \<Rightarrow> bool" where
  "docs_rep fi A \<longleftrightarrow> wf_map (mapping fi) \<and> spec_ok A \<and> (\<forall>v loc. FI_Get fi v = Some loc \<longleftrightarrow> located A v loc)"

definition vecs_rep :: "CollectionConfig \<Rightarrow> HNSWWrapper \<Rightarrow> coll_spec \<Rightarrow> bool" where
  "vecs_rep cfg hw A \<longleftrightarrow> hnsw_ok hw \<and> hw_params hw = (Dimensions cfg, Metric cfg, 16, 200, 100) \<and>
     (\<forall>v vec. vector_of hw v = Some vec \<longleftrightarrow> holds_vector A v vec)"

definition coll_rep :: "Collection \<Rightarrow> coll_spec \<Rightarrow> bool" where
  "coll_rep c A \<longleftrightarrow> memory_rep c A \<and> docs_rep (DocMap c) A \<and> vecs_rep (Config c) (HNSWIndex c) A"

definition add_block :: "string \<Rightarrow> uint64 \<times> float32 list \<Rightarrow> coll_spec \<Rightarrow> coll_spec" where
  "add_block k b A = A(k \<mapsto> blocks_of A k @ [b])"

subsection \<open>Facts about specifications\<close>

lemma blocks_of_empty [simp]: "blocks_of Map.empty k = []"
  by (simp add: blocks_of_def)

lemma blocks_of_Some [simp]: "A k = Some bs \<Longrightarrow> blocks_of A k = bs"
  by (simp add: blocks_of_def)

lemma blocks_of_add [simp]:
  "blocks_of (add_block k b A) k' = (if k' = k then blocks_of A k @ [b] else blocks_of A k')"
  by (simp add: blocks_of_def add_block_def)

lemma blocks_of_remove [simp]: "blocks_of (A(k := None)) k' = (if k' = k then [] else blocks_of A k')"
  by (simp add: blocks_of_def)

lemma located_add:
  assumes "length (blocks_of A k) < 2 ^ 32 - 1"
  shows "located (add_block k (n, vec) A) v loc \<longleftrightarrow>
    v = n \<and> loc = \<lparr>LocKey = k, LocIndex = of_nat (length (blocks_of A k))\<rparr> \<or> located A v loc"
proof -
  have u: "unat (of_nat (length (blocks_of A k)) :: uint32) = length (blocks_of A k)"
    using assms by (intro unat_of_nat_small) simp
  have "LocIndex loc = of_nat (length (blocks_of A k)) \<longleftrightarrow> unat (LocIndex loc) = length (blocks_of A k)"
    using u by (metis word_unat_eq_iff)
  then show ?thesis
    by (cases loc) (auto simp: located_def nth_append u less_Suc_eq)
qed

lemma located_remove: "located (A(k := None)) v loc \<longleftrightarrow> LocKey loc \<noteq> k \<and> located A v loc"
  by (auto simp: located_def)

lemma located_unique: "docs_rep fi A \<Longrightarrow> located A v loc \<Longrightarrow> located A v loc' \<Longrightarrow> loc = loc'"
  unfolding docs_rep_def by (metis option.inject)

text \<open>A block at position \<open>i\<close> of a key is located there.\<close>

lemma located_at:
  assumes "spec_ok A" and "i < length (blocks_of A k)"
  shows "located A (fst (blocks_of A k ! i)) \<lparr>LocKey = k, LocIndex = of_nat i\<rparr>"
proof -
  have "i < 2 ^ 32" using assms by (metis less_trans spec_ok_def)
  then have "unat (of_nat i :: uint32) = i" by (intro unat_of_nat_small) simp
  then show ?thesis using assms(2) by (simp add: located_def)
qed

lemma located_member:
  assumes "spec_ok A" and "(v, vec) \<in> set (blocks_of A k)"
  obtains i where "located A v \<lparr>LocKey = k, LocIndex = of_nat i\<rparr>" and "i < length (blocks_of A k)"
    and "blocks_of A k ! i = (v, vec)"
proof -
  obtain i where i: "i < length (blocks_of A k)" "blocks_of A k ! i = (v, vec)"
    using assms(2) by (auto simp: in_set_conv_nth)
  with located_at [OF assms(1) i(1)] that show thesis by auto
qed

lemma ids_distinct:
  assumes "docs_rep fi A" and "(v, x) \<in> set (blocks_of A k)" and "(v, y) \<in> set (blocks_of A k')"
  shows "k = k' \<and> x = y"
proof -
  have ok: "spec_ok A" using assms(1) by (simp add: docs_rep_def)
  obtain i where i: "located A v \<lparr>LocKey = k, LocIndex = of_nat i\<rparr>" "i < length (blocks_of A k)"
    "blocks_of A k ! i = (v, x)" using located_member [OF ok assms(2)] .
  obtain j where j: "located A v \<lparr>LocKey = k', LocIndex = of_nat j\<rparr>" "j < length (blocks_of A k')"
    "blocks_of A k' ! j = (v, y)" using located_member [OF ok assms(3)] .
  have same: "k = k'" "(of_nat i :: uint32) = of_nat j" using located_unique [OF assms(1) i(1) j(1)] by simp_all
  have "i < 2 ^ 32" "j < 2 ^ 32" using i(2) j(2) ok by (metis less_trans spec_ok_def)+
  then have "unat (of_nat i :: uint32) = i" "unat (of_nat j :: uint32) = j" by (simp_all add: unat_of_nat_small)
  with same(2) have "i = j" by metis
  with i(3) j(3) same(1) show ?thesis by simp
qed

lemma key_length: "memory_rep c A \<Longrightarrow> mget0 0 (KeyLengths c) k = of_nat (length (blocks_of A k))"
  by (simp add: memory_rep_def mget0_def blocks_of_def split: option.split)

lemma key_ids: "memory_rep c A \<Longrightarrow> mset (mget0 [] (KeyIndex c) k) = mset (map fst (blocks_of A k))"
  unfolding memory_rep_def mget0_def blocks_of_def
  by (elim conjE, drule spec [of _ k], drule spec [of _ k]) (auto split: option.splits)

lemma key_ids_set: "memory_rep c A \<Longrightarrow> set (mget0 [] (KeyIndex c) k) = fst ` set (blocks_of A k)"
  using key_ids [of c A k] by (metis set_map set_mset_mset)

subsection \<open>One block\<close>

text \<open>A fresh id: one the forward index does not hold.\<close>

lemma fresh_id:
  assumes "docs_rep fi A" and "FI_Get fi (- 1) = None"
  shows "\<not> located A (GetNextVectorID fi) loc" and "(GetNextVectorID fi, vec) \<notin> set (blocks_of A k)"
proof -
  show l: "\<not> located A (GetNextVectorID fi) loc" for loc
    using assms fwd.next_fresh [of fi] unfolding docs_rep_def by (metis option.distinct(1))
  show "(GetNextVectorID fi, vec) \<notin> set (blocks_of A k)"
    using l located_member [of A "GetNextVectorID fi" vec k] assms(1) by (auto simp: docs_rep_def)
qed

lemma register_docs:
  assumes "docs_rep fi A" and "FI_Get fi (- 1) = None" and "length (blocks_of A k) < 2 ^ 32 - 1"
  shows "docs_rep (FI_Add (GetNextVectorID fi) k (of_nat (length (blocks_of A k))) fi)
    (add_block k (GetNextVectorID fi, vec) A)"
proof -
  have "spec_ok (add_block k (GetNextVectorID fi, vec) A)"
    using assms(1,3) by (simp add: docs_rep_def spec_ok_def) (simp add: add_block_def)
  then show ?thesis
    using assms(1) fresh_id(1) [OF assms(1,2)]
    by (auto simp: docs_rep_def located_add [OF assms(3)] FI_Add_def FI_Get_def)
qed

lemma register_memory:
  assumes "memory_rep c A"
  shows "memory_rep (register_block ul k block n (mget0 0 (KeyLengths c) k) c) (add_block k (n, vec) A)"
  using assms key_length [OF assms, of k] key_ids [OF assms, of k]
  by (auto simp: memory_rep_def register_block_def add_block_def)

lemma holds_vector_add:
  "holds_vector (add_block k (n, vec) A) v x \<longleftrightarrow> x \<noteq> [] \<and> (v, x) = (n, vec) \<or> holds_vector A v x"
proof -
  have "(\<exists>k'. (v, x) \<in> set (blocks_of (add_block k (n, vec) A) k')) \<longleftrightarrow>
      (v, x) = (n, vec) \<or> (\<exists>k'. (v, x) \<in> set (blocks_of A k'))" (is "?L \<longleftrightarrow> ?R")
  proof
    assume ?L
    then obtain k' where "(v, x) \<in> set (blocks_of (add_block k (n, vec) A) k')" ..
    then show ?R by (cases "k' = k") (auto simp del: prod.inject)
  next
    assume ?R
    then consider "(v, x) = (n, vec)" | k' where "(v, x) \<in> set (blocks_of A k')" by blast
    then show ?L
    proof cases
      case 1
      then have "(v, x) \<in> set (blocks_of (add_block k (n, vec) A) k)" by simp
      then show ?thesis ..
    next
      case 2
      then have "(v, x) \<in> set (blocks_of (add_block k (n, vec) A) k')" by auto
      then show ?thesis ..
    qed
  qed
  then show ?thesis unfolding holds_vector_def by blast
qed

lemma vecs_add:
  assumes "vecs_rep cfg hw A" and "vector_of hw' = (vector_of hw)(n \<mapsto> vec)" and "hnsw_ok hw'"
    and "hw_params hw' = hw_params hw" and "vec \<noteq> []" and "\<And>x k. (n, x) \<notin> set (blocks_of A k)"
  shows "vecs_rep cfg hw' (add_block k (n, vec) A)"
proof -
  have "\<not> holds_vector A n x" for x using assms(6) by (simp add: holds_vector_def)
  then show ?thesis using assms(1-5) by (auto simp: vecs_rep_def holds_vector_add)
qed

lemma vecs_add_empty: "vecs_rep cfg hw A \<Longrightarrow> vecs_rep cfg hw (add_block k (n, []) A)"
  by (auto simp: vecs_rep_def holds_vector_add)

lemma register_block_fields [simp]:
  "HNSWIndex (register_block ul k block n i c) = HNSWIndex c"
  "Config (register_block ul k block n i c) = Config c"
  "coll_basePath (register_block ul k block n i c) = coll_basePath c"
  "DocMap (register_block ul k block n i c) = FI_Add n k i (DocMap c)"
  by (simp_all add: register_block_def)

text \<open>When a block can be added: its vector is missing or has the dimension of the collection.\<close>

definition block_fits :: "Collection \<Rightarrow> BlockData \<Rightarrow> bool" where
  "block_fits c block \<longleftrightarrow> Vector block = [] \<or> of_nat (length (Vector block)) = Dimensions (Config c)"

lemma AppendBlock_accepts:
  assumes rep: "coll_rep c A" and top: "FI_Get (DocMap c) (- 1) = None"
    and len: "length (blocks_of A k) < 2 ^ 32 - 1" and fits: "block_fits c block"
  shows "\<exists>hnsw. Coll_AppendBlock ul rnd k block c =
      (register_block ul k block (GetNextVectorID (DocMap c)) (of_nat (length (blocks_of A k))) (c\<lparr>HNSWIndex := hnsw\<rparr>),
       Inr (of_nat (length (blocks_of A k)))) \<and>
    coll_rep (fst (Coll_AppendBlock ul rnd k block c)) (add_block k (GetNextVectorID (DocMap c), Vector block) A)"
proof -
  let ?n = "GetNextVectorID (DocMap c)" and ?A = "add_block k (GetNextVectorID (DocMap c), Vector block) A"
  have mem: "memory_rep c A" and doc: "docs_rep (DocMap c) A" and vec: "vecs_rep (Config c) (HNSWIndex c) A"
    using rep by (simp_all add: coll_rep_def)
  have params: "hw_dimensions (HNSWIndex c) = Dimensions (Config c)"
    using vec by (simp add: vecs_rep_def hw_params_def)
  note fresh = fresh_id(2) [OF doc top]
  have none: "vector_of (HNSWIndex c) ?n = None"
    using vec fresh by (cases "vector_of (HNSWIndex c) ?n") (auto simp: vecs_rep_def holds_vector_def)
  obtain hnsw where h: "(if length (Vector block) > 0 then hw_Add rnd ?n (Vector block) (HNSWIndex c)
      else (HNSWIndex c, None)) = (hnsw, None)" and vec': "vecs_rep (Config c) hnsw ?A"
  proof (cases "Vector block = []")
    case True
    with that [of "HNSWIndex c"] vecs_add_empty [OF vec] show thesis by simp
  next
    case False
    note a = graph.add_accepts [OF _ _ none, of "Vector block" rnd]
    have ok: "hnsw_ok (HNSWIndex c)" "of_nat (length (Vector block)) = hw_dimensions (HNSWIndex c)"
      using vec fits False params by (simp_all add: vecs_rep_def block_fits_def)
    let ?r = "hw_Add rnd ?n (Vector block) (HNSWIndex c)"
    have "vecs_rep (Config c) (fst ?r) ?A"
      using a [OF ok] fresh False by (intro vecs_add [OF vec]) simp_all
    moreover have "?r = (fst ?r, None)" using a [OF ok] by (metis prod.collapse)
    ultimately show thesis using that [of "fst ?r"] False by simp
  qed
  have mem': "memory_rep (c\<lparr>HNSWIndex := hnsw\<rparr>) A" using mem by (simp add: memory_rep_def)
  have r: "Coll_AppendBlock ul rnd k block c =
      (register_block ul k block ?n (of_nat (length (blocks_of A k))) (c\<lparr>HNSWIndex := hnsw\<rparr>),
       Inr (of_nat (length (blocks_of A k))))"
    using h by (simp add: Coll_AppendBlock_def Let_def key_length [OF mem])
  moreover have "coll_rep (fst (Coll_AppendBlock ul rnd k block c)) ?A"
    using register_memory [OF mem', of ul k block ?n "Vector block"] register_docs [OF doc top len] vec'
    by (simp add: r coll_rep_def key_length [OF mem])
  ultimately show ?thesis by blast
qed

lemma AppendBlock_rejects:
  assumes "coll_rep c A" and "\<not> block_fits c block"
  shows "Coll_AppendBlock ul rnd k block c = (c, Inl (Wrapped ''failed to add vector'' DimensionMismatch))"
  using assms
  by (simp add: Coll_AppendBlock_def Let_def block_fits_def coll_rep_def vecs_rep_def hw_params_def
      hw_Add_def addUnlocked_rejects)

subsection \<open>Deletion\<close>

lemma memory_key:
  assumes "memory_rep c A"
  shows "map_option mset (mget (KeyIndex c) k) = map_option (\<lambda>bs. mset (map fst bs)) (A k)"
  using assms by (simp add: memory_rep_def)

lemma memory_None: "memory_rep c A \<Longrightarrow> A k = None \<Longrightarrow> mget (KeyIndex c) k = None"
  using memory_key [of c A k] by simp

lemma memory_Some:
  assumes "memory_rep c A" and "A k = Some bs"
  obtains ids where "mget (KeyIndex c) k = Some ids" and "set ids = fst ` set bs"
proof -
  obtain ids where ids: "mget (KeyIndex c) k = Some ids" "mset ids = mset (map fst bs)"
    using memory_key [OF assms(1), of k] assms(2) by auto
  from ids(2) have "set ids = set (map fst bs)" by (rule mset_eq_setD)
  with ids that show thesis by simp
qed

lemma delete_loop:
  "fold (\<lambda>vid c. c\<lparr>HNSWIndex := fst (hw_Delete ord vid (HNSWIndex c)), DocMap := FI_Delete vid (DocMap c)\<rparr>) ids c =
     c\<lparr>HNSWIndex := fold (\<lambda>v hw. fst (hw_Delete ord v hw)) ids (HNSWIndex c),
       DocMap := fold FI_Delete ids (DocMap c)\<rparr>"
  by (induction ids arbitrary: c) simp_all

lemma located_key:
  assumes doc: "docs_rep fi A" and loc: "located A v loc"
  shows "v \<in> fst ` set (blocks_of A k) \<longleftrightarrow> LocKey loc = k"
proof
  assume "LocKey loc = k"
  with loc show "v \<in> fst ` set (blocks_of A k)" unfolding located_def by (metis image_eqI nth_mem)
next
  assume "v \<in> fst ` set (blocks_of A k)"
  then obtain x where x: "(v, x) \<in> set (blocks_of A k)" by auto
  have "spec_ok A" using doc by (simp add: docs_rep_def)
  from this x obtain i where "located A v \<lparr>LocKey = k, LocIndex = of_nat i\<rparr>" by (rule located_member)
  from located_unique [OF doc this loc] show "LocKey loc = k" by auto
qed

lemma holds_vector_remove:
  assumes "docs_rep fi A"
  shows "v \<notin> fst ` set (blocks_of A k) \<and> holds_vector A v x \<longleftrightarrow> holds_vector (A(k := None)) v x"
  unfolding holds_vector_def
  using ids_distinct [OF assms, of v _ k] by (auto split: if_splits) (metis image_eqI fst_conv)+

lemma DeleteKey_ok:
  assumes rep: "coll_rep c A" and ord: "is_order ord" and k: "A k = Some bs"
  shows "snd (Coll_DeleteKey ord k c) = None \<and> coll_rep (fst (Coll_DeleteKey ord k c)) (A(k := None)) \<and>
    KeywordIndex (fst (Coll_DeleteKey ord k c)) = KeywordIndex c \<and> Config (fst (Coll_DeleteKey ord k c)) = Config c"
proof -
  have mem: "memory_rep c A" and doc: "docs_rep (DocMap c) A" and vec: "vecs_rep (Config c) (HNSWIndex c) A"
    using rep by (simp_all add: coll_rep_def)
  from mem k obtain ids where ids: "mget (KeyIndex c) k = Some ids" and set_ids: "set ids = fst ` set bs"
    by (rule memory_Some)
  have bs: "blocks_of A k = bs" using k by simp
  have gone: "v \<in> set ids \<longleftrightarrow> LocKey loc = k" if "located A v loc" for v loc
    using located_key [OF doc that, of k] by (simp add: set_ids bs)
  let ?r = "fst (Coll_DeleteKey ord k c)"
  let ?h = "fold (\<lambda>v hw. fst (hw_Delete ord v hw)) ids (HNSWIndex c)"
  have r: "Coll_DeleteKey ord k c = (c\<lparr>HNSWIndex := ?h, DocMap := fold FI_Delete ids (DocMap c),
      KeyLengths := mdel k (KeyLengths c), KeyIndex := mdel k (KeyIndex c)\<rparr>, None)"
    by (simp add: Coll_DeleteKey_def ids delete_loop Let_def)
  have h: "hnsw_ok ?h \<and> vector_of ?h = vector_of (HNSWIndex c) |` (- set ids)"
    using graph.remove_all [OF _ ord] vec by (simp add: vecs_rep_def)
  have hp: "hw_params ?h = hw_params (HNSWIndex c)" by (rule fold_params) simp
  have "memory_rep ?r (A(k := None))" using mem by (simp add: r memory_rep_def)
  moreover have "docs_rep (DocMap ?r) (A(k := None))"
  proof -
    have "wf_map (mapping (fold FI_Delete ids fi))" if "wf_map (mapping fi)" for fi
      using that by (induction ids arbitrary: fi) (simp_all add: FI_Delete_def)
    moreover have "spec_ok (A(k := None))" using doc by (simp add: docs_rep_def spec_ok_def)
    moreover have "FI_Get (fold FI_Delete ids (DocMap c)) v = Some loc \<longleftrightarrow> located (A(k := None)) v loc" for v loc
      using doc gone [of v loc] by (auto simp: fwd.remove_all docs_rep_def located_remove)
    ultimately show ?thesis using doc by (simp add: r docs_rep_def)
  qed
  moreover have "vecs_rep (Config ?r) (HNSWIndex ?r) (A(k := None))"
  proof -
    have "vector_of ?h v = Some x \<longleftrightarrow> holds_vector (A(k := None)) v x" for v x
      using h vec holds_vector_remove [OF doc, of v k x] by (auto simp: restrict_map_def set_ids bs vecs_rep_def)
    then show ?thesis using h hp vec by (simp add: r vecs_rep_def)
  qed
  ultimately show ?thesis by (simp add: coll_rep_def r)
qed

lemma DeleteKey_missing: "memory_rep c A \<Longrightarrow> A k = None \<Longrightarrow> Coll_DeleteKey ord k c = (c, Some KeyNotFound)"
  by (simp add: Coll_DeleteKey_def memory_None)

subsection \<open>Lookups\<close>

lemma GetBlockVectorID_rep:
  assumes "coll_rep c A"
  shows "GetBlockVectorID c k i =
    (case A k of None \<Rightarrow> Inl KeyNotFound
     | Some bs \<Rightarrow> if unat i < length bs then Inr (fst (bs ! unat i)) else Inl BlockNotFound)"
proof (cases "A k")
  case None
  then have "mget (KeyIndex c) k = None"
    using assms memory_None [of c A k] by (simp add: coll_rep_def)
  with None show ?thesis by (simp add: GetBlockVectorID_def)
next
  case (Some bs)
  have mem: "memory_rep c A" and doc: "docs_rep (DocMap c) A"
    using assms by (simp_all add: coll_rep_def)
  from mem Some obtain ids where ids: "mget (KeyIndex c) k = Some ids" and set_ids: "set ids = fst ` set bs"
    by (rule memory_Some)
  let ?P = "\<lambda>vid. case FI_Get (DocMap c) vid of None \<Rightarrow> False | Some loc \<Rightarrow> LocIndex loc = i"
  have ok: "spec_ok A" using doc by (simp add: docs_rep_def)
  have P: "?P v \<longleftrightarrow> unat i < length bs \<and> v = fst (bs ! unat i)" if "v \<in> set ids" for v
  proof -
    from that obtain x where "(v, x) \<in> set (blocks_of A k)" using Some by (auto simp: set_ids)
    then obtain j where j: "located A v \<lparr>LocKey = k, LocIndex = of_nat j\<rparr>"
      using located_member [OF ok] by metis
    have get: "FI_Get (DocMap c) v = Some loc \<longleftrightarrow> located A v loc" for loc
      using doc by (simp add: docs_rep_def)
    have v: "FI_Get (DocMap c) v = Some \<lparr>LocKey = k, LocIndex = of_nat j\<rparr>" using get j by blast
    then have "?P v \<longleftrightarrow> FI_Get (DocMap c) v = Some \<lparr>LocKey = k, LocIndex = i\<rparr>" by simp
    then have "?P v \<longleftrightarrow> located A v \<lparr>LocKey = k, LocIndex = i\<rparr>" using get by blast
    then show ?thesis using Some by (auto simp: located_def)
  qed
  show ?thesis
  proof (cases "unat i < length bs")
    case True
    then have "fst (bs ! unat i) \<in> set ids" by (simp add: set_ids)
    then have "find ?P ids = Some (fst (bs ! unat i))"
      using P True by (metis (no_types, lifting) find_None_iff find_Some_iff nth_mem not_Some_eq)
    with ids Some True show ?thesis by (simp add: GetBlockVectorID_def)
  next
    case False
    then have "find ?P ids = None" using P by (simp add: find_None_iff)
    with ids Some False show ?thesis by (simp add: GetBlockVectorID_def)
  qed
qed

lemma ContainsKey_rep: "memory_rep c A \<Longrightarrow> Coll_ContainsKey c k \<longleftrightarrow> A k \<noteq> None"
  by (simp add: Coll_ContainsKey_def memory_rep_def)

lemma GetKeyLength_rep: "memory_rep c A \<Longrightarrow> Coll_GetKeyLength c k =
    (case A k of None \<Rightarrow> Inl KeyNotFound | Some bs \<Rightarrow> Inr (of_nat (length bs)))"
  by (simp add: Coll_GetKeyLength_def memory_rep_def split: option.split)

lemma ListKeys_rep: "memory_rep c A \<Longrightarrow> set (Coll_ListKeys c) = dom A \<and> distinct (Coll_ListKeys c)"
  by (auto simp: Coll_ListKeys_def memory_rep_def wf_map_def set_mkeys simp del: set_map)

lemma GetVectorByID_vector_of: "GetVectorByID c v = vector_of (HNSWIndex c) v"
  by (simp add: GetVectorByID_def vector_of_def)

lemma GetVectorByID_rep:
  assumes "coll_rep c A" and "(v, vec) \<in> set (blocks_of A k)"
  shows "GetVectorByID c v = (if vec = [] then None else Some vec)"
proof -
  have doc: "docs_rep (DocMap c) A" and v: "vector_of (HNSWIndex c) v = Some x \<longleftrightarrow> holds_vector A v x" for x
    using assms(1) by (simp_all add: coll_rep_def vecs_rep_def)
  have "holds_vector A v x \<longleftrightarrow> x = vec \<and> vec \<noteq> []" for x
    using assms(2) ids_distinct [OF doc assms(2)] unfolding holds_vector_def by metis
  then show ?thesis using v by (cases "vector_of (HNSWIndex c) v") (auto simp: GetVectorByID_vector_of)
qed

subsection \<open>A batch of blocks\<close>

lemma next_after_add:
  assumes "FI_Get fi (- 1) = None"
  shows "GetNextVectorID (FI_Add (GetNextVectorID fi) k i fi) = GetNextVectorID fi + 1"
proof -
  let ?f = "\<lambda>id maxID. if id > maxID then id else maxID" and ?n = "GetNextVectorID fi"
  have n: "?n = fold ?f (mkeys (mapping fi)) 0 + 1" by (simp add: GetNextVectorID_def)
  have fresh: "?n \<notin> fst ` set (mapping fi)"
    using fwd.next_fresh [OF assms] by (simp add: FI_Get_def map_of_eq_None_iff)
  have "fold ?f (mkeys (mapping fi)) 0 \<in> insert 0 (set (mkeys (mapping fi)))" by (rule fold_max_mem)
  moreover have "(- 1 :: uint64) \<notin> set (mkeys (mapping fi))"
    using assms by (simp add: FI_Get_def map_of_eq_None_iff)
  ultimately have "fold ?f (mkeys (mapping fi)) 0 \<noteq> - 1" 
    by (auto simp del: set_map)
  then have "?n > fold ?f (mkeys (mapping fi)) 0" unfolding n by (rule word_less_succ)
  moreover have "mkeys (mapping (FI_Add ?n k i fi)) = mkeys (mapping fi) @ [?n]"
    by (simp add: FI_Add_def mput_fresh [OF fresh])
  ultimately show ?thesis
    by (simp add: GetNextVectorID_def [of "FI_Add ?n k i fi"])
qed

text \<open>The specification of a batch that gets the ids from \<open>n\<close> on, its results and its postings.\<close>

fun spec_appends :: "uint64 \<Rightarrow> (string \<times> BlockData) list \<Rightarrow> coll_spec \<Rightarrow> coll_spec" where
  "spec_appends n [] A = A"
| "spec_appends n ((k, b) # xs) A = spec_appends (n + 1) xs (add_block k (n, Vector b) A)"

fun spec_results :: "uint64 \<Rightarrow> (string \<times> BlockData) list \<Rightarrow> coll_spec \<Rightarrow> (uint64 \<times> uint32) list" where
  "spec_results n [] A = []"
| "spec_results n ((k, b) # xs) A =
     (n, of_nat (length (blocks_of A k))) # spec_results (n + 1) xs (add_block k (n, Vector b) A)"

fun spec_postings :: "(string \<Rightarrow> string) \<Rightarrow> uint64 \<Rightarrow> (string \<times> BlockData) list \<Rightarrow> (uint64 \<times> string) set" where
  "spec_postings ul n [] = {}"
| "spec_postings ul n ((k, b) # xs) =
     (\<lambda>kw. (n, ToLower ul kw)) ` set (BlockKeywords b) \<union> spec_postings ul (n + 1) xs"

text \<open>Enough room: neither the ids nor the length of a key wraps around.\<close>

definition room_for :: "nat \<Rightarrow> Collection \<Rightarrow> coll_spec \<Rightarrow> bool" where
  "room_for m c A \<longleftrightarrow> FI_Get (DocMap c) (- 1) = None \<and> unat (GetNextVectorID (DocMap c)) + m \<le> 2 ^ 64 - 1 \<and>
     (\<forall>k. length (blocks_of A k) + m \<le> 2 ^ 32 - 1)"

lemma II_Add_nothing [simp]: "II_Add ul [] v ii = ii"
  by (simp add: II_Add_def)

lemma register_postings:
  assumes "ii_rep ul (KeywordIndex c) R" and "valid_keywords ul (BlockKeywords b)"
  shows "ii_rep ul (KeywordIndex (register_block ul k b n i c)) (R \<union> (\<lambda>kw. (n, ToLower ul kw)) ` set (BlockKeywords b))"
  using assms ii_rep_Add_valid [OF assms, of n] by (simp add: register_block_def)

lemma room_for_step:
  assumes "room_for (Suc m) c A" and "docs_rep (DocMap c) A"
    and "n = GetNextVectorID (DocMap c)"
  shows "room_for m (register_block ul k b n i c) (add_block k (n, vec) A)" "length (blocks_of A k) < 2 ^ 32 - 1"
    "n + 1 = GetNextVectorID (DocMap (register_block ul k b n i c))"
proof -
  have r: "FI_Get (DocMap c) (- 1) = None" "unat n + Suc m \<le> 2 ^ 64 - 1"
    "\<And>k. length (blocks_of A k) + Suc m \<le> 2 ^ 32 - 1"
    using assms(1,3) by (simp_all add: room_for_def)
  have "unat (- 1 :: uint64) = 2 ^ 64 - 1" by (simp add: unsigned_minus_1_eq_mask mask_eq_exp_minus_1)
  with r(2) have "n \<noteq> - 1" by auto
  then have "n < n + 1" by (rule word_less_succ)
  then have s: "unat (n + 1) = unat n + 1" using r(2) by (simp add: unat_word_ariths)
  show nx: "n + 1 = GetNextVectorID (DocMap (register_block ul k b n i c))"
    using next_after_add [OF r(1)] assms(3) by simp
  have "length (blocks_of (add_block k (n, vec) A) k') + m \<le> 2 ^ 32 - 1" for k'
    using r(3) [of k'] r(3) [of k] by simp
  then show "room_for m (register_block ul k b n i c) (add_block k (n, vec) A)"
    unfolding room_for_def nx [symmetric] s using r(1,2) \<open>n \<noteq> - 1\<close> by simp
  show "length (blocks_of A k) < 2 ^ 32 - 1" using r(3) [of k] by simp
qed

text \<open>The vectors a batch has prepared, applied to the index, give the vectors of the blocks.\<close>

definition pending_rep :: "uint32 \<Rightarrow> (uint64 \<rightharpoonup> float32 list) \<Rightarrow> (uint64 \<times> float32 list) list \<Rightarrow> coll_spec \<Rightarrow> bool" where
  "pending_rep dims V items A \<longleftrightarrow> (\<forall>v vec. fold (spec_insert dims) items V v = Some vec \<longleftrightarrow> holds_vector A v vec)"

lemma pending_add:
  assumes "pending_rep dims V items A" and "vec = [] \<or> of_nat (length vec) = dims"
    and "\<And>x k. (n, x) \<notin> set (blocks_of A k)"
  shows "pending_rep dims V (if length vec > 0 then items @ [(n, vec)] else items) (add_block k (n, vec) A)"
proof (cases "vec = []")
  case True
  then show ?thesis using assms(1) by (auto simp: pending_rep_def holds_vector_add)
next
  case False
  let ?V = "fold (spec_insert dims) items V"
  have no: "\<not> holds_vector A n x" for x using assms(3) by (simp add: holds_vector_def)
  have "?V n = None" using assms(1) no by (cases "?V n") (auto simp: pending_rep_def)
  with False assms(2) have "spec_insert dims (n, vec) ?V = ?V(n \<mapsto> vec)" by (simp add: spec_insert_def)
  with False assms(1) no show ?thesis by (auto simp: pending_rep_def holds_vector_add)
qed

lemma batch_register_ok:
  assumes "memory_rep c A" and "docs_rep (DocMap c) A" and "room_for (length xs) c A"
    and "pending_rep (Dimensions (Config c)) V items A" and "list_all (\<lambda>(k, b). block_fits c b) xs"
    and "n = GetNextVectorID (DocMap c)"
  shows "\<exists>c' items'. batch_register ul (map fst xs) (map snd xs) (c, results, items) =
      (c', Inr (results @ spec_results n xs A, items')) \<and>
    memory_rep c' (spec_appends n xs A) \<and> docs_rep (DocMap c') (spec_appends n xs A) \<and>
    pending_rep (Dimensions (Config c)) V items' (spec_appends n xs A) \<and>
    HNSWIndex c' = HNSWIndex c \<and> Config c' = Config c \<and> coll_basePath c' = coll_basePath c \<and>
    (ii_rep ul (KeywordIndex c) R \<and> list_all (\<lambda>(k, b). valid_keywords ul (BlockKeywords b)) xs \<longrightarrow>
       ii_rep ul (KeywordIndex c') (R \<union> spec_postings ul n xs))"
  using assms
proof (induction xs arbitrary: c A n results items R)
  case Nil
  then show ?case by simp
next
  case (Cons x xs)
  obtain k b where x: "x = (k, b)" by (cases x)
  let ?c = "register_block ul k b n (of_nat (length (blocks_of A k))) c" and ?A = "add_block k (n, Vector b) A"
  let ?items = "if length (Vector b) > 0 then items @ [(n, Vector b)] else items"
  let ?res = "results @ [(n, of_nat (length (blocks_of A k)))]"
  have room: "room_for (Suc (length xs)) c A" using Cons.prems(3) by simp
  note st = room_for_step [OF room Cons.prems(2,6)]
  have top: "FI_Get (DocMap c) (- 1) = None" using room by (simp add: room_for_def)
  have fresh: "(n, y) \<notin> set (blocks_of A k')" for y k'
    using fresh_id(2) [OF Cons.prems(2) top] Cons.prems(6) by simp
  have step: "batch_register ul (map fst (x # xs)) (map snd (x # xs)) (c, results, items) =
      batch_register ul (map fst xs) (map snd xs) (?c, ?res, ?items)"
    using Cons.prems(6) by (simp add: x key_length [OF Cons.prems(1)] Let_def)
  have kw: "ii_rep ul (KeywordIndex ?c) (R \<union> (\<lambda>kw. (n, ToLower ul kw)) ` set (BlockKeywords b))"
    if "ii_rep ul (KeywordIndex c) R" "valid_keywords ul (BlockKeywords b)"
    using register_postings [OF that] .
  have fits: "Vector b = [] \<or> of_nat (length (Vector b)) = Dimensions (Config c)"
    "list_all (\<lambda>(k, b). block_fits ?c b) xs"
    using Cons.prems(5) by (simp_all add: x block_fits_def)
  have "\<exists>c' items'. batch_register ul (map fst xs) (map snd xs) (?c, ?res, ?items) =
      (c', Inr (?res @ spec_results (n + 1) xs ?A, items')) \<and>
    memory_rep c' (spec_appends (n + 1) xs ?A) \<and> docs_rep (DocMap c') (spec_appends (n + 1) xs ?A) \<and>
    pending_rep (Dimensions (Config ?c)) V items' (spec_appends (n + 1) xs ?A) \<and>
    HNSWIndex c' = HNSWIndex ?c \<and> Config c' = Config ?c \<and> coll_basePath c' = coll_basePath ?c \<and>
    (ii_rep ul (KeywordIndex ?c) (R \<union> (\<lambda>kw. (n, ToLower ul kw)) ` set (BlockKeywords b)) \<and>
       list_all (\<lambda>(k, b). valid_keywords ul (BlockKeywords b)) xs \<longrightarrow>
       ii_rep ul (KeywordIndex c')
         (R \<union> (\<lambda>kw. (n, ToLower ul kw)) ` set (BlockKeywords b) \<union> spec_postings ul (n + 1) xs))"
  proof (rule Cons.IH)
    show "memory_rep ?c ?A" using register_memory [OF Cons.prems(1)] key_length [OF Cons.prems(1)] by metis
    show "docs_rep (DocMap ?c) ?A"
      using register_docs [OF Cons.prems(2) top st(2)] Cons.prems(6) by simp
    show "room_for (length xs) ?c ?A" by (rule st(1))
    show "pending_rep (Dimensions (Config ?c)) V ?items ?A"
      using pending_add [OF Cons.prems(4) fits(1) fresh] by simp
    show "list_all (\<lambda>(k, b). block_fits ?c b) xs" by (rule fits(2))
    show "n + 1 = GetNextVectorID (DocMap ?c)" by (rule st(3))
  qed
  then show ?case unfolding step using kw by (auto simp: x Un_assoc)
qed

lemma BatchAppendBlocks_ok:
  assumes "coll_rep c A" and "room_for (length xs) c A" and "list_all (\<lambda>(k, b). block_fits c b) xs"
    and "n = GetNextVectorID (DocMap c)"
  shows "\<exists>c'. Coll_BatchAppendBlocks ul rnds (map fst xs) (map snd xs) c = (c', Inr (spec_results n xs A)) \<and>
    coll_rep c' (spec_appends n xs A) \<and> Config c' = Config c \<and> coll_basePath c' = coll_basePath c \<and>
    (ii_rep ul (KeywordIndex c) R \<and> list_all (\<lambda>(k, b). valid_keywords ul (BlockKeywords b)) xs \<longrightarrow>
       ii_rep ul (KeywordIndex c') (R \<union> spec_postings ul n xs))"
proof -
  have mem: "memory_rep c A" and doc: "docs_rep (DocMap c) A" and vec: "vecs_rep (Config c) (HNSWIndex c) A"
    using assms(1) by (simp_all add: coll_rep_def)
  have dims: "hw_dimensions (HNSWIndex c) = Dimensions (Config c)" and ok: "hnsw_ok (HNSWIndex c)"
    using vec by (simp_all add: vecs_rep_def hw_params_def)
  have "pending_rep (Dimensions (Config c)) (vector_of (HNSWIndex c)) [] A"
    using vec by (simp add: pending_rep_def vecs_rep_def)
  from batch_register_ok [OF mem doc assms(2) this assms(3,4), of ul "[]" R]
  obtain c' items where r: "batch_register ul (map fst xs) (map snd xs) (c, [], []) =
      (c', Inr (spec_results n xs A, items))"
    and rep: "memory_rep c' (spec_appends n xs A)" "docs_rep (DocMap c') (spec_appends n xs A)"
    and pend: "pending_rep (Dimensions (Config c)) (vector_of (HNSWIndex c)) items (spec_appends n xs A)"
    and same: "HNSWIndex c' = HNSWIndex c" "Config c' = Config c" "coll_basePath c' = coll_basePath c"
    and kw: "ii_rep ul (KeywordIndex c) R \<and> list_all (\<lambda>(k, b). valid_keywords ul (BlockKeywords b)) xs \<longrightarrow>
       ii_rep ul (KeywordIndex c') (R \<union> spec_postings ul n xs)"
    by auto
  let ?h = "fst (hw_BatchAdd rnds items (HNSWIndex c))"
  note b = hw_BatchAdd_vectors [OF ok, of rnds items]
  have h: "hw_BatchAdd rnds items (HNSWIndex c) = (?h, None)" using b by (metis prod.collapse)
  have "vecs_rep (Config c) ?h (spec_appends n xs A)"
    using b vec pend by (simp add: vecs_rep_def pending_rep_def dims)
  moreover have "Coll_BatchAppendBlocks ul rnds (map fst xs) (map snd xs) c =
      (c'\<lparr>HNSWIndex := ?h\<rparr>, Inr (spec_results n xs A))"
  proof (cases "items = []")
    case True
    then show ?thesis by (simp add: Coll_BatchAppendBlocks_def r same(1) [symmetric])
  next
    case False
    obtain g where g: "hw_BatchAdd rnds items (HNSWIndex c) = (g, None)" using h by blast
    with False show ?thesis by (simp add: Coll_BatchAppendBlocks_def r same(1))
  qed
  ultimately show ?thesis
    using rep same kw by (auto simp: coll_rep_def memory_rep_def)
qed

subsection \<open>Searches\<close>

lemma members_keyBitset:
  assumes "memory_rep c A"
  shows "members (keyBitset c keys) = {v. \<exists>key \<in> set keys. \<exists>vec. (v, vec) \<in> set (blocks_of A key)}"
proof -
  have "members (keyBitset c keys) = (\<Union>key \<in> set keys. set (mget0 [] (KeyIndex c) key))"
    unfolding keyBitset_def by (subst bitset.elems_add_nested) (simp add: bitset.elems_empty)
  also have "\<dots> = (\<Union>key \<in> set keys. fst ` set (blocks_of A key))"
    using key_ids_set [OF assms] by simp
  finally show ?thesis by force
qed

text \<open>
  An item of a search result is right when it names a block with a vector, gives its true distance,
  and the block's id passes the filter.
\<close>

definition item_ok :: "Collection \<Rightarrow> coll_spec \<Rightarrow> float32 list \<Rightarrow> BitSet option \<Rightarrow> SearchResultItem \<Rightarrow> bool" where
  "item_ok c A q flt it \<longleftrightarrow> unat (ItemIndex it) < length (blocks_of A (ItemKey it)) \<and>
     (case blocks_of A (ItemKey it) ! unat (ItemIndex it) of (v, vec) \<Rightarrow>
        vec \<noteq> [] \<and> ItemDistance it = hw_distance (HNSWIndex c) q vec \<and> passes flt v)"

lemma located_result:
  assumes "coll_rep c A" and "result_ok (HNSWIndex c) q flt r"
  shows "\<exists>loc. FI_Get (DocMap c) (VectorID r) = Some loc \<and>
    item_ok c A q flt \<lparr>ItemKey = LocKey loc, ItemIndex = LocIndex loc, ItemDistance = Distance r, ItemBlock = None\<rparr>"
proof -
  have doc: "docs_rep (DocMap c) A" and vec: "vecs_rep (Config c) (HNSWIndex c) A"
    using assms(1) by (simp_all add: coll_rep_def)
  from assms(2) obtain x where x: "vector_of (HNSWIndex c) (VectorID r) = Some x"
    and d: "Distance r = hw_distance (HNSWIndex c) q x" and p: "passes flt (VectorID r)"
    by (auto simp: result_ok_def split: option.splits)
  then obtain k where k: "x \<noteq> []" "(VectorID r, x) \<in> set (blocks_of A k)"
    using vec by (auto simp: vecs_rep_def holds_vector_def)
  have "spec_ok A" using doc by (simp add: docs_rep_def)
  from this k(2) obtain i where l: "located A (VectorID r) \<lparr>LocKey = k, LocIndex = of_nat i\<rparr>"
    and i: "i < length (blocks_of A k)" "blocks_of A k ! i = (VectorID r, x)"
    by (rule located_member)
  have "i < 2 ^ 32" using i(1) \<open>spec_ok A\<close> by (metis less_trans spec_ok_def)
  then have "unat (of_nat i :: uint32) = i" by (simp add: unat_of_nat_small)
  moreover have "FI_Get (DocMap c) (VectorID r) = Some \<lparr>LocKey = k, LocIndex = of_nat i\<rparr>"
    using doc l by (simp add: docs_rep_def)
  ultimately show ?thesis using i d p k(1) by (simp add: item_ok_def)
qed

definition item_of :: "Collection \<Rightarrow> HNSWSearchResult \<Rightarrow> SearchResultItem" where
  "item_of c r = \<lparr>ItemKey = LocKey (the (FI_Get (DocMap c) (VectorID r))),
     ItemIndex = LocIndex (the (FI_Get (DocMap c) (VectorID r))), ItemDistance = Distance r, ItemBlock = None\<rparr>"

lemma item_of_place:
  assumes "coll_rep c A" and "FI_Get (DocMap c) (VectorID r) = Some loc"
  shows "fst (blocks_of A (ItemKey (item_of c r)) ! unat (ItemIndex (item_of c r))) = VectorID r"
proof -
  have "located A (VectorID r) loc" using assms by (simp add: coll_rep_def docs_rep_def)
  then show ?thesis by (simp add: item_of_def assms(2) located_def)
qed

lemma Coll_Search_items:
  assumes rep: "coll_rep c A" and "of_nat (length q) = Dimensions (Config c)"
  shows "\<exists>items. Coll_Search ul c q topK f = Inr items \<and> length items \<le> max (unat topK) 1 \<and>
    distinct (map (\<lambda>it. (ItemKey it, ItemIndex it)) items) \<and>
    list_all (item_ok c A q (search_filter ul c f)) items \<and>
    (no_nan (HNSWIndex c) q \<longrightarrow> sorted_wrt (\<lambda>x y. \<not> f_lt (ItemDistance y) (ItemDistance x)) items)"
proof -
  let ?flt = "search_filter ul c f"
  have vec: "vecs_rep (Config c) (HNSWIndex c) A" using rep by (simp add: coll_rep_def)
  then have "hnsw_ok (HNSWIndex c)" "of_nat (length q) = hw_dimensions (HNSWIndex c)"
    using assms(2) by (simp_all add: vecs_rep_def hw_params_def)
  from hw_Search_sound [OF this, of "unat topK" ?flt]
  obtain rs where s: "hw_Search (HNSWIndex c) q (unat topK) ?flt = Inr rs" "length rs \<le> max (unat topK) 1"
    "distinct (map VectorID rs)" "list_all (result_ok (HNSWIndex c) q ?flt) rs"
    "no_nan (HNSWIndex c) q \<longrightarrow> sorted_wrt (\<lambda>r s. \<not> f_lt (Distance s) (Distance r)) rs" by blast
  have loc: "\<exists>loc. FI_Get (DocMap c) (VectorID r) = Some loc \<and> item_ok c A q ?flt (item_of c r)" if "r \<in> set rs" for r
    using located_result [OF rep, of q ?flt r] s(4) that by (auto simp: list_all_iff item_of_def)
  have "concat (map (\<lambda>hr. case FI_Get (DocMap c) (VectorID hr) of None \<Rightarrow> []
      | Some loc \<Rightarrow> [\<lparr>ItemKey = LocKey loc, ItemIndex = LocIndex loc, ItemDistance = Distance hr, ItemBlock = None\<rparr>]) rs') =
      map (item_of c) rs'" if "set rs' \<subseteq> set rs" for rs'
    using that
  proof (induction rs')
    case (Cons r rs')
    from loc [of r] Cons.prems obtain l where "FI_Get (DocMap c) (VectorID r) = Some l" by auto
    with Cons show ?case by (simp add: item_of_def)
  qed simp
  with s(1) have "Coll_Search ul c q topK f = Inr (map (item_of c) rs)" by (simp add: Coll_Search_def)
  moreover have "distinct (map (\<lambda>it. (ItemKey it, ItemIndex it)) (map (item_of c) rs))"
  proof -
    have inj: "inj_on VectorID (set rs)" and d: "distinct rs" using s(3) by (simp_all add: distinct_map)
    have place: "fst (blocks_of A (ItemKey (item_of c r)) ! unat (ItemIndex (item_of c r))) = VectorID r"
      if "r \<in> set rs" for r
      using loc [OF that] item_of_place [OF rep] by blast
    have "r = r'" if "r \<in> set rs" "r' \<in> set rs" "ItemKey (item_of c r) = ItemKey (item_of c r')"
        "ItemIndex (item_of c r) = ItemIndex (item_of c r')" for r r'
      using place [OF that(1)] place [OF that(2)] that(3,4) by (intro inj_onD [OF inj _ that(1,2)]) simp
    then show ?thesis using d by (auto simp: distinct_map inj_on_def comp_def)
  qed
  ultimately show ?thesis
    using s loc by (auto simp: list_all_iff sorted_wrt_map item_of_def)
qed

lemma KeywordSearch_set:
  assumes "docs_rep (DocMap c) A" and "II_Search ul (KeywordIndex c) qs mode d = Some bs"
  shows "set (Coll_KeywordSearch ul c qs mode d) = {k. \<exists>v vec. (v, vec) \<in> set (blocks_of A k) \<and> v \<in> members bs}"
proof -
  have "set (mkeys (fold (\<lambda>v m. case FI_Get fi v of None \<Rightarrow> m | Some loc \<Rightarrow> mput (LocKey loc) () m) vs acc)) =
      set (mkeys acc) \<union> {k. \<exists>v \<in> set vs. \<exists>loc. FI_Get fi v = Some loc \<and> LocKey loc = k}" for fi vs acc
  proof (induction vs arbitrary: acc)
    case (Cons v vs)
    have "set (mkeys (mput k () acc)) = insert k (set (mkeys acc))" for k
      unfolding set_mkeys by (auto simp: dom_def)
    then show ?case
      using Cons by (cases "FI_Get fi v") (auto simp del: set_map)
  qed simp
  note f = this [of "DocMap c" "ToSlice bs" "[]"]
  have "set (Coll_KeywordSearch ul c qs mode d) =
      {k. \<exists>v \<in> members bs. \<exists>loc. FI_Get (DocMap c) v = Some loc \<and> LocKey loc = k}"
    using assms(2) f by (cases "members bs = {}") (simp_all add: Coll_KeywordSearch_def del: set_map)
  also have "\<dots> = {k. \<exists>v vec. (v, vec) \<in> set (blocks_of A k) \<and> v \<in> members bs}"
  proof -
    have "(\<exists>loc. FI_Get (DocMap c) v = Some loc \<and> LocKey loc = k) \<longleftrightarrow> (\<exists>vec. (v, vec) \<in> set (blocks_of A k))" for v k
    proof
      assume "\<exists>loc. FI_Get (DocMap c) v = Some loc \<and> LocKey loc = k"
      then obtain loc where "located A v loc" "LocKey loc = k" using assms(1) by (auto simp: docs_rep_def)
      then show "\<exists>vec. (v, vec) \<in> set (blocks_of A k)"
        unfolding located_def by (metis nth_mem prod.collapse)
    next
      assume "\<exists>vec. (v, vec) \<in> set (blocks_of A k)"
      then obtain vec where "(v, vec) \<in> set (blocks_of A k)" ..
      then obtain i where "located A v \<lparr>LocKey = k, LocIndex = of_nat i\<rparr>"
        using located_member assms(1) unfolding docs_rep_def by metis
      then show "\<exists>loc. FI_Get (DocMap c) v = Some loc \<and> LocKey loc = k"
        using assms(1) by (auto simp: docs_rep_def)
    qed
    then show ?thesis by blast
  qed
  finally show ?thesis .
qed

lemma KeywordSearch_rep:
  assumes "docs_rep (DocMap c) A" and "ii_rep ul (KeywordIndex c) R" and "mode \<noteq> ''partial''" and "qs \<noteq> []"
  shows "set (Coll_KeywordSearch ul c qs mode d) =
    {k. \<exists>v vec. (v, vec) \<in> set (blocks_of A k) \<and> (\<forall>q \<in> set qs. \<exists>kw. (v, kw) \<in> R \<and> keyword_match ul mode d q kw)}"
proof -
  obtain bs where bs: "II_Search ul (KeywordIndex c) qs mode d = Some bs"
    "members bs = {v. \<forall>q \<in> set qs. \<exists>kw. (v, kw) \<in> R \<and> keyword_match ul mode d q kw}"
    using II_Search_rep [OF assms(2,3), of qs d] assms(4) by auto
  show ?thesis unfolding KeywordSearch_set [OF assms(1) bs(1)] bs(2) by simp
qed

subsection \<open>The interface of a collection\<close>

text \<open>
  What the vector manager relies on: appending extends the list of blocks of one key and returns the
  position, deleting removes a key, and the id of a block is found by key and position. The
  arguments of type \<open>'r\<close> and \<open>'o\<close> are the random draws and the visiting order.
\<close>

locale block_collection =
  fixes rep :: "'c \<Rightarrow> coll_spec \<Rightarrow> bool"
    and room :: "'c \<Rightarrow> coll_spec \<Rightarrow> bool"
    and fits :: "'c \<Rightarrow> BlockData \<Rightarrow> bool"
    and next_id :: "'c \<Rightarrow> uint64"
    and append :: "'r \<Rightarrow> string \<Rightarrow> BlockData \<Rightarrow> 'c \<Rightarrow> 'c \<times> (go_error + uint32)"
    and delete :: "'o \<Rightarrow> string \<Rightarrow> 'c \<Rightarrow> 'c \<times> go_error option"
    and order_ok :: "'o \<Rightarrow> bool"
    and block_id :: "'c \<Rightarrow> string \<Rightarrow> uint32 \<Rightarrow> go_error + uint64"
    and vector :: "'c \<Rightarrow> uint64 \<Rightarrow> float32 list option"
  assumes append_accepts: "rep c A \<Longrightarrow> room c A \<Longrightarrow> fits c b \<Longrightarrow>
        snd (append r k b c) = Inr (of_nat (length (blocks_of A k))) \<and>
        rep (fst (append r k b c)) (add_block k (next_id c, Vector b) A)"
    and append_rejects: "rep c A \<Longrightarrow> \<not> fits c b \<Longrightarrow> \<exists>err. append r k b c = (c, Inl err)"
    and delete_ok: "rep c A \<Longrightarrow> order_ok d \<Longrightarrow> A k \<noteq> None \<Longrightarrow>
        snd (delete d k c) = None \<and> rep (fst (delete d k c)) (A(k := None))"
    and block_id_rep: "rep c A \<Longrightarrow> block_id c k i =
        (case A k of None \<Rightarrow> Inl KeyNotFound
         | Some bs \<Rightarrow> if unat i < length bs then Inr (fst (bs ! unat i)) else Inl BlockNotFound)"
    and vector_rep: "rep c A \<Longrightarrow> (v, vec) \<in> set (blocks_of A k) \<Longrightarrow>
        vector c v = (if vec = [] then None else Some vec)"
    and room_bound: "room c A \<Longrightarrow> length (blocks_of A k) < 2 ^ 32 - 1"
begin

lemma block_id_after_append:
  assumes "rep c A" and "room c A" and "fits c b"
  shows "block_id (fst (append r k b c)) k (of_nat (length (blocks_of A k))) = Inr (next_id c)"
proof -
  have "unat (of_nat (length (blocks_of A k)) :: uint32) = length (blocks_of A k)"
    using room_bound [OF assms(2), of k] by (simp add: unat_of_nat_small)
  with append_accepts [OF assms, of r k] block_id_rep show ?thesis
    by (auto simp: add_block_def)
qed

lemma vector_after_append:
  assumes "rep c A" and "room c A" and "fits c b" and "Vector b \<noteq> []"
  shows "vector (fst (append r k b c)) (next_id c) = Some (Vector b)"
proof -
  have "(next_id c, Vector b) \<in> set (blocks_of (add_block k (next_id c, Vector b) A) k)" by simp
  from vector_rep [OF conjunct2 [OF append_accepts [OF assms(1-3)]] this] assms(4) show ?thesis by simp
qed

lemma block_id_after_delete:
  "rep c A \<Longrightarrow> order_ok d \<Longrightarrow> A k \<noteq> None \<Longrightarrow> block_id (fst (delete d k c)) k i = Inl KeyNotFound"
  using delete_ok block_id_rep by fastforce

end

definition coll_room :: "Collection \<Rightarrow> coll_spec \<Rightarrow> bool" where
  "coll_room c A \<longleftrightarrow> FI_Get (DocMap c) (- 1) = None \<and> (\<forall>k. length (blocks_of A k) < 2 ^ 32 - 1)"

interpretation coll: block_collection coll_rep coll_room block_fits "\<lambda>c. GetNextVectorID (DocMap c)"
  "Coll_AppendBlock ul" Coll_DeleteKey is_order GetBlockVectorID GetVectorByID for ul
proof
  show "snd (Coll_AppendBlock ul r k b c) = Inr (of_nat (length (blocks_of A k))) \<and>
      coll_rep (fst (Coll_AppendBlock ul r k b c)) (add_block k (GetNextVectorID (DocMap c), Vector b) A)"
    if "coll_rep c A" "coll_room c A" "block_fits c b" for c A b r k
    using AppendBlock_accepts [OF that(1) _ _ that(3), of k ul r] that(2) by (auto simp: coll_room_def)
  show "\<exists>err. Coll_AppendBlock ul r k b c = (c, Inl err)" if "coll_rep c A" "\<not> block_fits c b" for c A b r k
    using AppendBlock_rejects [OF that] by blast
  show "snd (Coll_DeleteKey d k c) = None \<and> coll_rep (fst (Coll_DeleteKey d k c)) (A(k := None))"
    if "coll_rep c A" "is_order d" "A k \<noteq> None" for c A d k
    using DeleteKey_ok [OF that(1,2)] that(3) by blast
qed (simp_all add: GetBlockVectorID_rep GetVectorByID_rep coll_room_def)

lemma AppendBlock_postings:
  assumes "coll_rep c A" and "coll_room c A" and "block_fits c b" and "ii_rep ul (KeywordIndex c) R"
    and "valid_keywords ul (BlockKeywords b)"
  shows "ii_rep ul (KeywordIndex (fst (Coll_AppendBlock ul r k b c)))
    (R \<union> (\<lambda>kw. (GetNextVectorID (DocMap c), ToLower ul kw)) ` set (BlockKeywords b))"
proof -
  have "FI_Get (DocMap c) (- 1) = None" "length (blocks_of A k) < 2 ^ 32 - 1" using assms(2) by (simp_all add: coll_room_def)
  from AppendBlock_accepts [OF assms(1) this assms(3), of ul r] obtain hnsw where
    "fst (Coll_AppendBlock ul r k b c) = register_block ul k b (GetNextVectorID (DocMap c)) (of_nat (length (blocks_of A k)))
       (c\<lparr>HNSWIndex := hnsw\<rparr>)" by auto
  then show ?thesis
    using register_postings [of ul "c\<lparr>HNSWIndex := hnsw\<rparr>" R b] assms(4,5) by simp
qed

lemma hw_Search_empty_filter:
  assumes "members bs = {}"
  shows "hw_Search hw q k (Some bs) = hw_Search hw q k None"
proof -
  have "collect_results flt False k cs acc = collect_results None False k cs acc" for flt k cs acc
    by (induction cs arbitrary: acc) (simp_all add: Let_def)
  with assms show ?thesis by (simp add: hw_Search_def Let_def)
qed

lemma single_key_filter:
  assumes "coll_rep c A" and f: "f = Some \<lparr>FilterKeys = [k], FilterKeywords = [], KeywordMode = m, MaxDistance = d\<rparr>"
  shows "A k = None \<Longrightarrow> Coll_Search ul c q topK f = Coll_Search ul c q topK None"
    and "A k \<noteq> None \<Longrightarrow> item_ok c A q (search_filter ul c f) it \<Longrightarrow> ItemKey it = k"
proof -
  have mem: "memory_rep c A" and doc: "docs_rep (DocMap c) A" using assms(1) by (simp_all add: coll_rep_def)
  have flt: "search_filter ul c f = Some (keyBitset c [k])" by (simp add: search_filter_def f)
  have bs: "members (keyBitset c [k]) = fst ` set (blocks_of A k)"
    using members_keyBitset [OF mem, of "[k]"] by force
  show "Coll_Search ul c q topK f = Coll_Search ul c q topK None" if "A k = None"
  proof -
    have "members (keyBitset c [k]) = {}" using that bs by (simp add: blocks_of_def)
    then show ?thesis by (simp add: Coll_Search_def flt hw_Search_empty_filter) (simp add: search_filter_def)
  qed
  show "ItemKey it = k" if "A k \<noteq> None" "item_ok c A q (search_filter ul c f) it"
  proof -
    obtain v vec where b: "blocks_of A (ItemKey it) ! unat (ItemIndex it) = (v, vec)" by fastforce
    have "blocks_of A k \<noteq> []" using that(1) doc by (auto simp: docs_rep_def spec_ok_def blocks_of_def split: option.splits)
    then have "members (keyBitset c [k]) \<noteq> {}" using bs by simp
    then have "v \<in> fst ` set (blocks_of A k)"
      using that(2) b bs by (simp add: item_ok_def flt passes_def)
    then obtain vec' where "(v, vec') \<in> set (blocks_of A k)" by auto
    moreover have "(v, vec) \<in> set (blocks_of A (ItemKey it))"
      using that(2) b by (auto simp: item_ok_def) (metis nth_mem)
    ultimately show ?thesis using ids_distinct [OF doc] by blast
  qed
qed

lemma distinct_KeywordSearch: "distinct (Coll_KeywordSearch ul c qs mode d)"
proof -
  have "wf_map (fold (\<lambda>v m. case FI_Get fi v of None \<Rightarrow> m | Some loc \<Rightarrow> mput (LocKey loc) () m) vs acc)"
    if "wf_map acc" for fi vs acc
    using that by (induction vs arbitrary: acc) (auto split: option.splits)
  from this [of "[]" "DocMap c"] show ?thesis
    by (auto simp: Coll_KeywordSearch_def wf_map_def split: option.splits)
qed

subsection \<open>Properties\<close>

lemma coll_rep_empty:
  "coll_rep \<lparr>Config = cfg, HNSWIndex = NewHNSWWrapper (Dimensions cfg) (Metric cfg), KeywordIndex = NewInvertedIndex,
     DocMap = NewForwardIndex, coll_basePath = p, KeyLengths = [], KeyIndex = []\<rparr> Map.empty"
proof -
  have "vector_of (NewHNSWWrapper d m) v = None" for d m v by (simp add: vector_of_def NewHNSWWrapper_def)
  moreover have "hw_params (NewHNSWWrapper d m) = (d, m, 16, 200, 100)" for d m
    by (simp add: hw_params_def NewHNSWWrapper_def)
  ultimately show ?thesis
    by (simp add: coll_rep_def memory_rep_def docs_rep_def vecs_rep_def spec_ok_def holds_vector_def located_def
        hnsw_ok_New) (simp add: NewForwardIndex_def)
qed

text \<open>A collection with one block, for the witnesses.\<close>

definition sample_config :: CollectionConfig where
  "sample_config = \<lparr>Name = ''docs'', Dimensions = 1, Metric = MetricL2\<rparr>"

definition empty_coll :: "CollectionConfig \<Rightarrow> path \<Rightarrow> Collection" where
  "empty_coll cfg p = \<lparr>Config = cfg, HNSWIndex = NewHNSWWrapper (Dimensions cfg) (Metric cfg),
     KeywordIndex = NewInvertedIndex, DocMap = NewForwardIndex, coll_basePath = p, KeyLengths = [], KeyIndex = []\<rparr>"

definition sample_block :: BlockData where
  "sample_block = \<lparr>Primary = ''text'', Vector = [f_one], BlockKeywords = [''q4'']\<rparr>"

definition sample_coll :: Collection where
  "sample_coll = fst (Coll_AppendBlock id (\<lambda>_. False) ''a'' sample_block
     (empty_coll sample_config [''data'', ''indexes'', ''docs'']))"

lemma empty_coll_rep: "coll_rep (empty_coll cfg p) Map.empty"
  unfolding empty_coll_def by (rule coll_rep_empty)

lemma empty_coll_room: "coll_room (empty_coll cfg p) Map.empty"
  by (simp add: coll_room_def empty_coll_def)

lemma sample_fits: "block_fits (empty_coll sample_config p) sample_block"
  by (simp add: block_fits_def empty_coll_def sample_config_def sample_block_def)

lemma next_id_empty: "GetNextVectorID (DocMap (empty_coll cfg p)) = 1"
  by (simp add: empty_coll_def NewForwardIndex_def GetNextVectorID_def)

lemma sample_coll_rep: "coll_rep sample_coll [''a'' \<mapsto> [(1, [f_one])]]"
  using coll.append_accepts [OF empty_coll_rep empty_coll_room sample_fits,
      of id "\<lambda>_. False" "''a''" "[''data'', ''indexes'', ''docs'']"]
  by (simp add: sample_coll_def next_id_empty add_block_def sample_block_def)

lemma sample_coll_postings: "ii_rep id (KeywordIndex sample_coll) {(1, ''q4'')}"
proof -
  have "valid_keywords id [''q4'']" using sample_valid(1) by (simp add: valid_keywords_def)
  then show ?thesis
    using AppendBlock_postings [OF empty_coll_rep empty_coll_room sample_fits, of id
        "[''data'', ''indexes'', ''docs'']" "{}" "\<lambda>_. False" "''a''"]
    by (simp add: sample_coll_def next_id_empty sample_block_def sample_lower) (simp add: empty_coll_def ii_rep_New)
qed

lemma sample_coll_fields: "DocMap sample_coll = FI_Add 1 ''a'' 0 NewForwardIndex" "Config sample_coll = sample_config"
  "HNSWIndex sample_coll = fst (hw_Add (\<lambda>_. False) 1 [f_one] (NewHNSWWrapper 1 MetricL2))"
proof -
  have "snd (hw_Add (\<lambda>_. False) 1 [f_one] (NewHNSWWrapper 1 MetricL2)) = None"
    using graph.add_accepts [OF hnsw_ok_New, of "[f_one]" 1 MetricL2 1 "\<lambda>_. False"]
    by (simp add: NewHNSWWrapper_def vector_of_def)
  then show "DocMap sample_coll = FI_Add 1 ''a'' 0 NewForwardIndex" "Config sample_coll = sample_config"
    "HNSWIndex sample_coll = fst (hw_Add (\<lambda>_. False) 1 [f_one] (NewHNSWWrapper 1 MetricL2))"
    by (simp_all add: sample_coll_def Coll_AppendBlock_def empty_coll_def sample_config_def sample_block_def
        GetNextVectorID_def NewForwardIndex_def case_prod_beta Let_def)
qed

lemma sample_coll_room: "coll_room sample_coll [''a'' \<mapsto> [(1, [f_one])]]"
  by (simp add: coll_room_def sample_coll_fields blocks_of_def)

lemma sample_next_id: "GetNextVectorID (DocMap sample_coll) = 2"
  by (simp add: sample_coll_fields GetNextVectorID_def FI_Add_def NewForwardIndex_def)

text \<open>
  C19. Appending a block to a key of a collection: a block whose vector has the dimension of the
  collection, or that has no vector, gets the next position of its key and a fresh id, and the
  collection afterwards represents the old blocks with the new one added, its keywords filed under
  the new id; a block of another dimension is rejected and nothing changes.
\<close>

theorem Coll_AppendBlock_refines:
  assumes "coll_rep c A" and "coll_room c A"
  shows "if block_fits c b then
      snd (Coll_AppendBlock ul r k b c) = Inr (of_nat (length (blocks_of A k))) \<and>
      coll_rep (fst (Coll_AppendBlock ul r k b c)) (add_block k (GetNextVectorID (DocMap c), Vector b) A) \<and>
      (\<forall>R. ii_rep ul (KeywordIndex c) R \<and> valid_keywords ul (BlockKeywords b) \<longrightarrow>
        ii_rep ul (KeywordIndex (fst (Coll_AppendBlock ul r k b c)))
          (R \<union> (\<lambda>kw. (GetNextVectorID (DocMap c), ToLower ul kw)) ` set (BlockKeywords b)))
    else Coll_AppendBlock ul r k b c = (c, Inl (Wrapped ''failed to add vector'' DimensionMismatch))"
  using coll.append_accepts [OF assms, of b ul r k] AppendBlock_postings [OF assms, of b ul]
    AppendBlock_rejects [OF assms(1), of b ul r k] by simp

theorem Coll_AppendBlock_refines_witness:
  "coll_rep sample_coll [''a'' \<mapsto> [(1, [f_one])]] \<and> coll_room sample_coll [''a'' \<mapsto> [(1, [f_one])]] \<and>
   snd (Coll_AppendBlock id (\<lambda>_. True) ''a'' sample_block sample_coll) = Inr 1 \<and>
   coll_rep (fst (Coll_AppendBlock id (\<lambda>_. True) ''a'' sample_block sample_coll))
     [''a'' \<mapsto> [(1, [f_one]), (2, [f_one])]]"
proof -
  have "block_fits sample_coll sample_block"
    by (simp add: block_fits_def sample_coll_fields sample_config_def sample_block_def)
  then show ?thesis
    using Coll_AppendBlock_refines [OF sample_coll_rep sample_coll_room, of sample_block id "\<lambda>_. True" "''a''"]
      sample_coll_rep sample_coll_room
    by (simp add: sample_next_id sample_block_def add_block_def)
qed

text \<open>
  C20. Deleting a key: an unknown key is reported and nothing changes; otherwise every block of the
  key disappears from the vector index, the forward index and the maps in memory, the blocks of all
  other keys stay, and the keyword index keeps the postings of the deleted blocks.
\<close>

theorem Coll_DeleteKey_refines:
  assumes "coll_rep c A" and "is_order ord"
  shows "if A k = None then Coll_DeleteKey ord k c = (c, Some KeyNotFound)
    else snd (Coll_DeleteKey ord k c) = None \<and> coll_rep (fst (Coll_DeleteKey ord k c)) (A(k := None)) \<and>
      KeywordIndex (fst (Coll_DeleteKey ord k c)) = KeywordIndex c \<and>
      GetBlockVectorID (fst (Coll_DeleteKey ord k c)) k i = Inl KeyNotFound"
  using DeleteKey_ok [OF assms, of k] DeleteKey_missing [of c A k ord] coll.block_id_after_delete [OF assms, of k i]
    assms(1) by (auto simp: coll_rep_def)

theorem Coll_DeleteKey_refines_witness:
  "coll_rep sample_coll [''a'' \<mapsto> [(1, [f_one])]] \<and> is_order (\<lambda>x :: (uint64, hnswNode) gomap. x) \<and>
   snd (Coll_DeleteKey (\<lambda>x. x) ''a'' sample_coll) = None \<and>
   coll_rep (fst (Coll_DeleteKey (\<lambda>x. x) ''a'' sample_coll)) Map.empty"
  using Coll_DeleteKey_refines [OF sample_coll_rep is_order_id, of "''a''" 0] sample_coll_rep by simp

text \<open>
  A batch of blocks that fit: the blocks get consecutive ids and the positions that appending
  them one after the other gives, none is lost, the result lists id and position of each, and their
  keywords are filed under their ids. The batch needs room: no id and no position wraps around.
\<close>

theorem Coll_BatchAppendBlocks_refines:
  assumes "coll_rep c A" and "room_for (length xs) c A" and "list_all (\<lambda>(k, b). block_fits c b) xs"
  shows "snd (Coll_BatchAppendBlocks ul rnds (map fst xs) (map snd xs) c) =
      Inr (spec_results (GetNextVectorID (DocMap c)) xs A) \<and>
    coll_rep (fst (Coll_BatchAppendBlocks ul rnds (map fst xs) (map snd xs) c))
      (spec_appends (GetNextVectorID (DocMap c)) xs A) \<and>
    (\<forall>R. ii_rep ul (KeywordIndex c) R \<and> list_all (\<lambda>(k, b). valid_keywords ul (BlockKeywords b)) xs \<longrightarrow>
       ii_rep ul (KeywordIndex (fst (Coll_BatchAppendBlocks ul rnds (map fst xs) (map snd xs) c)))
         (R \<union> spec_postings ul (GetNextVectorID (DocMap c)) xs))"
proof -
  have "\<exists>c'. Coll_BatchAppendBlocks ul rnds (map fst xs) (map snd xs) c =
      (c', Inr (spec_results (GetNextVectorID (DocMap c)) xs A)) \<and>
    coll_rep c' (spec_appends (GetNextVectorID (DocMap c)) xs A) \<and>
    (ii_rep ul (KeywordIndex c) R \<and> list_all (\<lambda>(k, b). valid_keywords ul (BlockKeywords b)) xs \<longrightarrow>
       ii_rep ul (KeywordIndex c') (R \<union> spec_postings ul (GetNextVectorID (DocMap c)) xs))" for R
    using BatchAppendBlocks_ok [OF assms refl, of ul rnds R] by blast
  then show ?thesis by fastforce
qed

theorem Coll_BatchAppendBlocks_refines_witness:
  "room_for 2 sample_coll [''a'' \<mapsto> [(1, [f_one])]] \<and>
   snd (Coll_BatchAppendBlocks id (\<lambda>_ _. False) [''a'', ''a''] [sample_block, sample_block] sample_coll) =
     Inr [(2, 1), (3, 2)] \<and>
   coll_rep (fst (Coll_BatchAppendBlocks id (\<lambda>_ _. False) [''a'', ''a''] [sample_block, sample_block] sample_coll))
     [''a'' \<mapsto> [(1, [f_one]), (2, [f_one]), (3, [f_one])]]"
proof -
  let ?xs = "[(''a'', sample_block), (''a'', sample_block)]"
  have room: "room_for (length ?xs) sample_coll [''a'' \<mapsto> [(1, [f_one])]]"
    using sample_coll_room by (simp add: room_for_def coll_room_def sample_next_id blocks_of_def)
  have fits: "list_all (\<lambda>(k, b). block_fits sample_coll b) ?xs"
    by (simp add: block_fits_def sample_coll_fields sample_config_def sample_block_def)
  have v: "Vector sample_block = [f_one]" by (simp add: sample_block_def)
  show ?thesis
    using Coll_BatchAppendBlocks_refines [OF sample_coll_rep room fits, of id "\<lambda>_ _. False"] room
    by (simp add: sample_next_id v add_block_def numeral_2_eq_2)
qed

text \<open>
  C21. A vector search in a collection fails only for a query of another dimension. Otherwise every
  item names a block that exists, with its true distance, and that passes the filter; no block
  occurs twice; at most \<open>topK\<close> items are returned (one for \<open>topK = 0\<close>), in ascending order of
  distance when no distance is NaN. With a filter of one key that has blocks, only blocks of that key are
  returned; with a key that has none, the search is unfiltered.
\<close>

theorem Coll_Search_correct:
  assumes "coll_rep c A"
  shows "if of_nat (length q) \<noteq> Dimensions (Config c) then Coll_Search ul c q topK f = Inl QueryDimensionMismatch
    else \<exists>items. Coll_Search ul c q topK f = Inr items \<and> length items \<le> max (unat topK) 1 \<and>
      distinct (map (\<lambda>it. (ItemKey it, ItemIndex it)) items) \<and>
      list_all (item_ok c A q (search_filter ul c f)) items \<and>
      (no_nan (HNSWIndex c) q \<longrightarrow> sorted_wrt (\<lambda>x y. \<not> f_lt (ItemDistance y) (ItemDistance x)) items) \<and>
      (\<forall>k m d. f = Some \<lparr>FilterKeys = [k], FilterKeywords = [], KeywordMode = m, MaxDistance = d\<rparr> \<longrightarrow>
         (if A k = None then Coll_Search ul c q topK f = Coll_Search ul c q topK None
          else list_all (\<lambda>it. ItemKey it = k) items))"
proof (cases "of_nat (length q) = Dimensions (Config c)")
  case False
  then show ?thesis
    using assms by (simp add: Coll_Search_def hw_Search_def coll_rep_def vecs_rep_def hw_params_def)
next
  case True
  obtain items where it: "Coll_Search ul c q topK f = Inr items" "length items \<le> max (unat topK) 1"
    "distinct (map (\<lambda>it. (ItemKey it, ItemIndex it)) items)" "list_all (item_ok c A q (search_filter ul c f)) items"
    "no_nan (HNSWIndex c) q \<longrightarrow> sorted_wrt (\<lambda>x y. \<not> f_lt (ItemDistance y) (ItemDistance x)) items"
    using Coll_Search_items [OF assms True, of ul topK f] by blast
  have "if A k = None then Coll_Search ul c q topK f = Coll_Search ul c q topK None
      else list_all (\<lambda>it. ItemKey it = k) items"
    if "f = Some \<lparr>FilterKeys = [k], FilterKeywords = [], KeywordMode = m, MaxDistance = d\<rparr>" for k m d
    using single_key_filter(1) [OF assms that, of ul q topK] single_key_filter(2) [OF assms that] it(4) by (auto simp: list_all_iff)
  moreover have "\<not> of_nat (length q) \<noteq> Dimensions (Config c)" using True by simp
  ultimately show ?thesis using it by (subst if_not_P) blast+
qed

theorem Coll_Search_correct_witness:
  "coll_rep sample_coll [''a'' \<mapsto> [(1, [f_one])]] \<and>
   (\<exists>items. Coll_Search id sample_coll [f_zero] 5 None = Inr items \<and>
      list_all (item_ok sample_coll [''a'' \<mapsto> [(1, [f_one])]] [f_zero] None) items)"
proof -
  have "of_nat (length [f_zero]) = Dimensions (Config sample_coll)"
    by (simp add: sample_coll_fields sample_config_def)
  then show ?thesis
    using Coll_Search_correct [OF sample_coll_rep, of "[f_zero]" id 5 None] sample_coll_rep
    by (auto simp: search_filter_def)
qed

text \<open>
  C22. A keyword search in the exact, prefix or Levenshtein mode returns exactly the keys that have a
  block whose id has, for every query, a posting that matches it; no key is returned twice.
\<close>

theorem Coll_KeywordSearch_exact:
  assumes "coll_rep c A" and "ii_rep ul (KeywordIndex c) R" and "mode \<noteq> ''partial''" and "qs \<noteq> []"
  shows "set (Coll_KeywordSearch ul c qs mode d) =
      {k. \<exists>v vec. (v, vec) \<in> set (blocks_of A k) \<and> (\<forall>q \<in> set qs. \<exists>kw. (v, kw) \<in> R \<and> keyword_match ul mode d q kw)} \<and>
    distinct (Coll_KeywordSearch ul c qs mode d)"
  using KeywordSearch_rep [OF _ assms(2-4)] assms(1) distinct_KeywordSearch by (simp add: coll_rep_def)

theorem Coll_KeywordSearch_exact_witness:
  "''a'' \<in> set (Coll_KeywordSearch id sample_coll [''q4''] ''exact'' 0) \<and> [''q4''] \<noteq> []"
proof -
  have "set (Coll_KeywordSearch id sample_coll [''q4''] ''exact'' 0) =
      {k. \<exists>v vec. (v, vec) \<in> set (blocks_of [''a'' \<mapsto> [(1, [f_one])]] k) \<and>
        (\<forall>q \<in> set [''q4'']. \<exists>kw. (v, kw) \<in> {(1, ''q4'')} \<and> keyword_match id ''exact'' 0 q kw)}"
    using Coll_KeywordSearch_exact [OF sample_coll_rep sample_coll_postings, of "''exact''" "[''q4'']" 0] by simp
  then show ?thesis by (auto simp: keyword_match_def sample_lower)
qed

text \<open>
  A stale posting is attached to the next block that gets its id: when the keyword index still
  holds a keyword of a deleted block whose id is allocated again, a block that has no keywords at all
  is found under that keyword.
\<close>

theorem stale_posting_reused:
  assumes "coll_rep c A" and "coll_room c A" and "block_fits c b" and "BlockKeywords b = []"
    and "ii_rep ul (KeywordIndex c) R" and "(GetNextVectorID (DocMap c), ToLower ul kw) \<in> R"
  shows "k \<in> set (Coll_KeywordSearch ul (fst (Coll_AppendBlock ul r k b c)) [kw] ''exact'' d)"
proof -
  let ?c = "fst (Coll_AppendBlock ul r k b c)" and ?n = "GetNextVectorID (DocMap c)"
  have doc: "docs_rep (DocMap ?c) (add_block k (?n, Vector b) A)"
    using coll.append_accepts [OF assms(1-3), of ul r k] by (simp add: coll_rep_def)
  have "ii_rep ul (KeywordIndex ?c) R"
    using AppendBlock_postings [OF assms(1-3,5), of r k] assms(4) by (simp add: valid_keywords_def)
  from KeywordSearch_rep [OF doc this, of "''exact''" "[kw]" d]
  show ?thesis using assms(6) by (auto simp: keyword_match_def)
qed

theorem stale_posting_reused_witness:
  "''b'' \<in> set (Coll_KeywordSearch id
     (fst (Coll_AppendBlock id (\<lambda>_. False) ''b'' \<lparr>Primary = ''x'', Vector = [], BlockKeywords = []\<rparr>
        (fst (Coll_DeleteKey (\<lambda>x. x) ''a'' sample_coll)))) [''q4''] ''exact'' 0)"
proof -
  let ?c = "fst (Coll_DeleteKey (\<lambda>x. x) ''a'' sample_coll)"
  note del = DeleteKey_ok [OF sample_coll_rep is_order_id, of "''a''"]
  have rep: "coll_rep ?c Map.empty" and kw: "ii_rep id (KeywordIndex ?c) {(1, ''q4'')}"
    using del sample_coll_postings by simp_all
  have none: "FI_Get (DocMap ?c) v = None" for v
    using rep by (cases "FI_Get (DocMap ?c) v") (simp_all add: coll_rep_def docs_rep_def located_def)
  then have "mapping (DocMap ?c) = []"
    by (metis FI_Get_def map_of_eq_empty_iff ext)
  then have n: "GetNextVectorID (DocMap ?c) = 1" by (simp add: GetNextVectorID_def)
  have room: "coll_room ?c Map.empty" using none by (simp add: coll_room_def)
  show ?thesis
    by (rule stale_posting_reused [OF rep room _ _ kw]) (simp_all add: block_fits_def n sample_lower)
qed

text \<open>
  A vector of the wrong dimension: a single append reports it; a batch reports success, registers the
  block and leaves its vector out of the index.
\<close>

lemma batch_drops_vector:
  assumes "Vector b \<noteq> []" and "of_nat (length (Vector b)) \<noteq> hw_dimensions (HNSWIndex c)"
  shows "snd (Coll_AppendBlock ul rnd k b c) = Inl (Wrapped ''failed to add vector'' DimensionMismatch) \<and>
    (\<exists>c'. Coll_BatchAppendBlocks ul rnds [k] [b] c = (c', Inr [(GetNextVectorID (DocMap c), mget0 0 (KeyLengths c) k)]) \<and>
      HNSWIndex c' = HNSWIndex c \<and> FI_Get (DocMap c') (GetNextVectorID (DocMap c)) = Some \<lparr>LocKey = k, LocIndex = mget0 0 (KeyLengths c) k\<rparr>)"
  using assms
  by (simp add: Coll_AppendBlock_def Coll_BatchAppendBlocks_def hw_Add_def addUnlocked_def register_block_def Let_def
      FI_Add_def FI_Get_def)

end
