(* ===== verification/Collection_Disk.thy ===== *)
theory Collection_Disk
  imports Collection_Rep
begin

section \<open>Collections on disk\<close>

text \<open>
  The directories of the collections of \<^verbatim>\<open>internal/storage/collection.go\<close>: the maps that a start
  rebuilds from the forward index, saving and loading one collection, the collection manager as a map
  from names to collections (\<open>cm_rep\<close>), and what a start after \<^verbatim>\<open>Close\<close> restores.
\<close>

subsection \<open>Rebuilding the maps in memory\<close>

lemma rebuild_ids:
  "mget0 [] (KeyIndex (fold rebuild_step xs c)) k =
     mget0 [] (KeyIndex c) k @ map fst (filter (\<lambda>(v, l). LocKey l = k) xs)"
proof (induction xs arbitrary: c)
  case (Cons x xs)
  obtain v l where x: "x = (v, l)" by (cases x)
  show ?case using Cons [of "rebuild_step x c"] by (simp add: x Let_def)
qed simp

lemma rebuild_keys:
  "set (mkeys (KeyIndex (fold rebuild_step xs c))) = set (mkeys (KeyIndex c)) \<union> (\<lambda>(v, l). LocKey l) ` set xs \<and>
   (wf_map (KeyIndex c) \<longrightarrow> wf_map (KeyIndex (fold rebuild_step xs c))) \<and>
   (wf_map (KeyLengths c) \<longrightarrow> wf_map (KeyLengths (fold rebuild_step xs c)))"
proof (induction xs arbitrary: c)
  case (Cons x xs)
  obtain v l where x: "x = (v, l)" by (cases x)
  have "set (mkeys (KeyIndex (rebuild_step x c))) = insert (LocKey l) (set (mkeys (KeyIndex c)))"
    unfolding set_mkeys by (auto simp: x Let_def dom_def)
  moreover have "wf_map (KeyIndex c) \<longrightarrow> wf_map (KeyIndex (rebuild_step x c))"
    "wf_map (KeyLengths c) \<longrightarrow> wf_map (KeyLengths (rebuild_step x c))" by (simp_all add: x Let_def)
  ultimately show ?case using Cons [of "rebuild_step x c"] by (auto simp: x simp del: set_map rebuild_step.simps)
qed simp

lemma rebuild_lengths:
  assumes "\<forall>(v, l) \<in> set xs. unat (LocIndex l) + 1 < 2 ^ 32"
  shows "unat (mget0 0 (KeyLengths (fold rebuild_step xs c)) k) =
    fold max (map (\<lambda>(v, l). unat (LocIndex l) + 1) (filter (\<lambda>(v, l). LocKey l = k) xs)) (unat (mget0 0 (KeyLengths c) k))"
  using assms
proof (induction xs arbitrary: c)
  case (Cons x xs)
  obtain v l where x: "x = (v, l)" by (cases x)
  then have l: "unat (LocIndex l + 1) = unat (LocIndex l) + 1"
    using Cons.prems by (simp add: unat_word_ariths)
  have "unat (mget0 0 (KeyLengths (rebuild_step x c)) k) =
      (if LocKey l = k then max (unat (LocIndex l) + 1) (unat (mget0 0 (KeyLengths c) k))
       else unat (mget0 0 (KeyLengths c) k))"
    using l by (auto simp: x Let_def word_le_nat_alt max_def)
  with Cons show ?case by (simp add: x del: rebuild_step.simps)
qed simp

lemma rebuild_same_keys:
  "(\<forall>k. mget (KeyLengths c) k = None \<longleftrightarrow> mget (KeyIndex c) k = None) \<Longrightarrow>
   mget (KeyLengths (fold rebuild_step xs c)) k = None \<longleftrightarrow> mget (KeyIndex (fold rebuild_step xs c)) k = None"
proof (induction xs arbitrary: c)
  case (Cons x xs)
  obtain v l where x: "x = (v, l)" by (cases x)
  have "mget (KeyLengths (rebuild_step x c)) k = None \<longleftrightarrow> mget (KeyIndex (rebuild_step x c)) k = None" for k
    using Cons.prems [rule_format, of k] Cons.prems [rule_format, of "LocKey l"]
    by (auto simp: x Let_def mget0_def not_le word_not_simps split: option.splits)
  with Cons show ?case by simp
qed simp

lemma rebuild_fields [simp]:
  "DocMap (fold rebuild_step xs c) = DocMap c" "HNSWIndex (fold rebuild_step xs c) = HNSWIndex c"
  "KeywordIndex (fold rebuild_step xs c) = KeywordIndex c" "Config (fold rebuild_step xs c) = Config c"
  "coll_basePath (fold rebuild_step xs c) = coll_basePath c"
  by (induction xs arbitrary: c) (auto simp: Let_def)

lemma block_ids_distinct:
  assumes "docs_rep fi A"
  shows "distinct (map fst (blocks_of A k))"
proof -
  have ok: "spec_ok A" using assms by (simp add: docs_rep_def)
  have "i = j" if i: "i < length (blocks_of A k)" and j: "j < length (blocks_of A k)"
    and eq: "fst (blocks_of A k ! i) = fst (blocks_of A k ! j)" for i j
  proof -
    have "(of_nat i :: uint32) = of_nat j"
      using located_unique [OF assms located_at [OF ok i]] located_at [OF ok j] eq by auto
    moreover have "i < 2 ^ 32" "j < 2 ^ 32" using i j ok by (metis less_trans spec_ok_def)+
    then have "unat (of_nat i :: uint32) = i" "unat (of_nat j :: uint32) = j" by (simp_all add: unat_of_nat_small)
    ultimately show "i = j" by metis
  qed
  then show ?thesis by (auto simp: distinct_conv_nth)
qed

lemma located_indexes:
  assumes "docs_rep fi A"
  shows "{unat (LocIndex l) + 1 |v l. located A v l \<and> LocKey l = k} = {1..length (blocks_of A k)}"
proof (intro set_eqI iffI)
  fix n
  assume "n \<in> {unat (LocIndex l) + 1 |v l. located A v l \<and> LocKey l = k}"
  then show "n \<in> {1..length (blocks_of A k)}" by (auto simp: located_def)
next
  fix n
  assume n: "n \<in> {1..length (blocks_of A k)}"
  have ok: "spec_ok A" using assms by (simp add: docs_rep_def)
  from n obtain i where ni: "n = i + 1" and i: "i < length (blocks_of A k)" by (cases n) auto
  have "i < 2 ^ 32" using i ok by (metis less_trans spec_ok_def)
  then have "unat (of_nat i :: uint32) = i" by (simp add: unat_of_nat_small)
  then have "n = unat (LocIndex \<lparr>LocKey = k, LocIndex = of_nat i\<rparr>) + 1" by (simp add: ni)
  moreover have "LocKey \<lparr>LocKey = k, LocIndex = of_nat i\<rparr> = k" by simp
  ultimately show "n \<in> {unat (LocIndex l) + 1 |v l. located A v l \<and> LocKey l = k}"
    using located_at [OF ok i] by blast
qed

text \<open>The entries of the forward index in some order, and those of one key among them.\<close>

lemma visited_located:
  assumes "docs_rep (DocMap c) A" and "mset xs = mset (mapping (DocMap c))"
  shows "distinct (map fst xs)" and "(v, l) \<in> set xs \<longleftrightarrow> located A v l"
proof -
  have wf: "wf_map (mapping (DocMap c))" using assms(1) by (simp add: docs_rep_def)
  with assms(2) show "distinct (map fst xs)" unfolding wf_map_def by (metis mset_eq_imp_distinct_iff mset_map)
  have "set xs = set (mapping (DocMap c))" using assms(2) by (metis set_mset_mset)
  then show "(v, l) \<in> set xs \<longleftrightarrow> located A v l"
    using assms(1) mget_in_set [OF wf, of v l] by (simp add: docs_rep_def FI_Get_def)
qed

lemma visited_ids:
  assumes doc: "docs_rep (DocMap c) A" and xs: "mset xs = mset (mapping (DocMap c))"
  shows "mset (map fst (filter (\<lambda>(v, l). LocKey l = k) xs)) = mset (map fst (blocks_of A k))"
proof -
  let ?ys = "filter (\<lambda>(v, l). LocKey l = k) xs"
  note mem = visited_located(2) [OF doc xs]
  have ok: "spec_ok A" using doc by (simp add: docs_rep_def)
  have "set (map fst ?ys) = fst ` set (blocks_of A k)"
  proof
    show "set (map fst ?ys) \<subseteq> fst ` set (blocks_of A k)"
      by (auto simp: mem located_def intro!: rev_image_eqI [OF nth_mem])
    show "fst ` set (blocks_of A k) \<subseteq> set (map fst ?ys)"
    proof
      fix v
      assume "v \<in> fst ` set (blocks_of A k)"
      then obtain x where "(v, x) \<in> set (blocks_of A k)" by auto
      with ok obtain i where "located A v \<lparr>LocKey = k, LocIndex = of_nat i\<rparr>" by (rule located_member)
      then have "(v, \<lparr>LocKey = k, LocIndex = of_nat i\<rparr>) \<in> set ?ys" by (simp add: mem)
      then show "v \<in> set (map fst ?ys)" by force
    qed
  qed
  moreover have "distinct (map fst ?ys)"
    using visited_located(1) [OF doc xs] by (induction xs) auto
  ultimately show ?thesis
    using block_ids_distinct [OF doc] set_eq_iff_mset_eq_distinct [of "map fst ?ys" "map fst (blocks_of A k)"] by simp
qed

lemma rebuilt_length:
  assumes doc: "docs_rep (DocMap c) A" and xs: "mset xs = mset (mapping (DocMap c))" and empty: "KeyLengths c = []"
  shows "mget0 0 (KeyLengths (fold rebuild_step xs c)) k = of_nat (length (blocks_of A k))"
proof -
  let ?c = "fold rebuild_step xs c" and ?ys = "filter (\<lambda>(v, l). LocKey l = k) xs"
  note mem = visited_located(2) [OF doc xs]
  have small: "\<forall>(v, l) \<in> set xs. unat (LocIndex l) + 1 < 2 ^ 32"
  proof (clarify)
    fix v l
    assume "(v, l) \<in> set xs"
    then have "unat (LocIndex l) < length (blocks_of A (LocKey l))" by (simp add: mem located_def)
    then show "unat (LocIndex l) + 1 < 2 ^ 32"
      using doc unfolding docs_rep_def spec_ok_def by (metis Suc_eq_plus1 Suc_leI le_less_trans)
  qed
  have "set (map (\<lambda>(v, l). unat (LocIndex l) + 1) ?ys) = {1..length (blocks_of A k)}"
    unfolding located_indexes [OF doc, symmetric] by (force simp: mem)
  then have "Max (set (0 # map (\<lambda>(v, l). unat (LocIndex l) + 1) ?ys)) = length (blocks_of A k)"
    by (cases "length (blocks_of A k)") (auto intro!: Max_eqI)
  then have "unat (mget0 0 (KeyLengths ?c) k) = length (blocks_of A k)"
    unfolding rebuild_lengths [OF small] Max.set_eq_fold using empty by simp
  moreover have "of_nat (unat (mget0 0 (KeyLengths ?c) k)) = mget0 0 (KeyLengths ?c) k" by simp
  ultimately show ?thesis by simp
qed

lemma rebuild_memory:
  assumes doc: "docs_rep (DocMap c) A" and ord: "is_order ord" and empty: "KeyLengths c = []" "KeyIndex c = []"
  shows "memory_rep (rebuildMemoryIndexes ord c) A"
proof -
  define xs where "xs = ord (mapping (DocMap c))"
  let ?c = "fold rebuild_step xs c"
  have xs: "mset xs = mset (mapping (DocMap c))" using ord by (simp add: xs_def is_order_def)
  note ms = visited_ids [OF doc xs] and len = rebuilt_length [OF doc xs empty(1)]
  have key: "mget (KeyIndex ?c) k = None \<longleftrightarrow> A k = None" for k
  proof -
    have "mget (KeyIndex ?c) k = None \<longleftrightarrow> filter (\<lambda>(v, l). LocKey l = k) xs = []"
      unfolding mget_None_iff conjunct1 [OF rebuild_keys] using empty by (auto simp: filter_empty_conv)
    also have "\<dots> \<longleftrightarrow> blocks_of A k = []" using mset_eq_length [OF ms [of k]] by auto
    also have "\<dots> \<longleftrightarrow> A k = None" using doc by (auto simp: docs_rep_def spec_ok_def blocks_of_def split: option.splits)
    finally show ?thesis .
  qed
  have "map_option mset (mget (KeyIndex ?c) k) = map_option (\<lambda>bs. mset (map fst bs)) (A k)" for k
    using ms [of k] key [of k] rebuild_ids [of xs c k] empty
    by (cases "A k"; cases "mget (KeyIndex ?c) k") (simp_all add: mget0_def)
  moreover have "mget (KeyLengths ?c) k = map_option (\<lambda>bs. of_nat (length bs)) (A k)" for k
    using rebuild_same_keys [of c xs k] key [of k] empty len [of k]
    by (cases "A k"; cases "mget (KeyLengths ?c) k") (simp_all add: mget0_def)
  ultimately show ?thesis
    using rebuild_keys [of xs c] empty by (simp add: memory_rep_def rebuildMemoryIndexes_def xs_def)
qed

subsection \<open>Saving and loading one collection\<close>

lemma ii_rep_cong:
  assumes "ii_rep ul ii R" and "wf_map (ii_index ii')" and "\<And>k. mget (ii_index ii') k = mget (ii_index ii) k"
  shows "ii_rep ul ii' R"
proof -
  have "mget0 [] (ii_index ii') k = mget0 [] (ii_index ii) k" for k using assms(3) by (simp add: mget0_def)
  with assms(1,2) show ?thesis by (simp add: ii_rep_def)
qed

lemma II_Load_Save: "ii_rep ul ii R \<Longrightarrow>
    \<exists>ii'. II_Load (II_Save ii) NewInvertedIndex = (ii', None) \<and> ii_rep ul ii' R"
  using ii_rep_cong [of ul ii R "\<lparr>ii_index = fold (\<lambda>(k, v). mput k v) (ii_index ii) []\<rparr>"]
  by (simp add: II_Load_def II_Save_def NewInvertedIndex_def wf_fold_mput mget_fold_mput ii_rep_def split: option.splits)

lemma FI_Load_docs:
  assumes "docs_rep fi A"
  shows "\<exists>fi'. FI_Load (FI_Save fi) NewForwardIndex = (fi', None) \<and> docs_rep fi' A"
proof -
  let ?fi = "\<lparr>mapping = fold (\<lambda>(k, v). mput k v) (mapping fi) []\<rparr>"
  have wf: "wf_map (mapping fi)" using assms by (simp add: docs_rep_def)
  have "FI_Get ?fi v = FI_Get fi v" for v
    by (simp add: FI_Get_def mget_fold_mput [OF wf] split: option.split)
  then have "docs_rep ?fi A" using assms by (simp add: docs_rep_def wf_fold_mput)
  then show ?thesis by (simp add: FI_Load_def FI_Save_def NewForwardIndex_def)
qed

definition saved_dir :: "Collection \<Rightarrow> coll_dir \<Rightarrow> coll_dir" where
  "saved_dir c dir = dir\<lparr>vectors_hnsw := Some (snd (hw_Save (HNSWIndex c))),
     keywords_inv := II_Save (KeywordIndex c), doc_map_bin := FI_Save (DocMap c)\<rparr>"

lemma Coll_Save_ok:
  assumes "mget d (coll_basePath c) = Some dir"
  shows "\<exists>d'. Coll_Save c d = (c\<lparr>HNSWIndex := fst (hw_Save (HNSWIndex c))\<rparr>, d', None) \<and>
    Coll_Close c d = (c\<lparr>HNSWIndex := fst (hw_Save (HNSWIndex c))\<rparr>, d', None) \<and>
    mget d' (coll_basePath c) = Some (saved_dir c dir) \<and> (\<forall>q. q \<noteq> coll_basePath c \<longrightarrow> mget d' q = mget d q) \<and>
    (wf_map d \<longrightarrow> wf_map d')"
  using assms
  by (simp add: Coll_Save_def Coll_Close_def Coll_FlushHNSW_def write_file_def saved_dir_def first_error_def
      hw_Close_def case_prod_beta Let_def)

lemma Coll_Save_rep:
  assumes "coll_rep c A"
  shows "coll_rep (c\<lparr>HNSWIndex := fst (hw_Save (HNSWIndex c))\<rparr>) A"
  using assms hw_Save_ok [of "HNSWIndex c"] by (simp add: coll_rep_def memory_rep_def vecs_rep_def)

lemma loadCollection_saved:
  assumes rep: "coll_rep c A" and kw: "ii_rep ul (KeywordIndex c) R" and sv: "saveable (HNSWIndex c)"
    and ord: "is_order ord"
    and dir: "mget (cm_disk cm) (filepath_Join (cm_basePath cm) (meta_Name meta)) = Some (saved_dir c dir)"
    and meta: "meta_Name meta = Name (Config c)" "meta_Dimensions meta = Dimensions (Config c)"
      "meta_Metric meta = Metric (Config c)"
    and base: "coll_basePath c = filepath_Join (cm_basePath cm) (meta_Name meta)"
  shows "\<exists>c'. loadCollection ord meta cm = Inr c' \<and> coll_rep c' A \<and> ii_rep ul (KeywordIndex c') R \<and>
    Config c' = Config c \<and> coll_basePath c' = coll_basePath c"
proof -
  have doc: "docs_rep (DocMap c) A" and vec: "vecs_rep (Config c) (HNSWIndex c) A"
    using rep by (simp_all add: coll_rep_def)
  let ?new = "NewHNSWWrapper (Dimensions (Config c)) (Metric (Config c))"
  have "hw_params ?new = hw_params (HNSWIndex c)" "hw_nodes ?new = []"
    using vec by (simp_all add: vecs_rep_def) (simp_all add: hw_params_def NewHNSWWrapper_def)
  then obtain hw where hw: "hw_Load (Some (snd (hw_Save (HNSWIndex c)))) ?new = (hw, None)" "hnsw_ok hw"
    "hw_params hw = hw_params (HNSWIndex c)" "vector_of hw = vector_of (HNSWIndex c)"
    using Load_Save_ok [of "HNSWIndex c" ?new] sv vec by (auto simp: vecs_rep_def)
  obtain ii where ii: "II_Load (II_Save (KeywordIndex c)) NewInvertedIndex = (ii, None)" "ii_rep ul ii R"
    using II_Load_Save [OF kw] by blast
  obtain fi where fi: "FI_Load (FI_Save (DocMap c)) NewForwardIndex = (fi, None)" "docs_rep fi A"
    using FI_Load_docs [OF doc] by blast
  let ?c = "\<lparr>Config = Config c, HNSWIndex = hw, KeywordIndex = ii, DocMap = fi,
    coll_basePath = coll_basePath c, KeyLengths = [], KeyIndex = []\<rparr>"
  have cfg: "\<lparr>Name = Name (Config c), Dimensions = Dimensions (Config c), Metric = Metric (Config c)\<rparr> = Config c"
    by simp
  have "loadCollection ord meta cm = Inr (rebuildMemoryIndexes ord ?c)"
    using dir base hw(1) ii(1) fi(1)
    by (simp add: loadCollection_def Let_def saved_dir_def meta cfg)
  moreover have "memory_rep (rebuildMemoryIndexes ord ?c) A"
    using fi(2) ord by (intro rebuild_memory) simp_all
  ultimately show ?thesis
    using hw ii(2) fi(2) vec by (simp add: rebuildMemoryIndexes_def coll_rep_def vecs_rep_def)
qed

subsection \<open>The collection manager\<close>

text \<open>
  A name that is one component of a path and survives the JSON encoding. The specification of the
  manager maps such names to the configuration, the blocks and the postings of a collection.
\<close>

definition plain_name :: "string \<Rightarrow> bool" where
  "plain_name s \<longleftrightarrow> s \<noteq> [] \<and> s \<noteq> ''.'' \<and> s \<noteq> ''..'' \<and> CHR ''/'' \<notin> set s \<and> string_of_runes (runes s) = s"

type_synonym coll_state = "CollectionConfig \<times> coll_spec \<times> (uint64 \<times> string) set"

lemma split_slash_plain: "CHR ''/'' \<notin> set s \<Longrightarrow> split_slash s = [s]"
  by (induction s) auto

lemma Join_plain: "plain_name s \<Longrightarrow> filepath_Join p s = p @ [s]"
  by (simp add: filepath_Join_def plain_name_def split_slash_plain)

definition coll_state_rep :: "(string \<Rightarrow> string) \<Rightarrow> path \<Rightarrow> string \<Rightarrow> Collection \<Rightarrow> coll_state \<Rightarrow> bool" where
  "coll_state_rep ul base name c s \<longleftrightarrow> (case s of (cfg, A, R) \<Rightarrow>
     coll_rep c A \<and> ii_rep ul (KeywordIndex c) R \<and> Config c = cfg \<and> Name cfg = name \<and> plain_name name \<and>
     Metric cfg \<in> {MetricL2, MetricCosine, MetricIP} \<and> coll_basePath c = base @ [name])"

definition meta_at :: "disk \<Rightarrow> path \<Rightarrow> CollectionMeta option" where
  "meta_at d p = (case LoadCollectionMeta p d of Inl err \<Rightarrow> None | Inr meta \<Rightarrow> Some meta)"

definition meta_of :: "CollectionConfig \<Rightarrow> CollectionMeta" where
  "meta_of cfg = \<lparr>meta_Name = Name cfg, meta_Dimensions = Dimensions cfg, meta_Metric = Metric cfg\<rparr>"

definition cm_rep :: "(string \<Rightarrow> string) \<Rightarrow> CollectionManager \<Rightarrow> (string \<rightharpoonup> coll_state) \<Rightarrow> bool" where
  "cm_rep ul cm S \<longleftrightarrow> wf_map (collections cm) \<and> wf_map (cm_disk cm) \<and>
     (\<forall>name. rel_option (coll_state_rep ul (cm_basePath cm) name) (mget (collections cm) name) (S name)) \<and>
     (\<forall>name. meta_at (cm_disk cm) (cm_basePath cm @ [name]) = map_option (\<lambda>s. meta_of (fst s)) (S name))"

lemma cm_rep_Some:
  assumes "cm_rep ul cm S" and "S name = Some s"
  obtains c where "mget (collections cm) name = Some c" and "coll_state_rep ul (cm_basePath cm) name c s"
proof -
  have "rel_option (coll_state_rep ul (cm_basePath cm) name) (mget (collections cm) name) (Some s)"
    using assms unfolding cm_rep_def by metis
  with that show thesis by (auto simp: option_rel_Some2)
qed

lemma cm_rep_None: "cm_rep ul cm S \<Longrightarrow> S name = None \<longleftrightarrow> mget (collections cm) name = None"
  unfolding cm_rep_def by (metis option.rel_distinct(1,2) option.exhaust)

lemma GetCollection_rep:
  assumes "cm_rep ul cm S"
  shows "rel_sum (\<lambda>e e'. e = e') (coll_state_rep ul (cm_basePath cm) name) (GetCollection cm name)
    (case S name of None \<Rightarrow> Inl CollectionNotFound | Some s \<Rightarrow> Inr s)"
proof (cases "S name")
  case None
  with cm_rep_None [OF assms, of name] show ?thesis by (simp add: GetCollection_def)
next
  case (Some s)
  obtain c where "mget (collections cm) name = Some c" "coll_state_rep ul (cm_basePath cm) name c s"
    using cm_rep_Some [OF assms Some] .
  with Some show ?thesis by (simp add: GetCollection_def)
qed

text \<open>Directories.\<close>

lemma mget_MkdirAll:
  "mget (MkdirAll p d) q = (if mget d q = None \<and> (\<exists>i \<le> length p. q = take i p) then Some empty_dir else mget d q)"
proof -
  have "mget (fold (\<lambda>i d. if mget d (take i p) = None then mput (take i p) empty_dir d else d) is d) q =
      (if mget d q = None \<and> (\<exists>i \<in> set is. q = take i p) then Some empty_dir else mget d q)" for "is" d
    by (induction "is" arbitrary: d) auto
  from this [of "[0..<length p + 1]" d] show ?thesis
    unfolding MkdirAll_def by (auto simp: less_Suc_eq_le)
qed

lemma wf_MkdirAll: "wf_map d \<Longrightarrow> wf_map (MkdirAll p d)"
proof -
  have "wf_map d \<Longrightarrow> wf_map (fold (\<lambda>i d. if mget d (take i p) = None then mput (take i p) empty_dir d else d) is d)" for "is"
    by (induction "is" arbitrary: d) auto
  then show "wf_map d \<Longrightarrow> wf_map (MkdirAll p d)" by (simp add: MkdirAll_def)
qed

lemma mget_RemoveAll: "mget (RemoveAll p d) q = (if take (length p) q = p then None else mget d q)"
  by (induction d) (auto simp: RemoveAll_def)

lemma wf_RemoveAll: "wf_map d \<Longrightarrow> wf_map (RemoveAll p d)"
  unfolding wf_map_def RemoveAll_def by (induction d) auto

lemma meta_at_empty: "meta_at (MkdirAll p d) q = meta_at d q"
  by (simp add: meta_at_def LoadCollectionMeta_def mget_MkdirAll empty_dir_def)

subsection \<open>Creating and deleting collections\<close>

lemma metric_utf8: "m \<in> {MetricL2, MetricCosine, MetricIP} \<Longrightarrow> string_of_runes (runes m) = m"
proof -
  assume "m \<in> {MetricL2, MetricCosine, MetricIP}"
  then have "is_ascii m" by (auto simp: metric_defs)
  then show ?thesis by (simp add: runes_ascii string_of_runes_ascii)
qed

lemma ValidateCollectionConfig_None: "ValidateCollectionConfig cfg = None \<longleftrightarrow>
    Name cfg \<noteq> [] \<and> Dimensions cfg \<noteq> 0 \<and> Metric cfg \<in> {MetricL2, MetricCosine, MetricIP}"
  by (auto simp: ValidateCollectionConfig_def)

lemma CreateCollection_ok:
  assumes rep: "cm_rep ul cm S" and "S name = None" and plain: "plain_name name"
    and valid: "ValidateCollectionConfig \<lparr>Name = name, Dimensions = dims, Metric = metric\<rparr> = None"
  shows "snd (CreateCollection name dims metric cm) = None \<and>
    cm_rep ul (fst (CreateCollection name dims metric cm))
      (S(name \<mapsto> (\<lparr>Name = name, Dimensions = dims, Metric = metric\<rparr>, Map.empty, {})))"
proof -
  let ?cfg = "\<lparr>Name = name, Dimensions = dims, Metric = metric\<rparr>" and ?p = "cm_basePath cm @ [name]"
  let ?c = "\<lparr>Config = ?cfg, HNSWIndex = NewHNSWWrapper dims metric, KeywordIndex = NewInvertedIndex,
     DocMap = NewForwardIndex, coll_basePath = ?p, KeyLengths = [], KeyIndex = []\<rparr>"
  have none: "mget (collections cm) name = None" using cm_rep_None [OF rep] assms(2) by blast
  have m: "metric \<in> {MetricL2, MetricCosine, MetricIP}"
    using valid unfolding ValidateCollectionConfig_None by simp
  have u: "string_of_runes (runes name) = name" "string_of_runes (runes metric) = metric"
    using plain metric_utf8 [OF m] by (simp_all add: plain_name_def)
  have "?p = take (length ?p) ?p" by simp
  then have "mget (MkdirAll ?p (cm_disk cm)) ?p \<noteq> None"
    unfolding mget_MkdirAll by (metis le_refl option.distinct(1))
  then obtain dir where dir: "mget (MkdirAll ?p (cm_disk cm)) ?p = Some dir" by blast
  let ?d = "mput ?p (dir\<lparr>meta_json := GobFile (meta_of ?cfg)\<rparr>) (MkdirAll ?p (cm_disk cm))"
  have r: "CreateCollection name dims metric cm =
      (cm\<lparr>cm_disk := ?d, collections := mput name ?c (collections cm)\<rparr>, None)"
    using none dir by (simp add: CreateCollection_def valid Let_def Join_plain [OF plain] SaveCollectionMeta_def
        write_file_def u meta_of_def)
  have c: "coll_state_rep ul (cm_basePath cm) name ?c (?cfg, Map.empty, {})"
    using coll_rep_empty [of ?cfg ?p] m plain by (simp add: coll_state_rep_def ii_rep_New)
  have metas: "meta_at ?d q = (if q = ?p then Some (meta_of ?cfg) else meta_at (cm_disk cm) q)" for q
    using meta_at_empty [of ?p "cm_disk cm" q] by (simp add: meta_at_def LoadCollectionMeta_def)
  show ?thesis
    using rep c by (simp add: r cm_rep_def metas wf_MkdirAll)
qed

lemma CreateCollection_rejects:
  assumes "cm_rep ul cm S"
  shows "S name \<noteq> None \<Longrightarrow> CreateCollection name dims metric cm = (cm, Some CollectionExists)"
    and "S name = None \<Longrightarrow> ValidateCollectionConfig \<lparr>Name = name, Dimensions = dims, Metric = metric\<rparr> = Some err \<Longrightarrow>
      CreateCollection name dims metric cm = (cm, Some err)"
  using cm_rep_None [OF assms, of name] by (auto simp: CreateCollection_def)

lemma DeleteCollection_ok:
  assumes rep: "cm_rep ul cm S" and s: "S name = Some s"
  shows "snd (CM_DeleteCollection name cm) = None \<and> cm_rep ul (fst (CM_DeleteCollection name cm)) (S(name := None))"
proof -
  obtain c where c: "mget (collections cm) name = Some c" "coll_state_rep ul (cm_basePath cm) name c s"
    using cm_rep_Some [OF rep s] .
  let ?p = "cm_basePath cm @ [name]"
  have p: "coll_basePath c = ?p" using c(2) by (simp add: coll_state_rep_def case_prod_beta)
  have "meta_at (cm_disk cm) ?p \<noteq> None" using rep s by (simp add: cm_rep_def)
  then obtain dir where "mget (cm_disk cm) ?p = Some dir"
    by (auto simp: meta_at_def LoadCollectionMeta_def split: option.splits)
  with p obtain d where d: "Coll_Close c (cm_disk cm) = (c\<lparr>HNSWIndex := fst (hw_Save (HNSWIndex c))\<rparr>, d, None)"
    "\<forall>q. q \<noteq> ?p \<longrightarrow> mget d q = mget (cm_disk cm) q" "wf_map (cm_disk cm) \<longrightarrow> wf_map d"
    using Coll_Save_ok [of "cm_disk cm" c dir] by auto
  have r: "CM_DeleteCollection name cm =
      (cm\<lparr>collections := mdel name (collections cm), cm_disk := RemoveAll ?p d\<rparr>, None)"
    by (simp add: CM_DeleteCollection_def c(1) d(1) p)
  have "take (length ?p) (cm_basePath cm @ [n]) = ?p \<longleftrightarrow> n = name" for n by simp
  then have "meta_at (RemoveAll ?p d) (cm_basePath cm @ [n]) = (if n = name then None else meta_at (cm_disk cm) (cm_basePath cm @ [n]))" for n
    using d(2) by (simp add: meta_at_def LoadCollectionMeta_def mget_RemoveAll)
  then show ?thesis
    using rep d(3) by (simp add: r cm_rep_def wf_RemoveAll)
qed

subsection \<open>Closing and reopening all collections\<close>

lemma set_collection_rep:
  assumes "cm_rep ul cm S" and "S name = Some s" and "coll_state_rep ul (cm_basePath cm) name c s'"
    and "fst s' = fst s" and "wf_map d" and "\<And>n. meta_at d (cm_basePath cm @ [n]) = meta_at (cm_disk cm) (cm_basePath cm @ [n])"
  shows "cm_rep ul (set_collection name c d cm) (S(name \<mapsto> s'))"
  using assms by (auto simp: cm_rep_def set_collection_def)

definition close_step :: "string \<times> Collection \<Rightarrow> CollectionManager \<times> go_error option \<Rightarrow> CollectionManager \<times> go_error option" where
  "close_step p st = (case p of (name, coll) \<Rightarrow> case st of (cm, lastErr) \<Rightarrow>
     let (coll, d, err) = Coll_Close coll (cm_disk cm)
     in (set_collection name coll d cm, if err = None then lastErr else err))"

lemma CM_Close_fold: "CM_Close cm = fold close_step (collections cm) (cm, None)"
  unfolding CM_Close_def by (rule fun_cong [OF arg_cong [where f = "\<lambda>f. fold f (collections cm)"]])
    (simp add: close_step_def fun_eq_iff split: prod.split)

lemma close_fold:
  assumes "distinct (map fst xs)"
    and "\<forall>(n, c) \<in> set xs. coll_basePath c = base @ [n] \<and> mget (cm_disk cm) (base @ [n]) \<noteq> None"
  shows "\<exists>cm'. fold close_step xs (cm, None) = (cm', None) \<and> cm_basePath cm' = cm_basePath cm \<and>
    (wf_map (cm_disk cm) \<longrightarrow> wf_map (cm_disk cm')) \<and>
    (\<forall>(n, c) \<in> set xs. \<exists>dir. mget (cm_disk cm) (base @ [n]) = Some dir \<and>
       mget (cm_disk cm') (base @ [n]) = Some (saved_dir c dir)) \<and>
    (\<forall>q. (\<forall>(n, c) \<in> set xs. q \<noteq> base @ [n]) \<longrightarrow> mget (cm_disk cm') q = mget (cm_disk cm) q)"
  using assms
proof (induction xs arbitrary: cm)
  case Nil
  then show ?case by simp
next
  case (Cons x xs)
  obtain n c where x: "x = (n, c)" by (cases x)
  from Cons.prems(2) obtain dir where p: "coll_basePath c = base @ [n]" "mget (cm_disk cm) (base @ [n]) = Some dir"
    by (auto simp: x)
  then obtain d where d: "Coll_Close c (cm_disk cm) = (c\<lparr>HNSWIndex := fst (hw_Save (HNSWIndex c))\<rparr>, d, None)"
    "mget d (base @ [n]) = Some (saved_dir c dir)"
    "\<forall>q. q \<noteq> base @ [n] \<longrightarrow> mget d q = mget (cm_disk cm) q" "wf_map (cm_disk cm) \<longrightarrow> wf_map d"
    using Coll_Save_ok [of "cm_disk cm" c dir] by auto
  let ?cm = "set_collection n (c\<lparr>HNSWIndex := fst (hw_Save (HNSWIndex c))\<rparr>) d cm"
  have step: "close_step x (cm, None) = (?cm, None)" by (simp add: close_step_def x d(1))
  have disk: "cm_disk ?cm = d" "cm_basePath ?cm = cm_basePath cm" by (simp_all add: set_collection_def)
  have other: "n' \<noteq> n" if "(n', c') \<in> set xs" for n' c'
    using that Cons.prems(1) by (force simp: x)
  have "\<forall>(n', c') \<in> set xs. coll_basePath c' = base @ [n'] \<and> mget (cm_disk ?cm) (base @ [n']) \<noteq> None"
    using Cons.prems(2) other d(3) by (auto simp: x disk)
  then obtain cm' where cm': "fold close_step xs (?cm, None) = (cm', None)" "cm_basePath cm' = cm_basePath cm"
    "wf_map d \<longrightarrow> wf_map (cm_disk cm')"
    "\<forall>(n', c') \<in> set xs. \<exists>dir. mget d (base @ [n']) = Some dir \<and> mget (cm_disk cm') (base @ [n']) = Some (saved_dir c' dir)"
    "\<forall>q. (\<forall>(n', c') \<in> set xs. q \<noteq> base @ [n']) \<longrightarrow> mget (cm_disk cm') q = mget d q"
    using Cons.IH [of ?cm] Cons.prems(1) by (auto simp: x disk)
  have last: "mget (cm_disk cm') (base @ [n]) = Some (saved_dir c dir)"
    using spec [OF cm'(5), of "base @ [n]"] d(2) other by fastforce
  have rest: "\<exists>dir. mget (cm_disk cm) (base @ [n']) = Some dir \<and> mget (cm_disk cm') (base @ [n']) = Some (saved_dir c' dir)"
    if "(n', c') \<in> set xs" for n' c'
    using cm'(4) that other [OF that] d(3) by auto
  show ?case
    using cm'(1,2,3,5) step d(3,4) last rest p(2) by (auto simp: x)
qed

lemma loadCollection_collections [simp]:
  "loadCollection ord meta (cm\<lparr>collections := cs\<rparr>) = loadCollection ord meta cm"
  by (simp add: loadCollection_def)

lemma load_dirs_ok:
  assumes "\<forall>p \<in> set ps. \<exists>n. p = base @ [n]"
    and "\<And>n. meta_at (cm_disk cm) (base @ [n]) = map_option (\<lambda>s. meta_of (fst s)) (S n)"
    and "\<And>n s. S n = Some s \<Longrightarrow> Name (fst s) = n \<and> (\<exists>c. loadCollection ord (meta_of (fst s)) cm = Inr c \<and> P n c s)"
  shows "\<exists>cs. load_dirs ord ps cm = (cm\<lparr>collections := cs\<rparr>, None) \<and> (wf_map (collections cm) \<longrightarrow> wf_map cs) \<and>
    (\<forall>n. if base @ [n] \<in> set ps \<and> S n \<noteq> None then rel_option (P n) (mget cs n) (S n)
         else mget cs n = mget (collections cm) n)"
  using assms
proof (induction ps arbitrary: cm)
  case Nil
  then show ?case by (intro exI [of _ "collections cm"]) simp
next
  case (Cons p ps)
  obtain n where p: "p = base @ [n]" using Cons.prems(1) by auto
  have ps: "\<forall>p \<in> set ps. \<exists>n. p = base @ [n]" using Cons.prems(1) by simp
  show ?case
  proof (cases "S n")
    case None
    then obtain err where "LoadCollectionMeta p (cm_disk cm) = Inl err"
      using Cons.prems(2) [of n] by (auto simp: p meta_at_def split: sum.splits)
    then have step: "load_dirs ord (p # ps) cm = load_dirs ord ps cm" by simp
    obtain cs where cs: "load_dirs ord ps cm = (cm\<lparr>collections := cs\<rparr>, None)" "wf_map (collections cm) \<longrightarrow> wf_map cs"
      "\<forall>n. if base @ [n] \<in> set ps \<and> S n \<noteq> None then rel_option (P n) (mget cs n) (S n)
         else mget cs n = mget (collections cm) n"
      using Cons.IH [OF ps Cons.prems(2,3)] by blast
    have "if base @ [k] \<in> set (p # ps) \<and> S k \<noteq> None then rel_option (P k) (mget cs k) (S k)
         else mget cs k = mget (collections cm) k" for k
      using spec [OF cs(3), of k] None by (cases "k = n") (simp_all add: p)
    with cs(1,2) step show ?thesis by (intro exI [of _ cs]) simp
  next
    case (Some s)
    then have m: "LoadCollectionMeta p (cm_disk cm) = Inr (meta_of (fst s))"
      using Cons.prems(2) [of n] by (auto simp: p meta_at_def split: sum.splits)
    obtain c where c: "loadCollection ord (meta_of (fst s)) cm = Inr c" "P n c s" and name: "Name (fst s) = n"
      using Cons.prems(3) [OF Some] by blast
    let ?cm = "cm\<lparr>collections := mput n c (collections cm)\<rparr>"
    have step: "load_dirs ord (p # ps) cm = load_dirs ord ps ?cm"
      using m c(1) name by (simp add: meta_of_def)
    have "\<exists>cs. load_dirs ord ps ?cm = (?cm\<lparr>collections := cs\<rparr>, None) \<and> (wf_map (collections ?cm) \<longrightarrow> wf_map cs) \<and>
      (\<forall>n. if base @ [n] \<in> set ps \<and> S n \<noteq> None then rel_option (P n) (mget cs n) (S n)
         else mget cs n = mget (collections ?cm) n)"
      by (rule Cons.IH [OF ps]) (use Cons.prems(2,3) in auto)
    then obtain cs where cs: "load_dirs ord ps ?cm = (?cm\<lparr>collections := cs\<rparr>, None)"
      "wf_map (collections ?cm) \<longrightarrow> wf_map cs"
      "\<forall>n. if base @ [n] \<in> set ps \<and> S n \<noteq> None then rel_option (P n) (mget cs n) (S n)
         else mget cs n = mget (collections ?cm) n" by blast
    have "if base @ [k] \<in> set (p # ps) \<and> S k \<noteq> None then rel_option (P k) (mget cs k) (S k)
         else mget cs k = mget (collections cm) k" for k
      using spec [OF cs(3), of k] Some c(2) by (cases "k = n") (simp_all add: p split: if_splits)
    with cs(1,2) step show ?thesis by (intro exI [of _ cs]) simp
  qed
qed

lemma set_ReadDir: "set (ReadDir p d) = {q. mget d q \<noteq> None \<and> (\<exists>n. q = p @ [n])}"
proof -
  have "q \<noteq> [] \<and> butlast q = p \<longleftrightarrow> (\<exists>n. q = p @ [n])" for q
    by (metis append_butlast_last_id butlast_snoc snoc_eq_iff_butlast)
  then show ?thesis unfolding ReadDir_def by (auto simp: set_mkeys [unfolded dom_def] simp del: set_map)
qed

lemma CM_Close_files:
  assumes rep: "cm_rep ul cm S"
  obtains cm1 where "CM_Close cm = (cm1, None)" and "wf_map (cm_disk cm1)"
    and "\<And>n c. mget (collections cm) n = Some c \<Longrightarrow>
      \<exists>dir. mget (cm_disk cm1) (cm_basePath cm @ [n]) = Some (saved_dir c dir)"
    and "\<And>n. meta_at (cm_disk cm1) (cm_basePath cm @ [n]) = map_option (\<lambda>s. meta_of (fst s)) (S n)"
proof -
  let ?b = "cm_basePath cm"
  have wf: "wf_map (collections cm)" "wf_map (cm_disk cm)" using rep by (simp_all add: cm_rep_def)
  have meta: "meta_at (cm_disk cm) (?b @ [n]) = map_option (\<lambda>s. meta_of (fst s)) (S n)" for n
    using rep by (simp add: cm_rep_def)
  have "coll_basePath c = ?b @ [n] \<and> mget (cm_disk cm) (?b @ [n]) \<noteq> None"
    if c: "mget (collections cm) n = Some c" for n c
  proof -
    obtain s where s: "S n = Some s" using cm_rep_None [OF rep, of n] c by (cases "S n") auto
    obtain c' where "mget (collections cm) n = Some c'" "coll_state_rep ul ?b n c' s"
      using cm_rep_Some [OF rep s] .
    with c have "coll_basePath c = ?b @ [n]" by (simp add: coll_state_rep_def case_prod_beta)
    moreover have "mget (cm_disk cm) (?b @ [n]) \<noteq> None"
      using meta [of n] s by (auto simp: meta_at_def LoadCollectionMeta_def split: option.splits)
    ultimately show ?thesis ..
  qed
  then have "\<forall>(n, c) \<in> set (collections cm). coll_basePath c = ?b @ [n] \<and> mget (cm_disk cm) (?b @ [n]) \<noteq> None"
    using mget_in_set [OF wf(1)] by blast
  then obtain cm1 where cl: "CM_Close cm = (cm1, None)" and wf1: "wf_map (cm_disk cm1)"
    and files: "\<forall>(n, c) \<in> set (collections cm). \<exists>dir. mget (cm_disk cm) (?b @ [n]) = Some dir \<and>
       mget (cm_disk cm1) (?b @ [n]) = Some (saved_dir c dir)"
    and keep: "\<forall>q. (\<forall>(n, c) \<in> set (collections cm). q \<noteq> ?b @ [n]) \<longrightarrow> mget (cm_disk cm1) q = mget (cm_disk cm) q"
    using close_fold [of "collections cm" ?b cm] wf by (auto simp: CM_Close_fold wf_map_def [of "collections cm"])
  have "meta_at (cm_disk cm1) (?b @ [n]) = map_option (\<lambda>s. meta_of (fst s)) (S n)" for n
  proof (cases "\<exists>c. (n, c) \<in> set (collections cm)")
    case True
    then obtain c dir where "mget (cm_disk cm) (?b @ [n]) = Some dir" "mget (cm_disk cm1) (?b @ [n]) = Some (saved_dir c dir)"
      using files by fastforce
    then show ?thesis
      unfolding meta [symmetric] by (simp add: meta_at_def LoadCollectionMeta_def saved_dir_def)
  next
    case False
    then have "mget (cm_disk cm1) (?b @ [n]) = mget (cm_disk cm) (?b @ [n])"
      using spec [OF keep, of "?b @ [n]"] by fastforce
    then show ?thesis unfolding meta [symmetric] by (simp add: meta_at_def LoadCollectionMeta_def)
  qed
  moreover have "\<exists>dir. mget (cm_disk cm1) (?b @ [n]) = Some (saved_dir c dir)" if "mget (collections cm) n = Some c" for n c
    using files that mget_in_set [OF wf(1), of n c] by fastforce
  ultimately show thesis using that cl wf1 by blast
qed

lemma load_saved_state:
  assumes "coll_state_rep ul (cm_basePath cm) n c s" and "saveable (HNSWIndex c)" and "is_order ord"
    and "mget (cm_disk cm) (cm_basePath cm @ [n]) = Some (saved_dir c dir)"
  shows "Name (fst s) = n \<and> (\<exists>c'. loadCollection ord (meta_of (fst s)) cm = Inr c' \<and>
    coll_state_rep ul (cm_basePath cm) n c' s)"
proof -
  obtain cfg A R where s: "s = (cfg, A, R)" by (cases s)
  have c: "coll_rep c A" "ii_rep ul (KeywordIndex c) R" "Config c = cfg" "Name cfg = n" "plain_name n"
    "coll_basePath c = cm_basePath cm @ [n]" "Metric cfg \<in> {MetricL2, MetricCosine, MetricIP}"
    using assms(1) by (simp_all add: coll_state_rep_def s)
  have "\<exists>c'. loadCollection ord (meta_of cfg) cm = Inr c' \<and> coll_rep c' A \<and> ii_rep ul (KeywordIndex c') R \<and>
      Config c' = Config c \<and> coll_basePath c' = coll_basePath c"
    by (rule loadCollection_saved [OF c(1,2) assms(2,3), of _ _ dir])
      (use c(3-6) assms(4) in \<open>simp_all add: meta_of_def Join_plain\<close>)
  then show ?thesis using c(3-7) by (auto simp: s coll_state_rep_def)
qed

lemma mget_MkdirAll_below: "mget (MkdirAll b d) (b @ [n]) = mget d (b @ [n])"
proof -
  have "length (take i b) < length (b @ [n])" for i by simp
  then have "b @ [n] \<noteq> take i b" for i by (metis less_irrefl)
  then show ?thesis by (simp add: mget_MkdirAll)
qed

lemma manager_restart:
  assumes rep: "cm_rep ul cm S" and sv: "\<And>n c. mget (collections cm) n = Some c \<Longrightarrow> saveable (HNSWIndex c)"
    and ord: "is_order ord" and base: "filepath_Join dataPath ''indexes'' = cm_basePath cm"
  shows "snd (CM_Close cm) = None \<and>
    (\<exists>cm'. NewCollectionManager ord dataPath (cm_disk (fst (CM_Close cm))) = Inr cm' \<and> cm_rep ul cm' S)"
proof -
  let ?b = "cm_basePath cm"
  obtain cm1 where cl: "CM_Close cm = (cm1, None)" and wf1: "wf_map (cm_disk cm1)"
    and files: "\<And>n c. mget (collections cm) n = Some c \<Longrightarrow> \<exists>dir. mget (cm_disk cm1) (?b @ [n]) = Some (saved_dir c dir)"
    and meta1: "\<And>n. meta_at (cm_disk cm1) (?b @ [n]) = map_option (\<lambda>s. meta_of (fst s)) (S n)"
    using CM_Close_files [OF rep] by metis
  define d where "d = MkdirAll ?b (cm_disk cm1)"
  let ?cm = "\<lparr>collections = [], cm_basePath = ?b, cm_disk = d\<rparr>"
  have meta: "meta_at d (?b @ [n]) = map_option (\<lambda>s. meta_of (fst s)) (S n)" for n
    using meta1 by (simp add: d_def meta_at_empty)
  have load: "Name (fst s) = n \<and> (\<exists>c. loadCollection ord (meta_of (fst s)) ?cm = Inr c \<and> coll_state_rep ul ?b n c s)"
    if s: "S n = Some s" for n s
  proof -
    obtain c where c: "mget (collections cm) n = Some c" "coll_state_rep ul ?b n c s" using cm_rep_Some [OF rep s] .
    with files obtain dir where "mget d (?b @ [n]) = Some (saved_dir c dir)"
      by (auto simp: d_def mget_MkdirAll_below)
    with load_saved_state [of ul ?cm n c s ord dir] c sv ord show ?thesis by simp
  qed
  obtain cs where cs: "load_dirs ord (ReadDir ?b d) ?cm = (?cm\<lparr>collections := cs\<rparr>, None)" "wf_map cs"
    "\<forall>n. if ?b @ [n] \<in> set (ReadDir ?b d) \<and> S n \<noteq> None then rel_option (coll_state_rep ul ?b n) (mget cs n) (S n)
         else mget cs n = None"
    using load_dirs_ok [of "ReadDir ?b d" ?b ?cm S ord "coll_state_rep ul ?b"] meta load by (auto simp: set_ReadDir)
  have "rel_option (coll_state_rep ul ?b n) (mget cs n) (S n)" for n
  proof (cases "S n")
    case None
    with spec [OF cs(3), of n] show ?thesis by simp
  next
    case (Some s)
    then have "mget d (?b @ [n]) \<noteq> None"
      using meta [of n] by (auto simp: meta_at_def LoadCollectionMeta_def split: option.splits)
    with spec [OF cs(3), of n] Some show ?thesis by (simp add: set_ReadDir)
  qed
  moreover have "wf_map d" using wf1 by (simp add: d_def wf_MkdirAll)
  ultimately have "cm_rep ul (?cm\<lparr>collections := cs\<rparr>) S" using cs(2) meta by (simp add: cm_rep_def)
  moreover have "NewCollectionManager ord dataPath (cm_disk (fst (CM_Close cm))) = Inr (?cm\<lparr>collections := cs\<rparr>)"
    by (simp add: NewCollectionManager_def base cl loadExistingCollections_def d_def [symmetric] cs(1))
  ultimately show ?thesis using cl by auto
qed

subsection \<open>Properties\<close>

lemma set_ListCollections: "wf_map (collections cm) \<Longrightarrow> set (ListCollections cm) = {Config c |n c. mget (collections cm) n = Some c}"
  by (auto simp: ListCollections_def mget_in_set image_iff)

lemma ListCollections_rep:
  assumes "cm_rep ul cm S"
  shows "set (ListCollections cm) = {fst s |n s. S n = Some s}"
proof -
  have cfg: "Config c = fst s" if "coll_state_rep ul b n c s" for b n c s
    using that by (auto simp: coll_state_rep_def)
  have wf: "wf_map (collections cm)" using assms by (simp add: cm_rep_def)
  show ?thesis
    unfolding set_ListCollections [OF wf]
  proof (intro set_eqI iffI)
    fix x
    assume "x \<in> {Config c |n c. mget (collections cm) n = Some c}"
    then obtain n c where c: "x = Config c" "mget (collections cm) n = Some c" by blast
    then obtain s where s: "S n = Some s" using cm_rep_None [OF assms, of n] by (cases "S n") auto
    obtain c' where "mget (collections cm) n = Some c'" "coll_state_rep ul (cm_basePath cm) n c' s"
      using cm_rep_Some [OF assms s] .
    with c cfg have "x = fst s" by simp
    with s show "x \<in> {fst s |n s. S n = Some s}" by blast
  next
    fix x
    assume "x \<in> {fst s |n s. S n = Some s}"
    then obtain n s where s: "x = fst s" "S n = Some s" by blast
    obtain c where "mget (collections cm) n = Some c" "coll_state_rep ul (cm_basePath cm) n c s"
      using cm_rep_Some [OF assms s(2)] .
    moreover from this cfg s(1) have "x = Config c" by simp
    ultimately show "x \<in> {Config c |n c. mget (collections cm) n = Some c}" by blast
  qed
qed

lemma NewCollectionManager_fresh: "NewCollectionManager ord p [] = Inr \<lparr>collections = [], cm_basePath = filepath_Join p ''indexes'',
    cm_disk = MkdirAll (filepath_Join p ''indexes'') []\<rparr>"
proof -
  let ?b = "filepath_Join p ''indexes''"
  have "length (take i ?b) < length (?b @ [n])" for i n by simp
  then have "?b @ [n] \<noteq> take i ?b" for i n by (metis less_irrefl)
  then have "set (ReadDir ?b (MkdirAll ?b [])) = {}"
    unfolding set_ReadDir by (simp add: mget_MkdirAll) metis
  then have "ReadDir ?b (MkdirAll ?b []) = []" by (rule set_empty [THEN iffD1])
  then show ?thesis by (simp add: NewCollectionManager_def Let_def loadExistingCollections_def)
qed

lemma cm_rep_fresh: "cm_rep ul \<lparr>collections = [], cm_basePath = b, cm_disk = MkdirAll b []\<rparr> Map.empty"
  by (simp add: cm_rep_def wf_MkdirAll meta_at_empty) (simp add: meta_at_def LoadCollectionMeta_def)

definition sample_cm :: CollectionManager where
  "sample_cm = fst (CreateCollection ''docs'' 1 MetricL2
     \<lparr>collections = [], cm_basePath = [''data'', ''indexes''], cm_disk = MkdirAll [''data'', ''indexes''] []\<rparr>)"

lemma sample_plain: "plain_name ''docs''"
  by (simp add: plain_name_def runes_ascii string_of_runes_ascii [of "''docs''", simplified])

lemma sample_cm_rep: "cm_rep ul sample_cm [''docs'' \<mapsto> (sample_config, Map.empty, {})]"
  using CreateCollection_ok [OF cm_rep_fresh _ sample_plain, where dims = 1 and metric = MetricL2]
  by (simp add: sample_cm_def sample_config_def ValidateCollectionConfig_def)

text \<open>
  The collection manager behaves like a map from names to collections. Creating a collection
  fails for a name in use and for an invalid configuration, without any change; otherwise the
  collection is there, empty, with its metadata on disk. Deleting removes it with its
  directory and leaves the other collections alone. Names are single path components.
\<close>

theorem CollectionManager_refines:
  assumes "cm_rep ul cm S" and "plain_name name"
  shows "(if S name \<noteq> None then CreateCollection name dims metric cm = (cm, Some CollectionExists)
     else case ValidateCollectionConfig \<lparr>Name = name, Dimensions = dims, Metric = metric\<rparr> of
        Some err \<Rightarrow> CreateCollection name dims metric cm = (cm, Some err)
      | None \<Rightarrow> snd (CreateCollection name dims metric cm) = None \<and>
          cm_rep ul (fst (CreateCollection name dims metric cm))
            (S(name \<mapsto> (\<lparr>Name = name, Dimensions = dims, Metric = metric\<rparr>, Map.empty, {})))) \<and>
    (if S name = None then CM_DeleteCollection name cm = (cm, Some CollectionNotFound)
     else snd (CM_DeleteCollection name cm) = None \<and> cm_rep ul (fst (CM_DeleteCollection name cm)) (S(name := None))) \<and>
    set (ListCollections cm) = {fst s |n s. S n = Some s}"
  using CreateCollection_ok [OF assms(1) _ assms(2)] CreateCollection_rejects [OF assms(1), of name dims metric]
    DeleteCollection_ok [OF assms(1), of name] cm_rep_None [OF assms(1), of name] ListCollections_rep [OF assms(1)]
  by (auto simp: CM_DeleteCollection_def split: option.split)

theorem CollectionManager_refines_witness:
  "cm_rep id sample_cm [''docs'' \<mapsto> (sample_config, Map.empty, {})] \<and> plain_name ''docs'' \<and>
   CreateCollection ''docs'' 3 MetricIP sample_cm = (sample_cm, Some CollectionExists) \<and>
   cm_rep id (fst (CM_DeleteCollection ''docs'' sample_cm)) Map.empty"
  using CollectionManager_refines [OF sample_cm_rep sample_plain, of 3 MetricIP id] sample_cm_rep sample_plain by simp

text \<open>
  Closing all collections and starting again from the directory: every collection is loaded
  with its configuration, its blocks and its postings, whatever order the maps are visited in, and
  there is no other. The vector indexes have to fit their file format (\<open>saveable\<close>).
\<close>

theorem NewCollectionManager_after_Close:
  assumes "cm_rep ul cm S" and "\<forall>n c. mget (collections cm) n = Some c \<longrightarrow> saveable (HNSWIndex c)"
    and "is_order ord" and "filepath_Join dataPath ''indexes'' = cm_basePath cm"
  shows "snd (CM_Close cm) = None \<and>
    (\<exists>cm'. NewCollectionManager ord dataPath (cm_disk (fst (CM_Close cm))) = Inr cm' \<and> cm_rep ul cm' S)"
  using assms by (intro manager_restart) auto

theorem NewCollectionManager_after_Close_witness:
  "\<exists>cm'. NewCollectionManager rev [''data''] (cm_disk (fst (CM_Close sample_cm))) = Inr cm' \<and>
     cm_rep id cm' [''docs'' \<mapsto> (sample_config, Map.empty, {})]"
proof -
  have "list_all (\<lambda>(n, c). saveable (HNSWIndex c)) (collections sample_cm)" and "cm_basePath sample_cm = [''data'', ''indexes'']"
    by (simp_all add: sample_cm_def CreateCollection_def ValidateCollectionConfig_def Let_def SaveCollectionMeta_def
        write_file_def filepath_Join_def mget_MkdirAll saveable_def NewHNSWWrapper_def split: option.split)
  then show ?thesis
    by (intro conjunct2 [OF NewCollectionManager_after_Close [OF sample_cm_rep]])
      (auto simp: list_all_iff is_order_def filepath_Join_def dest!: map_of_SomeD)
qed

text \<open>
  Two names can share one directory: \<^verbatim>\<open>./\<close> in front of a name is cleaned away, so the manager
  accepts it as a new collection, and deleting that collection removes the directory of the first.
\<close>

theorem DeleteCollection_alias:
  assumes "plain_name name" and "mget (collections cm) name = Some c" and "mget (collections cm) (''./'' @ name) = None"
    and "ValidateCollectionConfig \<lparr>Name = ''./'' @ name, Dimensions = dims, Metric = metric\<rparr> = None"
  shows "snd (CreateCollection (''./'' @ name) dims metric cm) = None \<and>
    (let cm' = fst (CM_DeleteCollection (''./'' @ name) (fst (CreateCollection (''./'' @ name) dims metric cm)))
     in mget (collections cm') name = Some c \<and> mget (cm_disk cm') (filepath_Join (cm_basePath cm) name) = None)"
proof -
  let ?p = "filepath_Join (cm_basePath cm) name"
  have p: "filepath_Join (cm_basePath cm) (CHR ''.'' # CHR ''/'' # name) = ?p"
    using assms(1) by (simp add: filepath_Join_def)
  have ne: "name \<noteq> CHR ''.'' # CHR ''/'' # name" by (metis impossible_Cons le_refl length_Cons le_Suc_eq list.size(4) nat_le_linear not_less_eq_eq)
  have "?p = take (length ?p) ?p" by simp
  then obtain dir where dir: "mget (MkdirAll ?p (cm_disk cm)) ?p = Some dir"
    unfolding mget_MkdirAll by (metis le_refl option.exhaust)
  then show ?thesis
    using assms(2-4) ne
    by (auto simp: CreateCollection_def p Let_def SaveCollectionMeta_def write_file_def CM_DeleteCollection_def
        case_prod_beta Coll_Close_def Coll_FlushHNSW_def mget_RemoveAll split: option.splits)
qed

theorem DeleteCollection_alias_witness:
  "\<exists>c. mget (collections sample_cm) ''docs'' = Some c \<and>
     snd (CreateCollection ''./docs'' 1 MetricL2 sample_cm) = None \<and>
     mget (cm_disk (fst (CM_DeleteCollection ''./docs'' (fst (CreateCollection ''./docs'' 1 MetricL2 sample_cm)))))
       (filepath_Join (cm_basePath sample_cm) ''docs'') = None"
proof -
  obtain c where c: "mget (collections sample_cm) ''docs'' = Some c"
    using cm_rep_None [OF sample_cm_rep [of id], of "''docs''"] by auto
  have "mget (collections sample_cm) (''./'' @ ''docs'') = None"
    using cm_rep_None [OF sample_cm_rep [of id], of "''./docs''"] by simp
  from DeleteCollection_alias [OF sample_plain c this, of 1 MetricL2] c show ?thesis
    by (simp add: ValidateCollectionConfig_def Let_def)
qed

end
