(* ===== verification/WAL.thy ===== *)
theory WAL
  imports Go_Prelude Types
begin

section \<open>The write-ahead log\<close>

text \<open>
  \<^verbatim>\<open>internal/storage/wal.go\<close>: the log of operations that a start replays. The file holds the
  output of one \<^verbatim>\<open>gob.Encoder\<close> for every time it was opened since the last checkpoint; the model
  keeps the entries of each. An encoder writes the type of \<^verbatim>\<open>WALEntry\<close> before its first entry, and a
  decoder that receives the definition of a type a second time fails (\<^verbatim>\<open>encoding/gob\<close>, "duplicate type
  received"), so the decoder of \<^verbatim>\<open>Replay\<close> stops at the second encoder that wrote anything.
  The time of an entry is an argument. The header functions at the end of the file are not called by
  the rest of the code.
\<close>

definition WALOpAdd :: uint8 where "WALOpAdd = 1"
definition WALOpDelete :: uint8 where "WALOpDelete = 2"
definition WALOpUpdate :: uint8 where "WALOpUpdate = 3"

lemmas wal_ops = WALOpAdd_def WALOpDelete_def WALOpUpdate_def

record WALEntry =
  w_Timestamp :: int
  w_OpType :: uint8
  w_Collection :: string
  w_Key :: string
  w_VectorID :: uint64
  w_Vector :: "float32 list"
  w_Keywords :: "string list"
  w_Data :: bytes

type_synonym wal_file = "WALEntry list list"

record WAL =
  wal_streams :: wal_file
  wal_seqNum :: uint64

definition NewWAL :: "wal_file \<Rightarrow> WAL" where
  "NewWAL file = \<lparr>wal_streams = file @ [[]], wal_seqNum = 0\<rparr>"

text \<open>\<^verbatim>\<open>encoder.Encode\<close> extends the output of the current encoder.\<close>

definition encode_entry :: "WALEntry \<Rightarrow> wal_file \<Rightarrow> wal_file" where
  "encode_entry entry streams = butlast streams @ [last streams @ [entry]]"

definition wal_log :: "WALEntry \<Rightarrow> WAL \<Rightarrow> WAL" where
  "wal_log entry w = w\<lparr>wal_seqNum := wal_seqNum w + 1, wal_streams := encode_entry entry (wal_streams w)\<rparr>"

definition LogAdd ::
  "int \<Rightarrow> string \<Rightarrow> string \<Rightarrow> uint64 \<Rightarrow> float32 list \<Rightarrow> string list \<Rightarrow> bytes \<Rightarrow> WAL \<Rightarrow> WAL" where
  "LogAdd now collection key vectorID vector keywords data w =
     wal_log \<lparr>w_Timestamp = now, w_OpType = WALOpAdd, w_Collection = collection, w_Key = key,
              w_VectorID = vectorID, w_Vector = vector, w_Keywords = keywords, w_Data = data\<rparr> w"

definition LogDelete :: "int \<Rightarrow> string \<Rightarrow> string \<Rightarrow> uint64 \<Rightarrow> WAL \<Rightarrow> WAL" where
  "LogDelete now collection key vectorID w =
     wal_log \<lparr>w_Timestamp = now, w_OpType = WALOpDelete, w_Collection = collection, w_Key = key,
              w_VectorID = vectorID, w_Vector = [], w_Keywords = [], w_Data = []\<rparr> w"

definition LogBatch :: "WALEntry list \<Rightarrow> WAL \<Rightarrow> WAL" where
  "LogBatch entries w =
     fold (\<lambda>entry w. w\<lparr>wal_seqNum := wal_seqNum w + 1, wal_streams := encode_entry entry (wal_streams w)\<rparr>) entries w"

fun decode_streams :: "wal_file \<Rightarrow> WALEntry list" where
  "decode_streams [] = []"
| "decode_streams (s # ss) = (if s = [] then decode_streams ss else s)"

definition Replay :: "WAL \<Rightarrow> WALEntry list" where
  "Replay w = decode_streams (wal_streams w)"

definition wal_Checkpoint :: "WAL \<Rightarrow> WAL" where
  "wal_Checkpoint w = \<lparr>wal_streams = [[]], wal_seqNum = 0\<rparr>"

text \<open>Closing leaves the file as it is.\<close>

definition wal_Close :: "WAL \<Rightarrow> wal_file" where
  "wal_Close w = wal_streams w"

subsection \<open>The file header\<close>

definition walMagic :: uint32 where "walMagic = 0x57414C00"
definition walVersion :: uint16 where "walVersion = 1"

record walHeader =
  wh_Magic :: uint32
  wh_Version :: uint16

definition writeWALHeader :: "bytes \<Rightarrow> bytes" where
  "writeWALHeader file =
     (let header = \<lparr>wh_Magic = walMagic, wh_Version = walVersion\<rparr>
      in file @ BE_PutUint32 (wh_Magic header) @ BE_PutUint16 (wh_Version header))"

datatype wal_header_error = ShortHeader | BadMagic | UnsupportedVersion

definition readWALHeader :: "bytes \<Rightarrow> wal_header_error option" where
  "readWALHeader file =
     (if file = [] then None
      else if length file < 6 then Some ShortHeader
      else
        let header = \<lparr>wh_Magic = BE_Uint32 (slice file 0 4), wh_Version = BE_Uint16 (slice file 4 6)\<rparr>
        in if wh_Magic header \<noteq> walMagic then Some BadMagic
           else if wh_Version header > walVersion then Some UnsupportedVersion
           else None)"

lemma readWALHeader_writeWALHeader: "readWALHeader (writeWALHeader [] @ rest) = None"
proof -
  have m: "slice (writeWALHeader [] @ rest) 0 4 = BE_PutUint32 walMagic"
    by (simp add: writeWALHeader_def slice_def codec_simps)
  have v: "slice (writeWALHeader [] @ rest) 4 6 = BE_PutUint16 walVersion"
    by (simp add: writeWALHeader_def slice_def codec_simps)
  have l: "6 \<le> length (writeWALHeader [] @ rest)" by (simp add: writeWALHeader_def codec_simps)
  then have "writeWALHeader [] @ rest \<noteq> []" by auto
  with l show ?thesis by (simp add: readWALHeader_def m v codec_simps Let_def)
qed

subsection \<open>Replay\<close>

lemma encode_entry_snoc [simp]: "encode_entry e (ss @ [s]) = ss @ [s @ [e]]"
  by (simp add: encode_entry_def)

text \<open>The log as one session sees it: what earlier encoders wrote, and the entries of its own.\<close>

definition session :: "WAL \<Rightarrow> wal_file \<Rightarrow> WALEntry list \<Rightarrow> bool" where
  "session w old es \<longleftrightarrow> wal_streams w = old @ [es] \<and> wal_seqNum w = of_nat (length es)"

lemma session_New: "session (NewWAL file) file []"
  by (simp add: session_def NewWAL_def)

lemma session_log: "session w old es \<Longrightarrow> session (wal_log e w) old (es @ [e])"
  by (simp add: session_def wal_log_def)

lemma session_batch: "session w old es \<Longrightarrow> session (LogBatch xs w) old (es @ xs)"
proof (induction xs arbitrary: w es)
  case (Cons x xs)
  from Cons.IH [OF session_log [OF Cons.prems, of x]] show ?case
    by (simp add: LogBatch_def wal_log_def)
qed (simp add: LogBatch_def)

lemma session_Checkpoint: "session (wal_Checkpoint w) [] []"
  by (simp add: session_def wal_Checkpoint_def)

lemma decode_streams_append:
  "decode_streams (ss @ ts) = (if list_all (\<lambda>s. s = []) ss then decode_streams ts else decode_streams ss)"
  by (induction ss) auto



end
