(* ===== verification/Vector_Manager.thy ===== *)
theory Vector_Manager
  imports Entry_Codec Shard_Refinement Collection_Disk WAL
begin

section \<open>The vector manager\<close>

text \<open>
  \<^verbatim>\<open>internal/storage/vector_manager.go\<close>: the record store, the collections and the write-ahead
  log put together. Every operation of the file is a definition here; an operation that changes the
  state returns it with its result, also where it returns an error after a change. What a call depends
  on beyond its arguments is a record \<open>Env\<close>: the external packages, \<^verbatim>\<open>strings.ToLower\<close> beyond
  ASCII, the random draws, the time, and the orders in which maps are visited.
\<close>

record Env =
  env_libs :: Libs
  env_lower :: "string \<Rightarrow> string"
  env_rnd :: "nat \<Rightarrow> nat \<Rightarrow> bool"
  env_now :: int
  env_nodes :: "(uint64, hnswNode) gomap \<Rightarrow> (uint64, hnswNode) gomap"
  env_docs :: "(uint64, DocLocation) gomap \<Rightarrow> (uint64, DocLocation) gomap"
  env_batch :: "(string, bytes) gomap \<Rightarrow> (string, bytes) gomap"

record VectorManager =
  vm_Manager :: Manager
  vm_collections :: CollectionManager
  vm_wal :: WAL

definition makeStorageKey :: "string \<Rightarrow> string \<Rightarrow> string" where
  "makeStorageKey collection key = collection @ '':'' @ key"

definition VM_CreateCollection ::
  "string \<Rightarrow> uint32 \<Rightarrow> DistanceMetric \<Rightarrow> VectorManager \<Rightarrow> VectorManager \<times> go_error option" where
  "VM_CreateCollection name dims metric vm =
     (let (cm, err) = CreateCollection name dims metric (vm_collections vm)
      in (vm\<lparr>vm_collections := cm\<rparr>, err))"

definition VM_DeleteCollection :: "Env \<Rightarrow> string \<Rightarrow> VectorManager \<Rightarrow> VectorManager \<times> go_error option" where
  "VM_DeleteCollection E name vm =
     (let vm = (case GetCollection (vm_collections vm) name of
                  Inl err \<Rightarrow> vm
                | Inr coll \<Rightarrow>
                    fold (\<lambda>key vm. vm\<lparr>vm_Manager :=
                        fst (Mgr_DeleteKey (env_libs E) (makeStorageKey name key) (vm_Manager vm))\<rparr>)
                      (Coll_ListKeys coll) vm);
          (cm, err) = CM_DeleteCollection name (vm_collections vm)
      in (vm\<lparr>vm_collections := cm\<rparr>, err))"

definition VM_ListCollections :: "VectorManager \<Rightarrow> CollectionConfig list" where
  "VM_ListCollections vm = ListCollections (vm_collections vm)"

definition VM_GetCollection :: "VectorManager \<Rightarrow> string \<Rightarrow> go_error + Collection" where
  "VM_GetCollection vm name = GetCollection (vm_collections vm) name"

text \<open>Storing a collection after a change of it and of the disk.\<close>

definition put_coll :: "string \<Rightarrow> Collection \<Rightarrow> disk \<Rightarrow> VectorManager \<Rightarrow> VectorManager" where
  "put_coll name coll d vm = vm\<lparr>vm_collections := set_collection name coll d (vm_collections vm)\<rparr>"

subsection \<open>Appending\<close>

definition block_entry :: "string \<Rightarrow> uint64 \<Rightarrow> BlockData \<Rightarrow> Entry" where
  "block_entry key vectorID block =
     \<lparr>Flags = \<lparr>DataType = (if length (Vector block) > 0 then DataTypeVector else 0),
               Compressed = False, Tombstone = False\<rparr>,
      Key = bytes_of_string key, Keywords = BlockKeywords block,
      PrimaryData = bytes_of_string (Primary block), SecondaryData = VectorIDToBytes vectorID\<rparr>"

definition VM_AppendBlock ::
  "Env \<Rightarrow> string \<Rightarrow> string \<Rightarrow> BlockData \<Rightarrow> VectorManager \<Rightarrow> VectorManager \<times> uint32 \<times> go_error option" where
  "VM_AppendBlock E collection key block vm =
     (case GetCollection (vm_collections vm) collection of
        Inl err \<Rightarrow> (vm, 0, Some err)
      | Inr coll \<Rightarrow>
          let vm = vm\<lparr>vm_wal := LogAdd (env_now E) collection key 0 (Vector block) (BlockKeywords block)
                        (bytes_of_string (Primary block)) (vm_wal vm)\<rparr>;
              d = cm_disk (vm_collections vm);
              (coll, res) = Coll_AppendBlock (env_lower E) (env_rnd E 0) key block coll;
              vm = put_coll collection coll d vm
          in case res of
               Inl err \<Rightarrow> (vm, 0, Some err)
             | Inr index \<Rightarrow>
                 (case GetBlockVectorID coll key index of
                    Inl err \<Rightarrow> (vm, 0, Some (wrap_error ''failed to retrieve vector ID after append'' err))
                  | Inr vectorID \<Rightarrow>
                      (case EncodeEntry (env_lower E) (block_entry key vectorID block) of
                         Inl err \<Rightarrow> (vm, 0, Some (wrap_error ''failed to encode entry'' err))
                       | Inr encoded \<Rightarrow>
                           (case Mgr_Append (env_libs E) (makeStorageKey collection key) encoded (vm_Manager vm) of
                              (m, Some err) \<Rightarrow>
                                (vm\<lparr>vm_Manager := m\<rparr>, index, Some (wrap_error ''storage append failed'' err))
                            | (m, None) \<Rightarrow>
                                let vm = vm\<lparr>vm_Manager := m\<rparr>;
                                    (coll, d, err) = Coll_FlushHNSW coll d
                                in (put_coll collection coll d vm, index,
                                    map_option (wrap_error ''HNSW flush failed'') err)))))"

fun wal_entries :: "int \<Rightarrow> string \<Rightarrow> string list \<Rightarrow> BlockData list \<Rightarrow> go_error + WALEntry list" where
  "wal_entries now collection [] blocks = Inr []"
| "wal_entries now collection (key # keys) [] = Inl (GoPanic ''index out of range'')"
| "wal_entries now collection (key # keys) (block # blocks) =
     (case wal_entries now collection keys blocks of
        Inl err \<Rightarrow> Inl err
      | Inr es \<Rightarrow>
          Inr (\<lparr>w_Timestamp = now, w_OpType = WALOpAdd, w_Collection = collection, w_Key = key,
                w_VectorID = 0, w_Vector = Vector block, w_Keywords = BlockKeywords block,
                w_Data = bytes_of_string (Primary block)\<rparr> # es))"

text \<open>The third phase of a batch: the map of encoded entries and the flags of success.\<close>

fun vm_batch_entries ::
  "(string \<Rightarrow> string) \<Rightarrow> string \<Rightarrow> (string \<times> BlockData \<times> uint64 \<times> uint32) list \<Rightarrow>
   (string, bytes) gomap \<Rightarrow> (string, bytes) gomap \<times> bool list" where
  "vm_batch_entries ul collection [] m = (m, [])"
| "vm_batch_entries ul collection ((key, block, vectorID, index) # xs) m =
     (case EncodeEntry ul (block_entry key vectorID block) of
        Inl err \<Rightarrow> (let (m, oks) = vm_batch_entries ul collection xs m in (m, False # oks))
      | Inr encoded \<Rightarrow>
          (let (m, oks) = vm_batch_entries ul collection xs (mput (makeStorageKey collection key) encoded m)
           in (m, True # oks)))"

definition VM_BatchAppendBlocks ::
  "Env \<Rightarrow> string \<Rightarrow> string list \<Rightarrow> BlockData list \<Rightarrow> VectorManager \<Rightarrow>
   VectorManager \<times> bool list \<times> go_error option" where
  "VM_BatchAppendBlocks E collection keys blocks vm =
     (case GetCollection (vm_collections vm) collection of
        Inl err \<Rightarrow> (vm, [], Some err)
      | Inr coll \<Rightarrow>
          let successes = replicate (length keys) False
          in case wal_entries (env_now E) collection keys blocks of
               Inl err \<Rightarrow> (vm, successes, Some err)
             | Inr walEntries \<Rightarrow>
                 let vm = vm\<lparr>vm_wal := LogBatch walEntries (vm_wal vm)\<rparr>;
                     (coll, res) = Coll_BatchAppendBlocks (env_lower E) (env_rnd E) keys blocks coll;
                     vm = put_coll collection coll (cm_disk (vm_collections vm)) vm
                 in case res of
                      Inl err \<Rightarrow> (vm, successes, Some err)
                    | Inr results \<Rightarrow>
                        let (batchEntries, successes) = vm_batch_entries (env_lower E) collection
                              (zip keys (zip blocks results)) []
                        in if length batchEntries > 0 then
                             (case Mgr_BatchAppend (env_libs E) (env_batch E batchEntries) (vm_Manager vm) of
                                (m, Some err) \<Rightarrow>
                                  (vm\<lparr>vm_Manager := m\<rparr>, successes, Some (wrap_error ''batch storage write failed'' err))
                              | (m, None) \<Rightarrow> (vm\<lparr>vm_Manager := m\<rparr>, successes, None))
                           else (vm, successes, None))"

subsection \<open>Reading\<close>

definition entry_block :: "Collection \<Rightarrow> Entry \<Rightarrow> BlockData" where
  "entry_block coll entry =
     \<lparr>Primary = string_of_bytes (PrimaryData entry),
      Vector = (if length (SecondaryData entry) = 8
                then (case BytesToVectorID (SecondaryData entry) of
                        Inl err \<Rightarrow> (case GetVectorByID coll 0 of None \<Rightarrow> [] | Some vec \<Rightarrow> vec)
                      | Inr vectorID \<Rightarrow> (case GetVectorByID coll vectorID of None \<Rightarrow> [] | Some vec \<Rightarrow> vec))
                else []),
      BlockKeywords = Keywords entry\<rparr>"

definition VM_GetBlock :: "Env \<Rightarrow> string \<Rightarrow> string \<Rightarrow> uint32 \<Rightarrow> VectorManager \<Rightarrow> go_error + BlockData" where
  "VM_GetBlock E collection key index vm =
     (case GetCollection (vm_collections vm) collection of
        Inl err \<Rightarrow> Inl err
      | Inr coll \<Rightarrow>
          if \<not> Coll_ContainsKey coll key then Inl KeyNotFound
          else
            case Mgr_Get (env_libs E) (makeStorageKey collection key) (int (unat index)) (vm_Manager vm) of
              Inl err \<Rightarrow> Inl err
            | Inr payload \<Rightarrow>
                (case DecodeEntry payload of
                   Inl err \<Rightarrow> Inl (wrap_error ''failed to decode entry'' err)
                 | Inr entry \<Rightarrow> Inr (entry_block coll entry)))"

definition VM_GetVector :: "string \<Rightarrow> string \<Rightarrow> uint32 \<Rightarrow> VectorManager \<Rightarrow> go_error + float32 list" where
  "VM_GetVector collection key index vm =
     (case GetCollection (vm_collections vm) collection of
        Inl err \<Rightarrow> Inl err
      | Inr coll \<Rightarrow>
          (case GetBlockVectorID coll key index of
             Inl err \<Rightarrow> Inl err
           | Inr vectorID \<Rightarrow>
               (case GetVectorByID coll vectorID of None \<Rightarrow> Inl VectorMissing | Some vec \<Rightarrow> Inr vec)))"

definition VM_GetKeyLength :: "string \<Rightarrow> string \<Rightarrow> VectorManager \<Rightarrow> go_error + uint32" where
  "VM_GetKeyLength collection key vm =
     (case GetCollection (vm_collections vm) collection of
        Inl err \<Rightarrow> Inl err
      | Inr coll \<Rightarrow> Coll_GetKeyLength coll key)"

text \<open>The payloads are looked up under the bare key, as the code has it.\<close>

definition VM_GetKey :: "Env \<Rightarrow> string \<Rightarrow> string \<Rightarrow> VectorManager \<Rightarrow> go_error + BlockData list" where
  "VM_GetKey E collection key vm =
     (case GetCollection (vm_collections vm) collection of
        Inl err \<Rightarrow> Inl err
      | Inr coll \<Rightarrow>
          if \<not> Coll_ContainsKey coll key then Inl KeyNotFound
          else
            case Mgr_GetAllValues (env_libs E) key (vm_Manager vm) of
              Inl err \<Rightarrow> Inl err
            | Inr payloads \<Rightarrow>
                Inr (concat (map (\<lambda>p. case DecodeEntry p of Inl err \<Rightarrow> [] | Inr entry \<Rightarrow> [entry_block coll entry])
                       payloads)))"

definition VM_DeleteKey :: "Env \<Rightarrow> string \<Rightarrow> string \<Rightarrow> VectorManager \<Rightarrow> VectorManager \<times> go_error option" where
  "VM_DeleteKey E collection key vm =
     (case GetCollection (vm_collections vm) collection of
        Inl err \<Rightarrow> (vm, Some err)
      | Inr coll \<Rightarrow>
          let vm = vm\<lparr>vm_wal := LogDelete (env_now E) collection key 0 (vm_wal vm)\<rparr>;
              (coll, err) = Coll_DeleteKey (env_nodes E) key coll
          in (put_coll collection coll (cm_disk (vm_collections vm)) vm, err))"

definition VM_ListKeys :: "string \<Rightarrow> VectorManager \<Rightarrow> go_error + string list" where
  "VM_ListKeys collection vm =
     (case GetCollection (vm_collections vm) collection of
        Inl err \<Rightarrow> Inl err | Inr coll \<Rightarrow> Inr (Coll_ListKeys coll))"

definition VM_ContainsKey :: "string \<Rightarrow> string \<Rightarrow> VectorManager \<Rightarrow> go_error + bool" where
  "VM_ContainsKey collection key vm =
     (case GetCollection (vm_collections vm) collection of
        Inl err \<Rightarrow> Inl err | Inr coll \<Rightarrow> Inr (Coll_ContainsKey coll key))"

definition VM_UpdateBlock :: "string \<Rightarrow> string \<Rightarrow> uint32 \<Rightarrow> BlockData \<Rightarrow> go_error option" where
  "VM_UpdateBlock collection key index block = Some NotImplemented"

definition VM_ReplaceBlock :: "string \<Rightarrow> string \<Rightarrow> uint32 \<Rightarrow> BlockData \<Rightarrow> go_error option" where
  "VM_ReplaceBlock collection key index block = VM_UpdateBlock collection key index block"

definition VM_SnapshotCollection :: "string \<Rightarrow> go_error + string" where
  "VM_SnapshotCollection collection = Inl NotImplemented"

definition VM_CompactCollection :: "string \<Rightarrow> go_error option" where
  "VM_CompactCollection collection = Some NotImplemented"

subsection \<open>Searching\<close>

text \<open>The blocks of the items that can be read are added to a search result.\<close>

definition add_blocks ::
  "Env \<Rightarrow> string \<Rightarrow> VectorManager \<Rightarrow> SearchResultItem list \<Rightarrow> SearchResultItem list" where
  "add_blocks E collection vm results =
     map (\<lambda>it. case VM_GetBlock E collection (ItemKey it) (ItemIndex it) vm of
                 Inl err \<Rightarrow> it | Inr block \<Rightarrow> it\<lparr>ItemBlock := Some block\<rparr>) results"

definition VM_Search ::
  "Env \<Rightarrow> string \<Rightarrow> float32 list \<Rightarrow> uint32 \<Rightarrow> string \<Rightarrow> string list \<Rightarrow> VectorManager \<Rightarrow>
   go_error + SearchResultItem list" where
  "VM_Search E collection query topK mode keywords vm =
     (case GetCollection (vm_collections vm) collection of
        Inl err \<Rightarrow> Inl err
      | Inr coll \<Rightarrow>
          let flt = \<lparr>FilterKeys = [], FilterKeywords = keywords,
                     KeywordMode = (if mode \<noteq> '''' then mode else ''exact''), MaxDistance = 0\<rparr>
          in case Coll_Search (env_lower E) coll query topK (Some flt) of
               Inl err \<Rightarrow> Inl err
             | Inr results \<Rightarrow> Inr (add_blocks E collection vm results))"

definition VM_SearchMLT ::
  "Env \<Rightarrow> string \<Rightarrow> string \<Rightarrow> uint32 \<Rightarrow> uint32 \<Rightarrow> VectorManager \<Rightarrow> go_error + SearchResultItem list" where
  "VM_SearchMLT E collection key index topK vm =
     (case VM_GetVector collection key index vm of
        Inl err \<Rightarrow> Inl (wrap_error ''failed to get query vector'' err)
      | Inr vec \<Rightarrow> VM_Search E collection vec topK ''global'' [] vm)"

definition VM_SearchInKey ::
  "Env \<Rightarrow> string \<Rightarrow> string \<Rightarrow> float32 list \<Rightarrow> uint32 \<Rightarrow> VectorManager \<Rightarrow> go_error + SearchResultItem list" where
  "VM_SearchInKey E collection key query topK vm =
     (case GetCollection (vm_collections vm) collection of
        Inl err \<Rightarrow> Inl err
      | Inr coll \<Rightarrow>
          let flt = \<lparr>FilterKeys = [key], FilterKeywords = [], KeywordMode = '''', MaxDistance = 0\<rparr>
          in case Coll_Search (env_lower E) coll query topK (Some flt) of
               Inl err \<Rightarrow> Inl err
             | Inr results \<Rightarrow> Inr (add_blocks E collection vm results))"

definition VM_KeywordSearch ::
  "Env \<Rightarrow> string \<Rightarrow> string list \<Rightarrow> string \<Rightarrow> uint32 \<Rightarrow> VectorManager \<Rightarrow> go_error + string list" where
  "VM_KeywordSearch E collection keywords mode maxDistance vm =
     (case GetCollection (vm_collections vm) collection of
        Inl err \<Rightarrow> Inl err
      | Inr coll \<Rightarrow> Inr (Coll_KeywordSearch (env_lower E) coll keywords mode maxDistance))"

subsection \<open>Checkpoint, close, start and recovery\<close>

definition VM_Checkpoint :: "VectorManager \<Rightarrow> VectorManager" where
  "VM_Checkpoint vm =
     (let vm = fold (\<lambda>config vm.
                 case GetCollection (vm_collections vm) (Name config) of
                   Inl err \<Rightarrow> vm
                 | Inr coll \<Rightarrow>
                     let (coll, d, _) = Coll_Save coll (cm_disk (vm_collections vm))
                     in put_coll (Name config) coll d vm) (ListCollections (vm_collections vm)) vm
      in vm\<lparr>vm_wal := wal_Checkpoint (vm_wal vm)\<rparr>)"

text \<open>What is on disk: the shards, the directories of the collections, and the log.\<close>

record vm_disk =
  shard_files :: "(uint32, shard_disk) gomap"
  index_dirs :: disk
  wal_files :: wal_file

definition VM_Close :: "VectorManager \<Rightarrow> vm_disk" where
  "VM_Close vm =
     (let vm = VM_Checkpoint vm;
          log = wal_Close (vm_wal vm);
          (cm, _) = CM_Close (vm_collections vm);
          shards = Mgr_Close (vm_Manager vm)
      in \<lparr>shard_files = shards, index_dirs = cm_disk cm, wal_files = log\<rparr>)"

text \<open>One environment for every entry that is replayed.\<close>

fun recover_entries ::
  "(nat \<Rightarrow> Env) \<Rightarrow> WALEntry list \<Rightarrow> VectorManager \<Rightarrow> VectorManager \<times> go_error option" where
  "recover_entries Es [] vm = (vm, None)"
| "recover_entries Es (entry # entries) vm =
     (if w_OpType entry = WALOpAdd then
        let block = \<lparr>Primary = string_of_bytes (w_Data entry), Vector = w_Vector entry,
                     BlockKeywords = w_Keywords entry\<rparr>
        in case VM_AppendBlock (Es 0) (w_Collection entry) (w_Key entry) block vm of
             (vm, _, Some err) \<Rightarrow> (vm, Some err)
           | (vm, _, None) \<Rightarrow> recover_entries (\<lambda>i. Es (Suc i)) entries vm
      else if w_OpType entry = WALOpDelete then
        (case VM_DeleteKey (Es 0) (w_Collection entry) (w_Key entry) vm of
           (vm, Some err) \<Rightarrow> (vm, Some err)
         | (vm, None) \<Rightarrow> recover_entries (\<lambda>i. Es (Suc i)) entries vm)
      else recover_entries (\<lambda>i. Es (Suc i)) entries vm)"

definition recoverFromWAL :: "(nat \<Rightarrow> Env) \<Rightarrow> VectorManager \<Rightarrow> VectorManager \<times> go_error option" where
  "recoverFromWAL Es vm = recover_entries Es (Replay (vm_wal vm)) vm"

text \<open>
  A failed recovery is printed and the manager starts all the same; a collection that does not load
  ends the start, and the record store is closed again.
\<close>

definition NewVectorManager ::
  "(nat \<Rightarrow> Env) \<Rightarrow> path \<Rightarrow> vm_disk \<Rightarrow> (vm_disk \<times> go_error) + (VectorManager \<times> go_error option)" where
  "NewVectorManager Es dataPath disk =
     (let baseMgr = NewManager (shard_files disk)
      in case NewCollectionManager (env_docs (Es 0)) dataPath (index_dirs disk) of
           Inl err \<Rightarrow>
             Inl (disk\<lparr>shard_files := Mgr_Close baseMgr,
                       index_dirs := MkdirAll (filepath_Join dataPath ''indexes'') (index_dirs disk)\<rparr>, err)
         | Inr collMgr \<Rightarrow>
             Inr (recoverFromWAL (\<lambda>i. Es (Suc i))
               \<lparr>vm_Manager = baseMgr, vm_collections = collMgr, vm_wal = NewWAL (wal_files disk)\<rparr>))"

end
