(* ===== verification/Vector_Manager_Rep.thy ===== *)
theory Vector_Manager_Rep
  imports Vector_Manager
begin

section \<open>Correctness of the vector manager\<close>

text \<open>
  The specification of the database maps the name of a collection to its configuration and to a map
  from keys to lists of blocks. \<open>vm_rep\<close> joins the representation of the collections and of the record
  store: the blocks of a key are the ids and vectors the collection keeps and, position by position,
  the encoded entries the store holds under \<^verbatim>\<open>collection:key\<close>. Names of collections
  contain no colon, so that these storage keys are unambiguous.
\<close>

type_synonym db = "string \<rightharpoonup> CollectionConfig \<times> (string \<rightharpoonup> BlockData list)"

definition encoded_blocks :: "(string \<Rightarrow> string) \<Rightarrow> string \<Rightarrow> uint64 list \<Rightarrow> BlockData list \<Rightarrow> bytes list \<Rightarrow> bool" where
  "encoded_blocks ul k ids bs ps \<longleftrightarrow> length ids = length bs \<and> length ps = length bs \<and>
     (\<forall>i < length bs. length (Primary (bs ! i)) < 2 ^ 32 \<and> EncodeEntry ul (block_entry k (ids ! i) (bs ! i)) = Inr (ps ! i))"

definition key_state ::
  "(string \<Rightarrow> string) \<Rightarrow> string \<Rightarrow> (uint64 \<times> float32 list) list option \<Rightarrow> bytes list option \<Rightarrow> BlockData list option \<Rightarrow> bool" where
  "key_state ul k a m b \<longleftrightarrow> (case b of
      None \<Rightarrow> a = None \<and> m = None
    | Some bs \<Rightarrow> \<exists>ids ps. a = Some (zip ids (map Vector bs)) \<and> m = Some ps \<and> encoded_blocks ul k ids bs ps)"

definition db_rep :: "(string \<Rightarrow> string) \<Rightarrow> (string \<rightharpoonup> coll_state) \<Rightarrow> contents \<Rightarrow> db \<Rightarrow> bool" where
  "db_rep ul S M D \<longleftrightarrow> 
     (\<forall>x. M x \<noteq> None \<longrightarrow> (\<exists>n k cfg K. D n = Some (cfg, K) \<and> K k \<noteq> None \<and> x = makeStorageKey n k)) \<and>
     (\<forall>n. case D n of
      None \<Rightarrow> S n = None
    | Some (cfg, K) \<Rightarrow> CHR '':'' \<notin> set n \<and>
        (\<exists>A R. S n = Some (cfg, A, R) \<and> (\<forall>k. key_state ul k (A k) (M (makeStorageKey n k)) (K k))))"

definition vm_rep :: "Libs \<Rightarrow> (string \<Rightarrow> string) \<Rightarrow> VectorManager \<Rightarrow> db \<Rightarrow> bool" where
  "vm_rep lib ul vm D \<longleftrightarrow>
     (\<exists>S M. cm_rep ul (vm_collections vm) S \<and> store_view lib (vm_Manager vm) M \<and> db_rep ul S M D)"

lemma storage_key_eq:
  assumes "CHR '':'' \<notin> set n" and "CHR '':'' \<notin> set n'"
  shows "makeStorageKey n k = makeStorageKey n' k' \<longleftrightarrow> n = n' \<and> k = k'"
proof -
  have "takeWhile (\<lambda>c. c \<noteq> CHR '':'') (makeStorageKey n k) = n" if "CHR '':'' \<notin> set n" for n k
    using that by (induction n) (auto simp: makeStorageKey_def)
  with assms show ?thesis by (metis makeStorageKey_def same_append_eq)
qed

text \<open>A block as it is read back: the keywords are normalised.\<close>

definition norm_block :: "(string \<Rightarrow> string) \<Rightarrow> BlockData \<Rightarrow> BlockData" where
  "norm_block ul b = b\<lparr>BlockKeywords := map (NormalizeKeyword ul) (BlockKeywords b)\<rparr>"

definition spec_GetBlock :: "(string \<Rightarrow> string) \<Rightarrow> db \<Rightarrow> string \<Rightarrow> string \<Rightarrow> nat \<Rightarrow> go_error + BlockData" where
  "spec_GetBlock ul D n k i = (case D n of
      None \<Rightarrow> Inl CollectionNotFound
    | Some (cfg, K) \<Rightarrow> (case K k of
        None \<Rightarrow> Inl KeyNotFound
      | Some bs \<Rightarrow> if i < length bs then Inr (norm_block ul (bs ! i)) else Inl IndexOutOfBounds))"

subsection \<open>Reading blocks\<close>

lemma db_collection:
  assumes "cm_rep ul cm S" and "db_rep ul S M D" and "D n = Some (cfg, K)"
  obtains c A R where "GetCollection cm n = Inr c" and "coll_rep c A" and "ii_rep ul (KeywordIndex c) R"
    and "Config c = cfg" and "S n = Some (cfg, A, R)" and "coll_basePath c = cm_basePath cm @ [n]"
    and "\<And>k. key_state ul k (A k) (M (makeStorageKey n k)) (K k)" and "CHR '':'' \<notin> set n"
    and "coll_state_rep ul (cm_basePath cm) n c (cfg, A, R)"
proof -
  from assms(2) have "case D n of None \<Rightarrow> S n = None
    | Some (cfg, K) \<Rightarrow> CHR '':'' \<notin> set n \<and>
        (\<exists>A R. S n = Some (cfg, A, R) \<and> (\<forall>k. key_state ul k (A k) (M (makeStorageKey n k)) (K k)))"
    by (simp add: db_rep_def)
  with assms(3) obtain A R where n: "CHR '':'' \<notin> set n" and s: "S n = Some (cfg, A, R)"
    and k: "\<forall>k. key_state ul k (A k) (M (makeStorageKey n k)) (K k)" by auto
  obtain c where c: "mget (collections cm) n = Some c" "coll_state_rep ul (cm_basePath cm) n c (cfg, A, R)"
    using cm_rep_Some [OF assms(1) s] .
  show thesis
    by (rule that [of c A R]) (use c s n k in \<open>auto simp: GetCollection_def coll_state_rep_def\<close>)
qed

lemma db_no_collection:
  assumes "cm_rep ul cm S" and "db_rep ul S M D" and "D n = None"
  shows "GetCollection cm n = Inl CollectionNotFound"
proof -
  have "S n = None" using assms(2,3) by (auto simp: db_rep_def dest: spec [of _ n])
  with cm_rep_None [OF assms(1), of n] show ?thesis by (simp add: GetCollection_def)
qed

lemma decode_block:
  assumes "EncodeEntry ul (block_entry k v b) = Inr p" and "length (Primary b) < 2 ^ 32"
    and "GetVectorByID c v = (if Vector b = [] then None else Some (Vector b))"
  shows "\<exists>e. DecodeEntry p = Inr e \<and> entry_block c e = norm_block ul b"
proof -
  let ?e = "stored_entry ul (block_entry k v b)"
  have "DecodeEntry p = Inr ?e"
    using assms(1,2) by (intro entry_roundtrip) (simp_all add: block_entry_def VectorIDToBytes_def be64.enc_length)
  moreover have "BytesToVectorID (VectorIDToBytes v) = Inr v"
    by (simp add: BytesToVectorID_def VectorIDToBytes_def be64.enc_length be64.dec_enc)
  moreover have "length (VectorIDToBytes v) = 8" by (simp add: VectorIDToBytes_def be64.enc_length)
  ultimately show ?thesis
    using assms(3) by (simp add: entry_block_def stored_entry_def block_entry_def norm_block_def)
qed

lemma VM_GetBlock_key:
  assumes c: "GetCollection (vm_collections vm) n = Inr c" "coll_rep c A" and st: "store_view (env_libs E) (vm_Manager vm) M"
    and key: "key_state ul k (A k) (M (makeStorageKey n k)) blocks"
  shows "VM_GetBlock E n k i vm = (case blocks of None \<Rightarrow> Inl KeyNotFound
    | Some bs \<Rightarrow> if unat i < length bs then Inr (norm_block ul (bs ! unat i)) else Inl IndexOutOfBounds)"
proof -
  have get: "Mgr_Get (env_libs E) (makeStorageKey n k) (int (unat i)) (vm_Manager vm) =
      (case M (makeStorageKey n k) of None \<Rightarrow> Inl IndexOutOfBounds
       | Some ps \<Rightarrow> if unat i < length ps then Inr (ps ! unat i) else Inl IndexOutOfBounds)"
    unfolding shards.get_view [OF st] of_nat_less_iff nat_int by (simp only: of_nat_0_le_iff simp_thms)
  have has: "Coll_ContainsKey c k \<longleftrightarrow> A k \<noteq> None" using ContainsKey_rep [of c A k] c(2) by (simp add: coll_rep_def)
  show ?thesis
  proof (cases blocks)
    case None
    with key have "A k = None" by (simp add: key_state_def)
    with None c(1) has show ?thesis by (simp add: VM_GetBlock_def)
  next
    case (Some bs)
    with key obtain ids ps where a: "A k = Some (zip ids (map Vector bs))"
      and m: "M (makeStorageKey n k) = Some ps" and e: "encoded_blocks ul k ids bs ps"
      by (auto simp: key_state_def)
    have len: "length ids = length bs" "length ps = length bs" using e by (simp_all add: encoded_blocks_def)
    show ?thesis
    proof (cases "unat i < length bs")
      case True
      then have "(ids ! unat i, Vector (bs ! unat i)) \<in> set (blocks_of A k)"
        using a len by (auto simp: in_set_zip)
      from GetVectorByID_rep [OF c(2) this] True e obtain en where
        "DecodeEntry (ps ! unat i) = Inr en" "entry_block c en = norm_block ul (bs ! unat i)"
        using decode_block [of ul k "ids ! unat i" "bs ! unat i" "ps ! unat i" c] by (auto simp: encoded_blocks_def)
      with True Some c(1) has a get m len show ?thesis by (simp add: VM_GetBlock_def)
    next
      case False
      with Some c(1) has a get m len show ?thesis by (simp add: VM_GetBlock_def)
    qed
  qed
qed

lemma VM_GetBlock_rep:
  assumes "vm_rep (env_libs E) ul vm D"
  shows "VM_GetBlock E n k i vm = spec_GetBlock ul D n k (unat i)"
proof -
  obtain S M where cm: "cm_rep ul (vm_collections vm) S" and st: "store_view (env_libs E) (vm_Manager vm) M"
    and db: "db_rep ul S M D" using assms by (auto simp: vm_rep_def)
  show ?thesis
  proof (cases "D n")
    case None
    then show ?thesis
      using db_no_collection [OF cm db] by (simp add: VM_GetBlock_def spec_GetBlock_def)
  next
    case (Some ck)
    obtain cfg K where ck: "ck = (cfg, K)" by (cases ck)
    obtain c A R where "GetCollection (vm_collections vm) n = Inr c" "coll_rep c A"
      "key_state ul k (A k) (M (makeStorageKey n k)) (K k)"
      using db_collection [OF cm db Some [unfolded ck]] by metis
    from VM_GetBlock_key [OF this(1,2) st this(3)] Some ck show ?thesis by (simp add: spec_GetBlock_def)
  qed
qed

subsection \<open>Appending blocks\<close>

text \<open>What a block has to satisfy to be appended to a key of a collection.\<close>

definition block_acceptable ::
  "Libs \<Rightarrow> (string \<Rightarrow> string) \<Rightarrow> string \<Rightarrow> CollectionConfig \<Rightarrow> string \<Rightarrow> BlockData \<Rightarrow> bool" where
  "block_acceptable lib ul n cfg k b \<longleftrightarrow>
     (Vector b = [] \<or> of_nat (length (Vector b)) = Dimensions cfg) \<and> length (Primary b) < 2 ^ 32 \<and>
     valid_keywords ul (BlockKeywords b) \<and> (\<exists>kw. EncodeKeywords ul (BlockKeywords b) = Inr kw) \<and>
     length (makeStorageKey n k) \<le> maxKeyLen \<and>
     (\<forall>v p. EncodeEntry ul (block_entry k v b) = Inr p \<longrightarrow> length (CompressBytes lib p) < MaxInt32)"

text \<open>Room for more blocks: no id and no position of any collection wraps around.\<close>

definition vm_room :: "nat \<Rightarrow> VectorManager \<Rightarrow> db \<Rightarrow> bool" where
  "vm_room m vm D \<longleftrightarrow>
     (\<forall>n c. mget (collections (vm_collections vm)) n = Some c \<longrightarrow>
        FI_Get (DocMap c) (- 1) = None \<and> unat (GetNextVectorID (DocMap c)) + m \<le> 2 ^ 64 - 1) \<and>
     (\<forall>n cfg K k bs. D n = Some (cfg, K) \<and> K k = Some bs \<longrightarrow> length bs + m \<le> 2 ^ 32 - 1) \<and> m \<le> 2 ^ 32 - 1"

definition db_append :: "string \<Rightarrow> string \<Rightarrow> BlockData \<Rightarrow> db \<Rightarrow> db" where
  "db_append n k b D = (case D n of
      None \<Rightarrow> D
    | Some (cfg, K) \<Rightarrow> D(n \<mapsto> (cfg, K(k \<mapsto> (case K k of None \<Rightarrow> [] | Some bs \<Rightarrow> bs) @ [b]))))"

lemma key_state_blocks:
  "key_state ul k a m b \<Longrightarrow>
   length (case a of None \<Rightarrow> [] | Some bs \<Rightarrow> bs) = length (case b of None \<Rightarrow> [] | Some bs \<Rightarrow> bs)"
  by (auto simp: key_state_def encoded_blocks_def split: option.splits)

lemma vm_room_collection:
  assumes "vm_room m vm D" and "D n = Some (cfg, K)" and "GetCollection (vm_collections vm) n = Inr c"
    and "\<And>k. key_state ul k (A k) (M (makeStorageKey n k)) (K k)"
  shows "room_for m c A"
proof -
  have "length (blocks_of A k) + m \<le> 2 ^ 32 - 1" for k
    using assms(1,2) key_state_blocks [OF assms(4), of k]
    by (cases "K k") (auto simp: vm_room_def blocks_of_def)
  then show ?thesis
    using assms(1,3) by (auto simp: room_for_def vm_room_def GetCollection_def split: option.splits)
qed

lemma room_for_coll_room: "room_for (Suc m) c A \<Longrightarrow> coll_room c A"
proof -
  assume r: "room_for (Suc m) c A"
  then have "length (blocks_of A k) + Suc m \<le> 2 ^ 32 - 1" for k by (simp add: room_for_def)
  moreover have "length (blocks_of A k) < length (blocks_of A k) + Suc m" for k by simp
  ultimately have "length (blocks_of A k) < 2 ^ 32 - 1" for k by (rule less_le_trans [rotated])
  with r show ?thesis by (simp add: coll_room_def room_for_def)
qed

lemma encode_acceptable:
  assumes "block_acceptable lib ul n cfg k b"
  obtains p where "EncodeEntry ul (block_entry k v b) = Inr p" and "append_accepts lib (makeStorageKey n k) p"
proof -
  obtain kw where "EncodeKeywords ul (BlockKeywords b) = Inr kw" using assms by (auto simp: block_acceptable_def)
  moreover have "length k \<le> 65535"
    using assms by (simp add: block_acceptable_def makeStorageKey_def maxKeyLen_def)
  ultimately obtain p where p: "EncodeEntry ul (block_entry k v b) = Inr p"
    by (auto simp: EncodeEntry_Inr block_entry_def)
  with that assms show thesis
    by (auto simp: append_accepts_def block_acceptable_def makeStorageKey_def)
qed

lemma Coll_FlushHNSW_ok:
  assumes "mget d (coll_basePath c) = Some dir"
  shows "\<exists>d'. Coll_FlushHNSW c d = (c\<lparr>HNSWIndex := fst (hw_Save (HNSWIndex c))\<rparr>, d', None) \<and>
    d' = mput (coll_basePath c) (dir\<lparr>vectors_hnsw := Some (snd (hw_Save (HNSWIndex c)))\<rparr>) d \<and>
    (\<forall>p. meta_at d' p = meta_at d p) \<and> (wf_map d \<longrightarrow> wf_map d')"
  using assms by (simp add: Coll_FlushHNSW_def write_file_def meta_at_def LoadCollectionMeta_def case_prod_beta)

lemma key_state_append:
  assumes "key_state ul k a m b" and "EncodeEntry ul (block_entry k v x) = Inr p" and "length (Primary x) < 2 ^ 32"
  shows "key_state ul k (Some ((case a of None \<Rightarrow> [] | Some bs \<Rightarrow> bs) @ [(v, Vector x)]))
    (Some ((case m of None \<Rightarrow> [] | Some ps \<Rightarrow> ps) @ [p])) (Some ((case b of None \<Rightarrow> [] | Some bs \<Rightarrow> bs) @ [x]))"
proof -
  obtain ids bs ps where a: "(case a of None \<Rightarrow> [] | Some bs \<Rightarrow> bs) = zip ids (map Vector bs)"
    and m: "(case m of None \<Rightarrow> [] | Some ps \<Rightarrow> ps) = ps" and b: "(case b of None \<Rightarrow> [] | Some bs \<Rightarrow> bs) = bs"
    and e: "encoded_blocks ul k ids bs ps"
    using assms(1) by (cases b) (auto simp: key_state_def encoded_blocks_def)
  have "encoded_blocks ul k (ids @ [v]) (bs @ [x]) (ps @ [p])"
    using e assms(2,3) by (auto simp: encoded_blocks_def nth_append less_Suc_eq)
  moreover have "length ids = length bs" using e by (simp add: encoded_blocks_def)
  ultimately show ?thesis
    unfolding a m b key_state_def by (auto intro!: exI [of _ "ids @ [v]"])
qed

lemma AppendBlock_room:
  assumes rep: "coll_rep c A" and cr: "coll_room c A" and fit: "block_fits c b"
  shows "room_for (Suc m) c A \<Longrightarrow> room_for m (fst (Coll_AppendBlock ul r k b c)) (add_block k (GetNextVectorID (DocMap c), Vector b) A)"
    and "Config (fst (Coll_AppendBlock ul r k b c)) = Config c"
    and "coll_basePath (fst (Coll_AppendBlock ul r k b c)) = coll_basePath c"
proof -
  let ?v = "GetNextVectorID (DocMap c)"
  have cr: "FI_Get (DocMap c) (- 1) = None" "length (blocks_of A k) < 2 ^ 32 - 1"
    using cr by (simp_all add: coll_room_def)
  from AppendBlock_accepts [OF rep cr fit, of ul r] obtain hnsw where
    e: "fst (Coll_AppendBlock ul r k b c) =
      register_block ul k b ?v (of_nat (length (blocks_of A k))) (c\<lparr>HNSWIndex := hnsw\<rparr>)" by auto
  show "room_for m (fst (Coll_AppendBlock ul r k b c)) (add_block k (?v, Vector b) A)" if room: "room_for (Suc m) c A"
  proof -
    have "room_for (Suc m) (c\<lparr>HNSWIndex := hnsw\<rparr>) A" using room by (simp add: room_for_def)
    moreover have "docs_rep (DocMap (c\<lparr>HNSWIndex := hnsw\<rparr>)) A" using rep by (simp add: coll_rep_def)
    ultimately show ?thesis unfolding e by (rule room_for_step(1)) simp
  qed
  show "Config (fst (Coll_AppendBlock ul r k b c)) = Config c"
    and "coll_basePath (fst (Coll_AppendBlock ul r k b c)) = coll_basePath c"
    unfolding e by (simp_all add: register_block_def)
qed

lemma coll_state_saved:
  assumes "coll_state_rep ul base n c s"
  shows "coll_state_rep ul base n (c\<lparr>HNSWIndex := fst (hw_Save (HNSWIndex c))\<rparr>) s"
proof -
  have "memory_rep (c\<lparr>HNSWIndex := h\<rparr>) A = memory_rep c A" for h A by (simp add: memory_rep_def)
  with assms show ?thesis
    by (auto simp: coll_state_rep_def coll_rep_def vecs_rep_def hw_Save_ok)
qed

lemma hw_Save_again: "snd (hw_Save (fst (hw_Save hw))) = snd (hw_Save hw)"
  by (simp add: hw_Save_def Let_def enc_header_def)

lemma put_coll_fields [simp]:
  "vm_Manager (put_coll n c d vm) = vm_Manager vm" "vm_wal (put_coll n c d vm) = vm_wal vm"
  "vm_collections (put_coll n c d vm) = set_collection n c d (vm_collections vm)"
  by (simp_all add: put_coll_def)

lemma room_for_index [simp]: "room_for m (c\<lparr>HNSWIndex := h\<rparr>) A \<longleftrightarrow> room_for m c A"
  by (simp add: room_for_def)

lemma set_collection_twice [simp]:
  "set_collection n c d (set_collection n c' d' cm) = set_collection n c d cm"
  by (simp add: set_collection_def mput_twice)

text \<open>The directory of a collection exists, and flushing the vector index changes no metadata.\<close>

lemma cm_rep_directory:
  assumes "cm_rep ul cm S" and "S n = Some s"
  shows "\<exists>dir. mget (cm_disk cm) (cm_basePath cm @ [n]) = Some dir"
proof -
  have "meta_at (cm_disk cm) (cm_basePath cm @ [n]) = Some (meta_of (fst s))"
    using assms by (simp add: cm_rep_def)
  then show ?thesis by (auto simp: meta_at_def LoadCollectionMeta_def split: option.splits)
qed

definition logged_add :: "Env \<Rightarrow> string \<Rightarrow> string \<Rightarrow> BlockData \<Rightarrow> WALEntry" where
  "logged_add E n k b = \<lparr>w_Timestamp = env_now E, w_OpType = WALOpAdd, w_Collection = n, w_Key = k, w_VectorID = 0,
     w_Vector = Vector b, w_Keywords = BlockKeywords b, w_Data = bytes_of_string (Primary b)\<rparr>"

text \<open>The first phase of an append: the collection has the block and knows its id.\<close>

lemma append_phase:
  assumes cs: "coll_state_rep ul base n c (cfg, A, R)" and cr: "coll_room c A"
    and fit: "block_fits c b" and kws: "valid_keywords ul (BlockKeywords b)"
    and v: "v = GetNextVectorID (DocMap c)"
  obtains c1 R' where "Coll_AppendBlock ul r k b c = (c1, Inr (of_nat (length (blocks_of A k))))"
    and "GetBlockVectorID c1 k (of_nat (length (blocks_of A k))) = Inr v"
    and "coll_state_rep ul base n c1 (cfg, add_block k (v, Vector b) A, R')"
    and "\<forall>m. room_for (Suc m) c A \<longrightarrow> room_for m c1 (add_block k (v, Vector b) A)"
proof -
  let ?a = "Coll_AppendBlock ul r k b c"
  have rep: "coll_rep c A" and ii: "ii_rep ul (KeywordIndex c) R" using cs by (simp_all add: coll_state_rep_def)
  note app = coll.append_accepts [OF rep cr fit, of ul r k, folded v]
    and vid = coll.block_id_after_append [OF rep cr fit, of ul r k, folded v]
    and post = AppendBlock_postings [OF rep cr fit ii kws, of r k, folded v]
    and fr = AppendBlock_room [OF rep cr fit, where ul = ul and r = r and k = k, folded v]
  obtain c1 where a: "?a = (c1, Inr (of_nat (length (blocks_of A k))))" using app by (cases ?a) auto
  with app post fr cs have
    "coll_state_rep ul base n c1 (cfg, add_block k (v, Vector b) A, R \<union> (\<lambda>kw. (v, ToLower ul kw)) ` set (BlockKeywords b))"
    by (simp add: coll_state_rep_def)
  with that a vid fr show thesis by simp
qed

lemma VM_AppendBlock_step:
  assumes cm: "cm_rep (env_lower E) (vm_collections vm) S" and st: "store_view (env_libs E) (vm_Manager vm) M"
    and s: "S n = Some (cfg, A, R)" and c: "mget (collections (vm_collections vm)) n = Some c"
    and cr: "coll_room c A" and acc: "block_acceptable (env_libs E) (env_lower E) n cfg k b"
    and v: "v = GetNextVectorID (DocMap c)"
    and dir: "mget (cm_disk (vm_collections vm)) (cm_basePath (vm_collections vm) @ [n]) = Some dir"
  obtains vm' c' p R' where "VM_AppendBlock E n k b vm = (vm', of_nat (length (blocks_of A k)), None)"
    and "EncodeEntry (env_lower E) (block_entry k v b) = Inr p"
    and "cm_rep (env_lower E) (vm_collections vm') (S(n \<mapsto> (cfg, add_block k (v, Vector b) A, R')))"
    and "store_view (env_libs E) (vm_Manager vm') (spec_append (makeStorageKey n k, p) M)"
    and "collections (vm_collections vm') = mput n c' (collections (vm_collections vm))"
    and "\<forall>m. room_for (Suc m) c A \<longrightarrow> room_for m c' (add_block k (v, Vector b) A)"
    and "vm_wal vm' = wal_log (logged_add E n k b) (vm_wal vm)"
    and "cm_disk (vm_collections vm') = mput (cm_basePath (vm_collections vm) @ [n])
       (dir\<lparr>vectors_hnsw := Some (snd (hw_Save (HNSWIndex c')))\<rparr>) (cm_disk (vm_collections vm))"
proof -
  let ?ul = "env_lower E" and ?cm = "vm_collections vm"
  let ?A = "add_block k (v, Vector b) A" and ?i = "of_nat (length (blocks_of A k)) :: uint32"
  have cs: "coll_state_rep ?ul (cm_basePath ?cm) n c (cfg, A, R)"
    using cm_rep_Some [OF cm s] c by (metis option.inject)
  have fit: "block_fits c b" and kws: "valid_keywords ?ul (BlockKeywords b)"
    using acc cs by (auto simp: block_fits_def block_acceptable_def coll_state_rep_def)
  obtain c1 R' where a: "Coll_AppendBlock ?ul (env_rnd E 0) k b c = (c1, Inr ?i)"
    and vid: "GetBlockVectorID c1 k ?i = Inr v" and cs1: "coll_state_rep ?ul (cm_basePath ?cm) n c1 (cfg, ?A, R')"
    and r1: "\<forall>m. room_for (Suc m) c A \<longrightarrow> room_for m c1 ?A" using append_phase [OF cs cr fit kws v] .
  obtain p where p: "EncodeEntry ?ul (block_entry k v b) = Inr p"
    and ap: "append_accepts (env_libs E) (makeStorageKey n k) p"
    using encode_acceptable [OF acc] .
  have base: "coll_basePath c1 = cm_basePath ?cm @ [n]" using cs1 by (simp add: coll_state_rep_def)
  from Coll_FlushHNSW_ok [of "cm_disk ?cm" c1 dir] dir base obtain d' where
    fl: "Coll_FlushHNSW c1 (cm_disk ?cm) = (c1\<lparr>HNSWIndex := fst (hw_Save (HNSWIndex c1))\<rparr>, d', None)"
    and d': "d' = mput (cm_basePath ?cm @ [n]) (dir\<lparr>vectors_hnsw := Some (snd (hw_Save (HNSWIndex c1)))\<rparr>) (cm_disk ?cm)"
    and meta: "\<And>p. meta_at d' p = meta_at (cm_disk ?cm) p" and wf: "wf_map (cm_disk ?cm) \<longrightarrow> wf_map d'" by auto
  let ?c = "c1\<lparr>HNSWIndex := fst (hw_Save (HNSWIndex c1))\<rparr>"
  note put = shards.put_accepted [OF st ap]
  obtain m1 where m1: "Mgr_Append (env_libs E) (makeStorageKey n k) p (vm_Manager vm) = (m1, None)"
    using put by (cases "Mgr_Append (env_libs E) (makeStorageKey n k) p (vm_Manager vm)") auto
  let ?vm = "\<lparr>vm_Manager = m1, vm_collections = set_collection n ?c d' ?cm,
     vm_wal = wal_log (logged_add E n k b) (vm_wal vm)\<rparr>"
  have 1: "VM_AppendBlock E n k b vm = (?vm, ?i, None)"
    using c vid p fl m1 a
    by (simp add: VM_AppendBlock_def GetCollection_def Let_def LogAdd_def logged_add_def put_coll_def)
  from set_collection_rep [OF cm s coll_state_saved [OF cs1] _ _ meta] cm wf
  have 2: "cm_rep ?ul (vm_collections ?vm) (S(n \<mapsto> (cfg, ?A, R')))" by (simp add: cm_rep_def)
  show thesis
  proof (rule that [OF 1 p 2])
    show "store_view (env_libs E) (vm_Manager ?vm) (spec_append (makeStorageKey n k, p) M)" using put m1 by simp
    show "collections (vm_collections ?vm) = mput n ?c (collections ?cm)" by (simp add: set_collection_def)
    show "\<forall>m. room_for (Suc m) c A \<longrightarrow> room_for m ?c ?A" using r1 by simp
    show "cm_disk (vm_collections ?vm) = mput (cm_basePath ?cm @ [n])
       (dir\<lparr>vectors_hnsw := Some (snd (hw_Save (HNSWIndex ?c)))\<rparr>) (cm_disk ?cm)"
      by (simp add: set_collection_def d' hw_Save_again)
  qed simp
qed

text \<open>When the record store refuses the entry, the block stays in the collection.\<close>

lemma VM_AppendBlock_unstored:
  assumes cm: "cm_rep (env_lower E) (vm_collections vm) S" and st: "store_view (env_libs E) (vm_Manager vm) M"
    and s: "S n = Some (cfg, A, R)" and c: "mget (collections (vm_collections vm)) n = Some c"
    and cr: "coll_room c A" and fit: "block_fits c b"
    and kws: "valid_keywords (env_lower E) (BlockKeywords b)" and v: "v = GetNextVectorID (DocMap c)"
    and p: "EncodeEntry (env_lower E) (block_entry k v b) = Inr p"
    and rej: "\<not> append_accepts (env_libs E) (makeStorageKey n k) p"
  obtains vm' R' err where "VM_AppendBlock E n k b vm = (vm', of_nat (length (blocks_of A k)), Some (wrap_error ''storage append failed'' err))"
    and "cm_rep (env_lower E) (vm_collections vm') (S(n \<mapsto> (cfg, add_block k (v, Vector b) A, R')))"
    and "vm_Manager vm' = vm_Manager vm"
proof -
  let ?ul = "env_lower E" and ?cm = "vm_collections vm"
  let ?A = "add_block k (v, Vector b) A" and ?i = "of_nat (length (blocks_of A k)) :: uint32"
  have cs: "coll_state_rep ?ul (cm_basePath ?cm) n c (cfg, A, R)"
    using cm_rep_Some [OF cm s] c by (metis option.inject)
  obtain c1 R' where a: "Coll_AppendBlock ?ul (env_rnd E 0) k b c = (c1, Inr ?i)"
    and vid: "GetBlockVectorID c1 k ?i = Inr v" and cs1: "coll_state_rep ?ul (cm_basePath ?cm) n c1 (cfg, ?A, R')"
    using append_phase [OF cs cr fit kws v] .
  obtain err where e: "Mgr_Append (env_libs E) (makeStorageKey n k) p (vm_Manager vm) = (vm_Manager vm, Some err)"
    using shards.put_rejected [OF st rej] by auto
  let ?vm = "\<lparr>vm_Manager = vm_Manager vm, vm_collections = set_collection n c1 (cm_disk ?cm) ?cm,
     vm_wal = wal_log (logged_add E n k b) (vm_wal vm)\<rparr>"
  have 1: "VM_AppendBlock E n k b vm = (?vm, ?i, Some (wrap_error ''storage append failed'' err))"
    using c vid p a e
    by (simp add: VM_AppendBlock_def GetCollection_def Let_def LogAdd_def logged_add_def put_coll_def)
  from set_collection_rep [OF cm s cs1] cm
  have 2: "cm_rep ?ul (vm_collections ?vm) (S(n \<mapsto> (cfg, ?A, R')))" by (simp add: cm_rep_def)
  show thesis by (rule that [OF 1 2]) simp
qed

text \<open>The part of the database relation that concerns one collection.\<close>

lemma db_repD:
  assumes "db_rep ul S M D" and "D n = Some (cfg, K)"
  shows "CHR '':'' \<notin> set n \<and>
    (\<exists>A R. S n = Some (cfg, A, R) \<and> (\<forall>k. key_state ul k (A k) (M (makeStorageKey n k)) (K k)))"
  using spec [OF conjunct2 [OF assms(1) [unfolded db_rep_def]], of n] assms(2) by simp

lemma db_rep_None: "db_rep ul S M D \<Longrightarrow> D n = None \<Longrightarrow> S n = None"
  by (auto simp: db_rep_def dest: spec [of _ n])

lemma db_repI:
  assumes "\<And>n. D n = None \<Longrightarrow> S n = None"
    and "\<And>n cfg K. D n = Some (cfg, K) \<Longrightarrow> CHR '':'' \<notin> set n \<and>
      (\<exists>A R. S n = Some (cfg, A, R) \<and> (\<forall>k. key_state ul k (A k) (M (makeStorageKey n k)) (K k)))"
    and "\<And>x. M x \<noteq> None \<Longrightarrow> \<exists>n k cfg K. D n = Some (cfg, K) \<and> K k \<noteq> None \<and> x = makeStorageKey n k"
  shows "db_rep ul S M D"
  unfolding db_rep_def using assms by (auto split: option.split)

lemma db_rep_append:
  assumes db: "db_rep ul S M D" and D: "D n = Some (cfg, K)" and s: "S n = Some (cfg, A, R)"
    and p: "EncodeEntry ul (block_entry k v b) = Inr p" "length (Primary b) < 2 ^ 32"
  shows "db_rep ul (S(n \<mapsto> (cfg, add_block k (v, Vector b) A, R'))) (spec_append (makeStorageKey n k, p) M)
    (db_append n k b D)"
proof (rule db_repI)
  fix n'
  assume "db_append n k b D n' = None"
  then show "(S(n \<mapsto> (cfg, add_block k (v, Vector b) A, R'))) n' = None"
    using db_rep_None [OF db] D by (auto simp: db_append_def split: if_splits)
next
  fix x
  assume x: "spec_append (makeStorageKey n k, p) M x \<noteq> None"
  show "\<exists>n' k' cfg' K'. db_append n k b D n' = Some (cfg', K') \<and> K' k' \<noteq> None \<and> x = makeStorageKey n' k'"
  proof (cases "x = makeStorageKey n k")
    case True
    with D show ?thesis by (auto simp: db_append_def)
  next
    case False
    with x have "M x \<noteq> None" by (simp add: spec_append_def)
    then obtain n' k' cfg' K' where "D n' = Some (cfg', K')" "K' k' \<noteq> None" "x = makeStorageKey n' k'"
      using db unfolding db_rep_def by blast
    with D show ?thesis by (intro exI [of _ n'] exI [of _ k']) (auto simp: db_append_def)
  qed
next
  fix n' cfg' K'
  assume D': "db_append n k b D n' = Some (cfg', K')"
  obtain A0 R0 where n: "CHR '':'' \<notin> set n" and "S n = Some (cfg, A0, R0)"
    and ks: "\<And>k. key_state ul k (A0 k) (M (makeStorageKey n k)) (K k)" using db_repD [OF db D] by blast
  then have A0: "A0 = A" using s by simp
  show "CHR '':'' \<notin> set n' \<and> (\<exists>A' R''. (S(n \<mapsto> (cfg, add_block k (v, Vector b) A, R'))) n' = Some (cfg', A', R'') \<and>
      (\<forall>k'. key_state ul k' (A' k') (spec_append (makeStorageKey n k, p) M (makeStorageKey n' k')) (K' k')))"
  proof (cases "n' = n")
    case True
    have "key_state ul k' (add_block k (v, Vector b) A k') (spec_append (makeStorageKey n k, p) M (makeStorageKey n k')) (K' k')" for k'
      using key_state_append [OF ks p] ks [of k'] True D' D storage_key_eq [OF n n, of k k'] A0
      by (auto simp: db_append_def add_block_def blocks_of_def spec_append_def)
    with True D D' n show ?thesis by (auto simp: db_append_def)
  next
    case False
    then have "D n' = Some (cfg', K')" using D D' by (simp add: db_append_def)
    then obtain A1 R1 where 1: "CHR '':'' \<notin> set n'" "S n' = Some (cfg', A1, R1)"
      "\<And>k. key_state ul k (A1 k) (M (makeStorageKey n' k)) (K' k)" using db_repD [OF db] by blast
    with False storage_key_eq [OF 1(1) n] show ?thesis by (auto simp: spec_append_def)
  qed
qed

definition key_blocks :: "db \<Rightarrow> string \<Rightarrow> string \<Rightarrow> BlockData list" where
  "key_blocks D n k = (case D n of None \<Rightarrow> [] | Some (cfg, K) \<Rightarrow> (case K k of None \<Rightarrow> [] | Some bs \<Rightarrow> bs))"

lemma vm_room_append:
  assumes room: "vm_room (Suc m) vm D" and D: "D n = Some (cfg, K)"
    and cs: "collections (vm_collections vm') = mput n c' (collections (vm_collections vm))"
    and r: "room_for m c' A'"
  shows "vm_room m vm' (db_append n k b D)"
proof -
  have old: "length bs + m < 2 ^ 32 - 1" if "D n' = Some (cfg', K')" "K' k' = Some bs" for n' cfg' K' k' bs
    using room that unfolding vm_room_def add_Suc_right less_eq_Suc_le by blast
  have m: "m < 2 ^ 32 - 1" using room unfolding vm_room_def less_eq_Suc_le by blast
  have ids: "FI_Get (DocMap c) (- 1) = None \<and> unat (GetNextVectorID (DocMap c)) + m \<le> 2 ^ 64 - 1"
    if "mget (collections (vm_collections vm)) n' = Some c" for n' c
    using room that unfolding vm_room_def add_Suc_right by (metis Suc_leD)
  have "length bs + m \<le> 2 ^ 32 - 1" if "db_append n k b D n' = Some (cfg', K')" "K' k' = Some bs" for n' cfg' K' k' bs
    using that old [of n' cfg' K' k' bs] old [OF D, of k] old [OF D, of k' bs] D m
    by (auto simp: db_append_def less_imp_le split: if_splits option.splits)
  with ids r m show ?thesis
    by (auto simp: vm_room_def cs room_for_def mget_mput)
qed

lemma VM_AppendBlock_ok:
  assumes rep: "vm_rep (env_libs E) (env_lower E) vm D" and D: "D n = Some (cfg, K)"
    and room: "vm_room (Suc m) vm D" and acc: "block_acceptable (env_libs E) (env_lower E) n cfg k b"
  shows "\<exists>vm'. VM_AppendBlock E n k b vm = (vm', of_nat (length (key_blocks D n k)), None) \<and>
    vm_rep (env_libs E) (env_lower E) vm' (db_append n k b D) \<and> vm_room m vm' (db_append n k b D) \<and>
    vm_wal vm' = wal_log (logged_add E n k b) (vm_wal vm)"
proof -
  obtain S M where cm: "cm_rep (env_lower E) (vm_collections vm) S" and st: "store_view (env_libs E) (vm_Manager vm) M"
    and db: "db_rep (env_lower E) S M D" using rep by (auto simp: vm_rep_def)
  obtain A R where s: "S n = Some (cfg, A, R)" and ks: "\<And>k. key_state (env_lower E) k (A k) (M (makeStorageKey n k)) (K k)"
    using db_repD [OF db D] by blast
  obtain c where c: "mget (collections (vm_collections vm)) n = Some c" using cm_rep_Some [OF cm s] .
  then have "GetCollection (vm_collections vm) n = Inr c" by (simp add: GetCollection_def)
  note r = vm_room_collection [OF room D this ks]
  obtain dir where dir: "mget (cm_disk (vm_collections vm)) (cm_basePath (vm_collections vm) @ [n]) = Some dir"
    using cm_rep_directory [OF cm s] by blast
  obtain vm' c' p R' where vm': "VM_AppendBlock E n k b vm = (vm', of_nat (length (blocks_of A k)), None)"
    and p: "EncodeEntry (env_lower E) (block_entry k (GetNextVectorID (DocMap c)) b) = Inr p"
    and cm': "cm_rep (env_lower E) (vm_collections vm') (S(n \<mapsto> (cfg, add_block k (GetNextVectorID (DocMap c), Vector b) A, R')))"
    and st': "store_view (env_libs E) (vm_Manager vm') (spec_append (makeStorageKey n k, p) M)"
    and cs: "collections (vm_collections vm') = mput n c' (collections (vm_collections vm))"
    and r': "\<forall>m. room_for (Suc m) c A \<longrightarrow> room_for m c' (add_block k (GetNextVectorID (DocMap c), Vector b) A)"
    and w: "vm_wal vm' = wal_log (logged_add E n k b) (vm_wal vm)"
    using VM_AppendBlock_step [OF cm st s c room_for_coll_room [OF r] acc refl dir] .
  have "length (Primary b) < 2 ^ 32" using acc by (simp add: block_acceptable_def)
  from db_rep_append [OF db D s p this] cm' st'
  have 1: "vm_rep (env_libs E) (env_lower E) vm' (db_append n k b D)" by (auto simp: vm_rep_def)
  have 2: "length (blocks_of A k) = length (key_blocks D n k)"
    using key_state_blocks [OF ks, of k] D by (simp add: blocks_of_def key_blocks_def)
  note 3 = vm_room_append [OF room D cs mp [OF spec [OF r'] r]]
  from vm' 1 2 3 w show ?thesis by auto
qed

lemma mput_same: "mget m k = Some v \<Longrightarrow> mput k v m = m"
  by (induction m) (auto split: if_splits)

lemma set_collection_same: "mget (collections cm) n = Some c \<Longrightarrow> set_collection n c (cm_disk cm) cm = cm"
  by (simp add: set_collection_def mput_same)

lemma VM_AppendBlock_rejects:
  assumes rep: "vm_rep lib ul vm D" and D: "D n = Some (cfg, K)"
    and dim: "Vector b \<noteq> []" "of_nat (length (Vector b)) \<noteq> Dimensions cfg"
  shows "VM_AppendBlock E n k b vm = (vm\<lparr>vm_wal := wal_log (logged_add E n k b) (vm_wal vm)\<rparr>, 0,
    Some (Wrapped ''failed to add vector'' DimensionMismatch))"
proof -
  obtain S M where cm: "cm_rep ul (vm_collections vm) S" and db: "db_rep ul S M D" using rep by (auto simp: vm_rep_def)
  obtain A R where s: "S n = Some (cfg, A, R)" using db_repD [OF db D] by blast
  obtain c where c: "mget (collections (vm_collections vm)) n = Some c" "coll_rep c A" "Config c = cfg"
    using cm_rep_Some [OF cm s] by (auto simp: coll_state_rep_def)
  then have "\<not> block_fits c b" using dim by (simp add: block_fits_def)
  from AppendBlock_rejects [OF c(2) this] c(1) show ?thesis
    by (simp add: VM_AppendBlock_def GetCollection_def Let_def LogAdd_def logged_add_def put_coll_def set_collection_same)
qed

subsection \<open>Recovery\<close>

definition logged_block :: "WALEntry \<Rightarrow> BlockData" where
  "logged_block e = \<lparr>Primary = string_of_bytes (w_Data e), Vector = w_Vector e, BlockKeywords = w_Keywords e\<rparr>"

lemma logged_add_fields [simp]:
  "logged_block (logged_add E n k b) = b" "w_Collection (logged_add E n k b) = n" "w_Key (logged_add E n k b) = k"
  "w_OpType (logged_add E n k b) = WALOpAdd"
  by (simp_all add: logged_block_def logged_add_def)

definition replayed :: "WALEntry \<Rightarrow> db \<Rightarrow> db" where
  "replayed e = db_append (w_Collection e) (w_Key e) (logged_block e)"

definition add_ok :: "Libs \<Rightarrow> (string \<Rightarrow> string) \<Rightarrow> db \<Rightarrow> WALEntry \<Rightarrow> bool" where
  "add_ok lib ul D e \<longleftrightarrow> w_OpType e = WALOpAdd \<and>
     (case D (w_Collection e) of None \<Rightarrow> False
      | Some (cfg, K) \<Rightarrow> block_acceptable lib ul (w_Collection e) cfg (w_Key e) (logged_block e))"

lemma add_ok_replayed: "add_ok lib ul (replayed e D) e' = add_ok lib ul D e'"
  by (auto simp: add_ok_def replayed_def db_append_def split: option.splits)

lemma recover_adds:
  assumes "vm_rep lib ul vm D" and "vm_room (length es + m) vm D" and "list_all (add_ok lib ul D) es"
    and "\<And>i. env_libs (Es i) = lib \<and> env_lower (Es i) = ul"
  shows "\<exists>vm'. recover_entries Es es vm = (vm', None) \<and> vm_rep lib ul vm' (fold replayed es D) \<and>
    vm_room m vm' (fold replayed es D)"
  using assms
proof (induction es arbitrary: Es vm D)
  case Nil
  then show ?case by simp
next
  case (Cons e es)
  have E: "env_libs (Es 0) = lib" "env_lower (Es 0) = ul" using Cons.prems(4) by simp_all
  obtain cfg K where D: "D (w_Collection e) = Some (cfg, K)"
    and acc: "block_acceptable lib ul (w_Collection e) cfg (w_Key e) (logged_block e)" and op: "w_OpType e = WALOpAdd"
    using Cons.prems(3) by (auto simp: add_ok_def split: option.splits)
  obtain vm1 i where 1: "VM_AppendBlock (Es 0) (w_Collection e) (w_Key e) (logged_block e) vm = (vm1, i, None)"
    "vm_rep lib ul vm1 (replayed e D)" "vm_room (length es + m) vm1 (replayed e D)"
    using VM_AppendBlock_ok [of "Es 0" vm D "w_Collection e" cfg K "length es + m" "w_Key e" "logged_block e"]
      Cons.prems(1,2) D acc by (auto simp: E replayed_def)
  have "list_all (add_ok lib ul (replayed e D)) es" using Cons.prems(3) by (simp add: add_ok_replayed list_all_iff)
  from Cons.IH [OF 1(2,3) this, of "\<lambda>i. Es (Suc i)"] Cons.prems(4) op 1(1) show ?case
    by (simp add: logged_block_def)
qed

subsection \<open>Deleting a key\<close>

lemma DeleteKey_frame:
  "Config (fst (Coll_DeleteKey ord k c)) = Config c \<and> coll_basePath (fst (Coll_DeleteKey ord k c)) = coll_basePath c \<and>
   KeywordIndex (fst (Coll_DeleteKey ord k c)) = KeywordIndex c"
proof -
  let ?f = "\<lambda>vid (c :: Collection). c\<lparr>HNSWIndex := fst (hw_Delete ord vid (HNSWIndex c)), DocMap := FI_Delete vid (DocMap c)\<rparr>"
  have "Config (fold ?f vs c) = Config c \<and> coll_basePath (fold ?f vs c) = coll_basePath c \<and>
      KeywordIndex (fold ?f vs c) = KeywordIndex c" for vs c
    by (induction vs arbitrary: c) simp_all
  then show ?thesis by (simp add: Coll_DeleteKey_def Let_def split: option.split)
qed

lemma DeleteKey_room:
  assumes "coll_rep c A" and "coll_room c A" and "is_order ord"
  shows "coll_room (fst (Coll_DeleteKey ord k c)) (A(k := None))"
proof -
  let ?f = "\<lambda>vid (c :: Collection). c\<lparr>HNSWIndex := fst (hw_Delete ord vid (HNSWIndex c)), DocMap := FI_Delete vid (DocMap c)\<rparr>"
  have "FI_Get (DocMap c) v = None \<Longrightarrow> FI_Get (DocMap (fold ?f vs c)) v = None" for vs c v
    by (induction vs arbitrary: c) simp_all
  with assms(2) have "FI_Get (DocMap (fst (Coll_DeleteKey ord k c))) (- 1) = None"
    by (simp add: Coll_DeleteKey_def Let_def coll_room_def split: option.split)
  then show ?thesis using assms(2) by (auto simp: coll_room_def blocks_of_def)
qed

lemma VM_DeleteKey_step:
  assumes cm: "cm_rep (env_lower E) (vm_collections vm) S" and s: "S n = Some (cfg, A, R)" and k: "A k \<noteq> None"
    and c: "mget (collections (vm_collections vm)) n = Some c" and ord: "is_order (env_nodes E)" and cr: "coll_room c A"
  obtains vm' c' where "VM_DeleteKey E n k vm = (vm', None)" and "vm_Manager vm' = vm_Manager vm"
    and "cm_rep (env_lower E) (vm_collections vm') (S(n \<mapsto> (cfg, A(k := None), R)))"
    and "mget (collections (vm_collections vm')) n = Some c'" and "coll_room c' (A(k := None))"
proof -
  let ?cm = "vm_collections vm" and ?c = "fst (Coll_DeleteKey (env_nodes E) k c)"
  have cs: "coll_state_rep (env_lower E) (cm_basePath ?cm) n c (cfg, A, R)"
    using cm_rep_Some [OF cm s] c by (metis option.inject)
  then have rep: "coll_rep c A" by (simp add: coll_state_rep_def)
  note del = coll.delete_ok [OF rep ord k]
  have cs': "coll_state_rep (env_lower E) (cm_basePath ?cm) n ?c (cfg, A(k := None), R)"
    using cs del DeleteKey_frame [of "env_nodes E" k c] by (simp add: coll_state_rep_def)
  let ?vm = "vm\<lparr>vm_wal := LogDelete (env_now E) n k 0 (vm_wal vm), vm_collections := set_collection n ?c (cm_disk ?cm) ?cm\<rparr>"
  have 1: "VM_DeleteKey E n k vm = (?vm, None)"
    using c del by (simp add: VM_DeleteKey_def GetCollection_def Let_def put_coll_def case_prod_beta)
  have 2: "cm_rep (env_lower E) (vm_collections ?vm) (S(n \<mapsto> (cfg, A(k := None), R)))"
    using set_collection_rep [OF cm s cs', of "cm_disk ?cm"] cm by (simp add: cm_rep_def)
  show thesis
    by (rule that [OF 1 _ 2, of ?c]) (simp_all add: set_collection_def DeleteKey_room [OF rep cr ord])
qed

text \<open>A block as it is read from a record, with the vector of whatever the id stands for now.\<close>

lemma decode_stored:
  assumes "EncodeEntry ul (block_entry k v b) = Inr p" and "length (Primary b) < 2 ^ 32"
  shows "\<exists>e. DecodeEntry p = Inr e \<and> Primary (entry_block c e) = Primary b \<and>
    BlockKeywords (entry_block c e) = map (NormalizeKeyword ul) (BlockKeywords b)"
proof -
  have "DecodeEntry p = Inr (stored_entry ul (block_entry k v b))"
    using assms by (intro entry_roundtrip) (simp_all add: block_entry_def VectorIDToBytes_def be64.enc_length)
  then show ?thesis by (simp add: entry_block_def stored_entry_def block_entry_def)
qed

lemma VM_GetBlock_store:
  assumes "cm_rep ul (vm_collections vm) S" and "store_view (env_libs E) (vm_Manager vm) M" and "S n = Some (cfg, A, R)"
  shows "VM_GetBlock E n k i vm = (if A k = None then Inl KeyNotFound else
    case M (makeStorageKey n k) of None \<Rightarrow> Inl IndexOutOfBounds
    | Some ps \<Rightarrow> if unat i < length ps then
        (case DecodeEntry (ps ! unat i) of Inl err \<Rightarrow> Inl (wrap_error ''failed to decode entry'' err)
         | Inr e \<Rightarrow> Inr (entry_block (the (mget (collections (vm_collections vm)) n)) e))
      else Inl IndexOutOfBounds)"
proof -
  obtain c where c: "mget (collections (vm_collections vm)) n = Some c" "coll_rep c A"
    using cm_rep_Some [OF assms(1,3)] by (auto simp: coll_state_rep_def)
  have get: "Mgr_Get (env_libs E) (makeStorageKey n k) (int (unat i)) (vm_Manager vm) =
      (case M (makeStorageKey n k) of None \<Rightarrow> Inl IndexOutOfBounds
       | Some ps \<Rightarrow> if unat i < length ps then Inr (ps ! unat i) else Inl IndexOutOfBounds)"
    unfolding shards.get_view [OF assms(2)] of_nat_less_iff nat_int by (simp only: of_nat_0_le_iff simp_thms)
  have has: "Coll_ContainsKey c k \<longleftrightarrow> A k \<noteq> None" using ContainsKey_rep [of c A k] c(2) by (simp add: coll_rep_def)
  show ?thesis
    unfolding VM_GetBlock_def get using c(1) has by (simp add: GetCollection_def split: option.split sum.split)
qed

lemma deleted_key_returns_ok:
  assumes rep: "vm_rep (env_libs E) (env_lower E) vm D" and D: "D n = Some (cfg, K)" and k: "K k = Some (b0 # bs)"
    and room: "vm_room (Suc m) vm D" and acc: "block_acceptable (env_libs E) (env_lower E) n cfg k b"
    and ord: "is_order (env_nodes E)"
  shows "\<exists>vm1 vm2 blk. VM_DeleteKey E n k vm = (vm1, None) \<and> VM_GetBlock E n k 0 vm1 = Inl KeyNotFound \<and>
    VM_AppendBlock E n k b vm1 = (vm2, 0, None) \<and> VM_GetBlock E n k 0 vm2 = Inr blk \<and>
    Primary blk = Primary b0 \<and> BlockKeywords blk = map (NormalizeKeyword (env_lower E)) (BlockKeywords b0)"
proof -
  obtain S M where cm: "cm_rep (env_lower E) (vm_collections vm) S" and st: "store_view (env_libs E) (vm_Manager vm) M"
    and db: "db_rep (env_lower E) S M D" using rep by (auto simp: vm_rep_def)
  obtain A R where s: "S n = Some (cfg, A, R)" and ks: "\<And>k. key_state (env_lower E) k (A k) (M (makeStorageKey n k)) (K k)"
    using db_repD [OF db D] by blast
  obtain c where c: "mget (collections (vm_collections vm)) n = Some c" using cm_rep_Some [OF cm s] .
  then have "GetCollection (vm_collections vm) n = Inr c" by (simp add: GetCollection_def)
  note cr = room_for_coll_room [OF vm_room_collection [OF room D this ks]]
  obtain ids ps where a: "A k = Some (zip ids (map Vector (b0 # bs)))" and m: "M (makeStorageKey n k) = Some ps"
    and e: "encoded_blocks (env_lower E) k ids (b0 # bs) ps" using ks [of k] k by (auto simp: key_state_def)
  then have p0: "EncodeEntry (env_lower E) (block_entry k (ids ! 0) b0) = Inr (ps ! 0)" "length (Primary b0) < 2 ^ 32" "0 < length ps"
    by (auto simp: encoded_blocks_def)
  obtain vm1 c1 where 1: "VM_DeleteKey E n k vm = (vm1, None)" "vm_Manager vm1 = vm_Manager vm"
    "cm_rep (env_lower E) (vm_collections vm1) (S(n \<mapsto> (cfg, A(k := None), R)))"
    "mget (collections (vm_collections vm1)) n = Some c1" "coll_room c1 (A(k := None))"
    using VM_DeleteKey_step [OF cm s _ c ord cr] a by blast
  have st1: "store_view (env_libs E) (vm_Manager vm1) M" and s1: "(S(n \<mapsto> (cfg, A(k := None), R))) n = Some (cfg, A(k := None), R)"
    using st 1(2) by simp_all
  obtain dir where dir: "mget (cm_disk (vm_collections vm1)) (cm_basePath (vm_collections vm1) @ [n]) = Some dir"
    using cm_rep_directory [OF 1(3) s1] by blast
  obtain vm2 c2 p R' where 2: "VM_AppendBlock E n k b vm1 = (vm2, of_nat (length (blocks_of (A(k := None)) k)), None)"
    "EncodeEntry (env_lower E) (block_entry k (GetNextVectorID (DocMap c1)) b) = Inr p"
    "cm_rep (env_lower E) (vm_collections vm2) ((S(n \<mapsto> (cfg, A(k := None), R)))(n \<mapsto>
       (cfg, add_block k (GetNextVectorID (DocMap c1), Vector b) (A(k := None)), R')))"
    "store_view (env_libs E) (vm_Manager vm2) (spec_append (makeStorageKey n k, p) M)"
    "collections (vm_collections vm2) = mput n c2 (collections (vm_collections vm1))"
    "\<forall>m. room_for (Suc m) c1 (A(k := None)) \<longrightarrow> room_for m c2 (add_block k (GetNextVectorID (DocMap c1), Vector b) (A(k := None)))"
    "vm_wal vm2 = wal_log (logged_add E n k b) (vm_wal vm1)"
    using VM_AppendBlock_step [OF 1(3) st1 s1 1(4,5) acc refl dir] .
  obtain e where e: "DecodeEntry (ps ! 0) = Inr e" "Primary (entry_block (the (mget (collections (vm_collections vm2)) n)) e) = Primary b0"
    "BlockKeywords (entry_block (the (mget (collections (vm_collections vm2)) n)) e) = map (NormalizeKeyword (env_lower E)) (BlockKeywords b0)"
    using decode_stored [OF p0(1,2)] by blast
  have "VM_GetBlock E n k 0 vm2 = Inr (entry_block (the (mget (collections (vm_collections vm2)) n)) e)"
    using VM_GetBlock_store [OF 2(3,4) fun_upd_same, of k 0] e(1) m p0(3)
    by (simp add: add_block_def spec_append_def nth_append)
  moreover have "VM_GetBlock E n k 0 vm1 = Inl KeyNotFound"
    using VM_GetBlock_store [OF 1(3) st1 s1, of k 0] by simp
  ultimately show ?thesis using 1(1) 2(1) e(2,3) by (simp add: blocks_of_def)
qed

text \<open>A block the record store refuses.\<close>

lemma unstored_block:
  assumes rep: "vm_rep (env_libs E) (env_lower E) vm D" and D: "D n = Some (cfg, K)" and k: "K k = None"
    and room: "vm_room (Suc m) vm D" and fit: "Vector b = [] \<or> of_nat (length (Vector b)) = Dimensions cfg"
    and kws: "valid_keywords (env_lower E) (BlockKeywords b)" "EncodeKeywords (env_lower E) (BlockKeywords b) = Inr kw"
    and long: "length (makeStorageKey n k) > maxKeyLen" "length k \<le> MaxKeyLength"
  shows "\<exists>vm' err. VM_AppendBlock E n k b vm = (vm', 0, Some err) \<and>
    VM_GetKeyLength n k vm' = Inr 1 \<and> VM_GetBlock E n k 0 vm' = Inl IndexOutOfBounds"
proof -
  obtain S M where cm: "cm_rep (env_lower E) (vm_collections vm) S" and st: "store_view (env_libs E) (vm_Manager vm) M"
    and db: "db_rep (env_lower E) S M D" using rep by (auto simp: vm_rep_def)
  obtain A R where s: "S n = Some (cfg, A, R)" and ks: "\<And>k. key_state (env_lower E) k (A k) (M (makeStorageKey n k)) (K k)"
    using db_repD [OF db D] by blast
  have a: "A k = None" "M (makeStorageKey n k) = None" using ks [of k] k by (simp_all add: key_state_def)
  obtain c where c: "mget (collections (vm_collections vm)) n = Some c" "Config c = cfg"
    using cm_rep_Some [OF cm s] by (auto simp: coll_state_rep_def)
  then have "GetCollection (vm_collections vm) n = Inr c" by (simp add: GetCollection_def)
  note cr = room_for_coll_room [OF vm_room_collection [OF room D this ks]]
  have fit: "block_fits c b" using fit c(2) by (simp add: block_fits_def)
  obtain p where p: "EncodeEntry (env_lower E) (block_entry k (GetNextVectorID (DocMap c)) b) = Inr p"
    using kws(2) long(2) by (auto simp: EncodeEntry_Inr block_entry_def MaxKeyLength_def)
  have rej: "\<not> append_accepts (env_libs E) (makeStorageKey n k) p" using long(1) by (simp add: append_accepts_def)
  let ?A = "add_block k (GetNextVectorID (DocMap c), Vector b) A"
  obtain vm' R' err where 1: "VM_AppendBlock E n k b vm = (vm', of_nat (length (blocks_of A k)), Some (wrap_error ''storage append failed'' err))"
    "cm_rep (env_lower E) (vm_collections vm') (S(n \<mapsto> (cfg, ?A, R')))" "vm_Manager vm' = vm_Manager vm"
    using VM_AppendBlock_unstored [OF cm st s c(1) cr fit kws(1) refl p rej] .
  have s': "(S(n \<mapsto> (cfg, ?A, R'))) n = Some (cfg, ?A, R')" by simp
  obtain c' where c': "mget (collections (vm_collections vm')) n = Some c'" "memory_rep c' ?A"
    using cm_rep_Some [OF 1(2) s'] by (auto simp: coll_state_rep_def coll_rep_def)
  have "VM_GetKeyLength n k vm' = Inr 1"
    using c' a by (simp add: VM_GetKeyLength_def GetCollection_def GetKeyLength_rep add_block_def blocks_of_def)
  moreover have "VM_GetBlock E n k 0 vm' = Inl IndexOutOfBounds"
    using VM_GetBlock_store [OF 1(2) _ s', of E M k 0] st 1(3) a by (simp add: add_block_def)
  ultimately show ?thesis using 1(1) a by (auto simp: blocks_of_def)
qed

text \<open>Reading a whole key looks for the bare key in the record store.\<close>

lemma VM_GetKey_rep:
  assumes rep: "vm_rep (env_libs E) ul vm D" and D: "D n = Some (cfg, K)" and k: "K k \<noteq> None"
  shows "CHR '':'' \<notin> set k \<Longrightarrow> VM_GetKey E n k vm = Inl KeyNotFound"
    and "k = makeStorageKey n' k' \<Longrightarrow> D n' = Some (cfg', K') \<Longrightarrow> K' k' = Some bs \<Longrightarrow>
      \<exists>blks. VM_GetKey E n k vm = Inr blks \<and> map Primary blks = map Primary bs"
proof -
  obtain S M where cm: "cm_rep ul (vm_collections vm) S" and st: "store_view (env_libs E) (vm_Manager vm) M"
    and db: "db_rep ul S M D" using rep by (auto simp: vm_rep_def)
  obtain A R where s: "S n = Some (cfg, A, R)" and ks: "\<And>k. key_state ul k (A k) (M (makeStorageKey n k)) (K k)"
    using db_repD [OF db D] by blast
  obtain c where c: "mget (collections (vm_collections vm)) n = Some c" "coll_rep c A"
    using cm_rep_Some [OF cm s] by (auto simp: coll_state_rep_def)
  have "A k \<noteq> None" using ks [of k] k by (auto simp: key_state_def split: option.splits)
  then have has: "Coll_ContainsKey c k" using ContainsKey_rep [of c A k] c(2) by (simp add: coll_rep_def)
  have all: "Mgr_GetAllValues (env_libs E) k (vm_Manager vm) = (case M k of None \<Rightarrow> Inl KeyNotFound | Some ps \<Rightarrow> Inr ps)"
    using st Mgr_reads(2) by (auto simp: store_view_def)
  show "VM_GetKey E n k vm = Inl KeyNotFound" if nk: "CHR '':'' \<notin> set k"
  proof -
    have "M k = None" using db nk unfolding db_rep_def makeStorageKey_def by (metis append_Cons in_set_conv_decomp)
    with c(1) has all show ?thesis by (simp add: VM_GetKey_def GetCollection_def)
  qed
  assume k': "k = makeStorageKey n' k'" and D': "D n' = Some (cfg', K')" and bs: "K' k' = Some bs"
  obtain A' where "key_state ul k' (A' k') (M k) (K' k')" using db_repD [OF db D'] k' by blast
  then obtain ids ps where ps: "M k = Some ps" "encoded_blocks ul k' ids bs ps" using bs by (auto simp: key_state_def)
  let ?g = "\<lambda>p. case DecodeEntry p of Inl err \<Rightarrow> [] | Inr entry \<Rightarrow> [entry_block c entry]"
  have "\<exists>blk. ?g (ps ! i) = [blk] \<and> Primary blk = Primary (bs ! i)" if "i < length bs" for i
    using decode_stored [of ul k' "ids ! i" "bs ! i" "ps ! i" c] ps(2) that by (auto simp: encoded_blocks_def)
  moreover have "length ps = length bs" using ps(2) by (simp add: encoded_blocks_def)
  ultimately have "list_all2 (\<lambda>p b. \<exists>blk. ?g p = [blk] \<and> Primary blk = Primary b) ps bs"
    by (simp add: list_all2_conv_all_nth)
  then have "map Primary (concat (map ?g ps)) = map Primary bs"
    by (induction rule: list_all2_induct) auto
  then show "\<exists>blks. VM_GetKey E n k vm = Inr blks \<and> map Primary blks = map Primary bs"
    using c(1) has all ps(1) by (auto simp: VM_GetKey_def GetCollection_def)
qed

subsection \<open>Batches\<close>

text \<open>Appending records of different keys does not depend on their order.\<close>

lemma fold_spec_append:
  assumes "distinct (map fst xs)"
  shows "fold spec_append xs M k = (case map_of xs k of None \<Rightarrow> M k
    | Some p \<Rightarrow> Some ((case M k of None \<Rightarrow> [] | Some ps \<Rightarrow> ps) @ [p]))"
  using assms
proof (induction xs arbitrary: M)
  case (Cons x xs)
  have "map_of xs (fst x) = None" using Cons.prems by (simp add: map_of_eq_None_iff)
  with Cons.IH [of "spec_append x M"] Cons.prems show ?case
    by (cases "k = fst x") (simp_all add: spec_append_def split: option.split)
qed simp

lemma fold_spec_append_order:
  assumes "distinct (map fst xs)" and "mset ys = mset xs"
  shows "fold spec_append ys M = fold spec_append xs M"
proof -
  have d: "distinct (map fst ys)" using assms by (metis mset_eq_imp_distinct_iff mset_map)
  have "set ys = set xs" using assms(2) by (metis set_mset_mset)
  then have "map_of ys = map_of xs" using map_of_inject_set [OF d assms(1)] by simp
  then show ?thesis by (intro ext) (simp add: fold_spec_append assms(1) d)
qed

fun batch_items :: "(string \<Rightarrow> string) \<Rightarrow> string \<Rightarrow> uint64 \<Rightarrow> (string \<times> BlockData) list \<Rightarrow> (string \<times> bytes) list" where
  "batch_items ul n v [] = []"
| "batch_items ul n v ((k, b) # xs) =
     (makeStorageKey n k, projr (EncodeEntry ul (block_entry k v b))) # batch_items ul n (v + 1) xs"

lemma keys_batch_items [simp]: "map fst (batch_items ul n v xs) = map (makeStorageKey n) (map fst xs)"
  by (induction ul n v xs rule: batch_items.induct) simp_all

lemma storage_key_inj [simp]: "makeStorageKey n k = makeStorageKey n k' \<longleftrightarrow> k = k'"
  by (simp add: makeStorageKey_def)

lemma acceptable_encodes:
  assumes "block_acceptable lib ul n cfg k b"
  shows "EncodeEntry ul (block_entry k v b) = Inr (projr (EncodeEntry ul (block_entry k v b)))"
    and "record_ok lib (makeStorageKey n k, projr (EncodeEntry ul (block_entry k v b)))"
proof -
  obtain p where "EncodeEntry ul (block_entry k v b) = Inr p" "append_accepts lib (makeStorageKey n k) p"
    using encode_acceptable [OF assms] .
  then show "EncodeEntry ul (block_entry k v b) = Inr (projr (EncodeEntry ul (block_entry k v b)))"
    and "record_ok lib (makeStorageKey n k, projr (EncodeEntry ul (block_entry k v b)))"
    by (simp_all add: append_accepts_record_ok)
qed

lemma record_ok_batch_items:
  "list_all (\<lambda>(k, b). block_acceptable lib ul n cfg k b) xs \<Longrightarrow> list_all (record_ok lib) (batch_items ul n v xs)"
  by (induction ul n v xs rule: batch_items.induct) (auto intro: acceptable_encodes(2))

text \<open>The map of encoded entries: later blocks of a key overwrite earlier ones.\<close>

lemma vm_batch_entries_fold:
  assumes "list_all (\<lambda>(k, b). block_acceptable lib ul n cfg k b) xs"
  shows "vm_batch_entries ul n (zip (map fst xs) (zip (map snd xs) (spec_results v xs A))) m =
    (fold (\<lambda>(k, p). mput k p) (batch_items ul n v xs) m, replicate (length xs) True)"
  using assms
proof (induction xs arbitrary: v A m)
  case (Cons x xs)
  obtain k b where x: "x = (k, b)" by (cases x)
  obtain p where "EncodeEntry ul (block_entry k v b) = Inr p"
    using Cons.prems acceptable_encodes(1) [of lib ul n cfg k b v] by (auto simp: x)
  then show ?case
    using Cons.IH [of "v + 1" "add_block k (v, Vector b) A"] Cons.prems by (simp add: x)
qed simp

lemma fold_mput_distinct:
  assumes "distinct (map fst xs)" and "set (map fst xs) \<inter> fst ` set m = {}"
  shows "fold (\<lambda>(k, v). mput k v) xs m = m @ xs"
  using assms
proof (induction xs arbitrary: m)
  case (Cons x xs)
  obtain k v where x: "x = (k, v)" by (cases x)
  have "mput k v m = m @ [(k, v)]" using Cons.prems(2) by (intro mput_fresh) (auto simp: x)
  then show ?case using Cons.IH [of "m @ [(k, v)]"] Cons.prems by (auto simp: x)
qed simp

lemma set_mput: "set (mput k v m) \<subseteq> insert (k, v) (set m)"
  by (induction m) auto

lemma set_fold_mput: "set (fold (\<lambda>(k, v). mput k v) xs m) \<subseteq> set xs \<union> set m"
proof (induction xs arbitrary: m)
  case (Cons x xs)
  then show ?case using set_mput [of "fst x" "snd x" m] by (fastforce simp: case_prod_beta)
qed simp

lemma fold_mput_nonempty: "m \<noteq> [] \<Longrightarrow> fold (\<lambda>(k, v). mput k v) xs m \<noteq> []"
proof (induction xs arbitrary: m)
  case (Cons x xs)
  have "mput (fst x) (snd x) m \<noteq> []" by (cases m) auto
  with Cons.IH show ?case by (simp add: case_prod_beta)
qed simp

lemma wal_entries_map:
  "wal_entries now n (map fst xs) (map snd xs) = Inr (map (\<lambda>(k, b). \<lparr>w_Timestamp = now, w_OpType = WALOpAdd,
     w_Collection = n, w_Key = k, w_VectorID = 0, w_Vector = Vector b, w_Keywords = BlockKeywords b,
     w_Data = bytes_of_string (Primary b)\<rparr>) xs)"
  by (induction xs) auto

lemma VM_Batch_step:
  assumes cm: "cm_rep (env_lower E) (vm_collections vm) S" and st: "store_view (env_libs E) (vm_Manager vm) M"
    and s: "S n = Some (cfg, A, R)" and c: "mget (collections (vm_collections vm)) n = Some c"
    and room: "room_for (length xs) c A" and ne: "xs \<noteq> []"
    and acc: "list_all (\<lambda>(k, b). block_acceptable (env_libs E) (env_lower E) n cfg k b) xs"
    and v: "v = GetNextVectorID (DocMap c)" and ord: "is_order (env_batch E)"
    and es: "es = fold (\<lambda>(k, p). mput k p) (batch_items (env_lower E) n v xs) []"
  shows "\<exists>vm' R'. VM_BatchAppendBlocks E n (map fst xs) (map snd xs) vm = (vm', replicate (length xs) True, None) \<and>
    cm_rep (env_lower E) (vm_collections vm') (S(n \<mapsto> (cfg, spec_appends v xs A, R'))) \<and>
    store_view (env_libs E) (vm_Manager vm') (fold spec_append es M)"
proof -
  let ?ul = "env_lower E" and ?cm = "vm_collections vm" and ?items = "batch_items (env_lower E) n v xs"
  have cs: "coll_state_rep ?ul (cm_basePath ?cm) n c (cfg, A, R)"
    using cm_rep_Some [OF cm s] c by (metis option.inject)
  then have rep: "coll_rep c A" and ii: "ii_rep ?ul (KeywordIndex c) R" and cfg: "Config c = cfg"
    by (simp_all add: coll_state_rep_def)
  have fit: "list_all (\<lambda>(k, b). block_fits c b) xs" and kws: "list_all (\<lambda>(k, b). valid_keywords ?ul (BlockKeywords b)) xs"
    using acc cfg by (auto simp: list_all_iff block_fits_def block_acceptable_def)
  obtain c1 where a: "Coll_BatchAppendBlocks ?ul (env_rnd E) (map fst xs) (map snd xs) c = (c1, Inr (spec_results v xs A))"
    and c1: "coll_rep c1 (spec_appends v xs A)" "Config c1 = Config c" "coll_basePath c1 = coll_basePath c"
      "ii_rep ?ul (KeywordIndex c1) (R \<union> spec_postings ?ul v xs)"
    using BatchAppendBlocks_ok [OF rep room fit v, of ?ul "env_rnd E" R] ii kws by blast
  have cs1: "coll_state_rep ?ul (cm_basePath ?cm) n c1 (cfg, spec_appends v xs A, R \<union> spec_postings ?ul v xs)"
    using cs c1 by (simp add: coll_state_rep_def)
  note be = vm_batch_entries_fold [OF acc, of v A "[]", folded es]
  have wf: "wf_map es" unfolding es by (rule wf_fold_mput) simp
  have sub: "set es \<subseteq> set ?items" unfolding es using set_fold_mput [of ?items "[]"] by simp
  have ok: "list_all (record_ok (env_libs E)) es"
    using record_ok_batch_items [OF acc, of v] sub by (auto simp: list_all_iff)
  obtain k b ys where "xs = (k, b) # ys" using ne by (metis list.exhaust prod.exhaust)
  then have ne': "es \<noteq> []" unfolding es by (simp add: fold_mput_nonempty)
  let ?es = "env_batch E es"
  have perm: "mset ?es = mset es" using ord by (simp add: is_order_def)
  have "wf_map ?es" using wf perm unfolding wf_map_def by (metis mset_eq_imp_distinct_iff mset_map)
  moreover have "list_all (record_ok (env_libs E)) ?es" using ok perm by (metis list_all_iff set_mset_mset)
  ultimately have m: "snd (Mgr_BatchAppend (env_libs E) ?es (vm_Manager vm)) = None"
    "store_view (env_libs E) (fst (Mgr_BatchAppend (env_libs E) ?es (vm_Manager vm))) (fold spec_append ?es M)"
    using st Mgr_BatchAppend_ok unfolding store_view_def by blast+
  obtain m1 where m1: "Mgr_BatchAppend (env_libs E) ?es (vm_Manager vm) = (m1, None)"
    using m(1) by (cases "Mgr_BatchAppend (env_libs E) ?es (vm_Manager vm)") auto
  have f: "fold spec_append ?es M = fold spec_append es M"
    using fold_spec_append_order [OF wf [unfolded wf_map_def] perm] .
  from set_collection_rep [OF cm s cs1, of "cm_disk ?cm"] cm
  have "cm_rep ?ul (set_collection n c1 (cm_disk ?cm) ?cm) (S(n \<mapsto> (cfg, spec_appends v xs A, R \<union> spec_postings ?ul v xs)))"
    by (simp add: cm_rep_def)
  with c a be ne' m1 m(2) f show ?thesis
    by (auto simp: VM_BatchAppendBlocks_def GetCollection_def wal_entries_map Let_def put_coll_def)
qed

lemma db_rep_postings:
  assumes db: "db_rep ul S M D" and D: "D n = Some (cfg, K)" and s: "S n = Some (cfg, A, R)"
  shows "db_rep ul (S(n \<mapsto> (cfg, A, R'))) M D"
proof (rule db_repI)
  show "(S(n \<mapsto> (cfg, A, R'))) n' = None" if "D n' = None" for n' using db_rep_None [OF db that] s D that by auto
  show "\<exists>n k cfg K. D n = Some (cfg, K) \<and> K k \<noteq> None \<and> x = makeStorageKey n k" if "M x \<noteq> None" for x
    using that db unfolding db_rep_def by blast
  show "CHR '':'' \<notin> set n' \<and> (\<exists>A' R''. (S(n \<mapsto> (cfg, A, R'))) n' = Some (cfg', A', R'') \<and>
      (\<forall>k. key_state ul k (A' k) (M (makeStorageKey n' k)) (K' k)))" if "D n' = Some (cfg', K')" for n' cfg' K'
    using db_repD [OF db that] s by (cases "n' = n") auto
qed

lemma db_rep_batch:
  assumes "db_rep ul S M D" and "D n = Some (cfg, K)" and "S n = Some (cfg, A, R)"
    and "list_all (\<lambda>(k, b). block_acceptable lib ul n cfg k b) xs"
  shows "db_rep ul (S(n \<mapsto> (cfg, spec_appends v xs A, R'))) (fold spec_append (batch_items ul n v xs) M)
    (fold (\<lambda>(k, b). db_append n k b) xs D)"
  using assms
proof (induction xs arbitrary: S M D K A R v)
  case Nil
  from db_rep_postings [OF Nil(1-3), of R'] show ?case by (simp del: fun_upd_apply)
next
  case (Cons x xs)
  obtain k b where x: "x = (k, b)" by (cases x)
  have acc: "block_acceptable lib ul n cfg k b" using Cons.prems(4) by (simp add: x)
  let ?p = "projr (EncodeEntry ul (block_entry k v b))"
  let ?S = "S(n \<mapsto> (cfg, add_block k (v, Vector b) A, R))" and ?M = "spec_append (makeStorageKey n k, ?p) M"
  have "length (Primary b) < 2 ^ 32" using acc by (simp add: block_acceptable_def)
  note 1 = db_rep_append [OF Cons.prems(1,2,3) acceptable_encodes(1) [OF acc] this, of v R]
  obtain K' where 2: "db_append n k b D n = Some (cfg, K')" using Cons.prems(2) by (simp add: db_append_def)
  have 3: "?S n = Some (cfg, add_block k (v, Vector b) A, R)" by simp
  from Cons.IH [OF 1 2 3, of "v + 1"] Cons.prems(4) show ?case by (simp add: x del: fun_upd_apply)
qed

lemma VM_BatchAppendBlocks_ok:
  assumes rep: "vm_rep (env_libs E) (env_lower E) vm D" and D: "D n = Some (cfg, K)"
    and room: "vm_room (length xs) vm D" and ne: "xs \<noteq> []" and dist: "distinct (map fst xs)"
    and acc: "list_all (\<lambda>(k, b). block_acceptable (env_libs E) (env_lower E) n cfg k b) xs"
    and ord: "is_order (env_batch E)"
  shows "\<exists>vm'. VM_BatchAppendBlocks E n (map fst xs) (map snd xs) vm = (vm', replicate (length xs) True, None) \<and>
    vm_rep (env_libs E) (env_lower E) vm' (fold (\<lambda>(k, b). db_append n k b) xs D)"
proof -
  obtain S M where cm: "cm_rep (env_lower E) (vm_collections vm) S" and st: "store_view (env_libs E) (vm_Manager vm) M"
    and db: "db_rep (env_lower E) S M D" using rep by (auto simp: vm_rep_def)
  obtain A R where s: "S n = Some (cfg, A, R)" and ks: "\<And>k. key_state (env_lower E) k (A k) (M (makeStorageKey n k)) (K k)"
    using db_repD [OF db D] by blast
  obtain c where c: "mget (collections (vm_collections vm)) n = Some c" using cm_rep_Some [OF cm s] .
  then have "GetCollection (vm_collections vm) n = Inr c" by (simp add: GetCollection_def)
  note r = vm_room_collection [OF room D this ks]
  have "inj_on (makeStorageKey n) (set (map fst xs))" by (simp add: inj_on_def)
  then have "distinct (map fst (batch_items (env_lower E) n v xs))" for v
    unfolding keys_batch_items distinct_map [of "makeStorageKey n"] using dist by blast
  then have f: "fold (\<lambda>(k, p). mput k p) (batch_items (env_lower E) n v xs) [] = batch_items (env_lower E) n v xs" for v
    using fold_mput_distinct [of "batch_items (env_lower E) n v xs" "[]"] by simp
  from VM_Batch_step [OF cm st s c r ne acc refl ord refl, unfolded f] db_rep_batch [OF db D s acc]
  show ?thesis unfolding vm_rep_def by blast
qed

text \<open>Two blocks for the same key in one batch.\<close>

lemma VM_Batch_duplicate:
  assumes rep: "vm_rep (env_libs E) (env_lower E) vm D" and D: "D n = Some (cfg, K)" and k: "K k = None"
    and room: "vm_room 2 vm D" and ord: "is_order (env_batch E)"
    and acc: "block_acceptable (env_libs E) (env_lower E) n cfg k b1" "block_acceptable (env_libs E) (env_lower E) n cfg k b2"
  shows "\<exists>vm' blk. VM_BatchAppendBlocks E n [k, k] [b1, b2] vm = (vm', [True, True], None) \<and>
    VM_GetKeyLength n k vm' = Inr 2 \<and> VM_GetBlock E n k 0 vm' = Inr blk \<and> Primary blk = Primary b2 \<and>
    VM_GetBlock E n k 1 vm' = Inl IndexOutOfBounds"
proof -
  let ?xs = "[(k, b1), (k, b2)]"
  obtain S M where cm: "cm_rep (env_lower E) (vm_collections vm) S" and st: "store_view (env_libs E) (vm_Manager vm) M"
    and db: "db_rep (env_lower E) S M D" using rep by (auto simp: vm_rep_def)
  obtain A R where s: "S n = Some (cfg, A, R)" and ks: "\<And>k. key_state (env_lower E) k (A k) (M (makeStorageKey n k)) (K k)"
    using db_repD [OF db D] by blast
  have a: "A k = None" "M (makeStorageKey n k) = None" using ks [of k] k by (simp_all add: key_state_def)
  obtain c where c: "mget (collections (vm_collections vm)) n = Some c" using cm_rep_Some [OF cm s] .
  then have "GetCollection (vm_collections vm) n = Inr c" by (simp add: GetCollection_def)
  note r = vm_room_collection [OF room D this ks]
  define v where "v = GetNextVectorID (DocMap c)"
  let ?A = "spec_appends v ?xs A" and ?p = "projr (EncodeEntry (env_lower E) (block_entry k (v + 1) b2))"
  obtain vm' R' where 1: "VM_BatchAppendBlocks E n [k, k] [b1, b2] vm = (vm', [True, True], None)"
    "cm_rep (env_lower E) (vm_collections vm') (S(n \<mapsto> (cfg, ?A, R')))"
    "store_view (env_libs E) (vm_Manager vm') (spec_append (makeStorageKey n k, ?p) M)"
    using VM_Batch_step [OF cm st s c _ _ _ v_def ord refl, of ?xs] r acc by (auto simp: numeral_2_eq_2)
  have s': "(S(n \<mapsto> (cfg, ?A, R'))) n = Some (cfg, ?A, R')" by simp
  obtain c' where c': "mget (collections (vm_collections vm')) n = Some c'" "memory_rep c' ?A"
    using cm_rep_Some [OF 1(2) s'] by (auto simp: coll_state_rep_def coll_rep_def)
  have A': "?A k = Some [(v, Vector b1), (v + 1, Vector b2)]" using a by (simp add: add_block_def blocks_of_def)
  have "length (Primary b2) < 2 ^ 32" using acc(2) by (simp add: block_acceptable_def)
  from decode_stored [OF acceptable_encodes(1) [OF acc(2)] this, of "v + 1" "the (mget (collections (vm_collections vm')) n)"] obtain e where
    e: "DecodeEntry ?p = Inr e" "Primary (entry_block (the (mget (collections (vm_collections vm')) n)) e) = Primary b2" by blast
  have "VM_GetKeyLength n k vm' = Inr 2"
    using c' A' by (simp add: VM_GetKeyLength_def GetCollection_def GetKeyLength_rep)
  moreover have "VM_GetBlock E n k 0 vm' = Inr (entry_block (the (mget (collections (vm_collections vm')) n)) e)"
    "VM_GetBlock E n k 1 vm' = Inl IndexOutOfBounds"
    using VM_GetBlock_store [OF 1(2,3) s', of k] A' a e(1) by (simp_all add: spec_append_def)
  ultimately show ?thesis using 1(1) e(2) by auto
qed

subsection \<open>Creating and deleting collections\<close>

lemma VM_CreateCollection_ok:
  assumes rep: "vm_rep lib ul vm D" and D: "D n = None" and n: "plain_name n" "CHR '':'' \<notin> set n"
    and val: "ValidateCollectionConfig \<lparr>Name = n, Dimensions = d, Metric = me\<rparr> = None"
  shows "snd (VM_CreateCollection n d me vm) = None \<and>
    vm_rep lib ul (fst (VM_CreateCollection n d me vm)) (D(n \<mapsto> (\<lparr>Name = n, Dimensions = d, Metric = me\<rparr>, Map.empty)))"
proof -
  obtain S M where cm: "cm_rep ul (vm_collections vm) S" and st: "store_view lib (vm_Manager vm) M"
    and db: "db_rep ul S M D" using rep by (auto simp: vm_rep_def)
  have s: "S n = None" using db_rep_None [OF db D] .
  let ?cfg = "\<lparr>Name = n, Dimensions = d, Metric = me\<rparr>"
  note new = CreateCollection_ok [OF cm s n(1) val]
  have stale: "M (makeStorageKey n k) = None" for k
  proof (rule ccontr)
    assume "M (makeStorageKey n k) \<noteq> None"
    then obtain n' k' cfg' K' where "D n' = Some (cfg', K')" "makeStorageKey n k = makeStorageKey n' k'"
      using db unfolding db_rep_def by blast
    moreover from this have "CHR '':'' \<notin> set n'" using db_repD [OF db] by blast
    ultimately show False using storage_key_eq [OF n(2)] D by auto
  qed
  have "db_rep ul (S(n \<mapsto> (?cfg, Map.empty, {}))) M (D(n \<mapsto> (?cfg, Map.empty)))"
  proof (rule db_repI)
    show "(S(n \<mapsto> (?cfg, Map.empty, {}))) n' = None" if "(D(n \<mapsto> (?cfg, Map.empty))) n' = None" for n'
      using that db_rep_None [OF db, of n'] by (auto split: if_splits)
    show "\<exists>n' k cfg K. (D(n \<mapsto> (?cfg, Map.empty))) n' = Some (cfg, K) \<and> K k \<noteq> None \<and> x = makeStorageKey n' k"
      if x: "M x \<noteq> None" for x
    proof -
      obtain n' k' cfg' K' where "D n' = Some (cfg', K')" "K' k' \<noteq> None" "x = makeStorageKey n' k'"
        using x db unfolding db_rep_def by blast
      with D show ?thesis by (intro exI [of _ n'] exI [of _ k']) auto
    qed
    show "CHR '':'' \<notin> set n' \<and> (\<exists>A R. (S(n \<mapsto> (?cfg, Map.empty, {}))) n' = Some (cfg', A, R) \<and>
        (\<forall>k. key_state ul k (A k) (M (makeStorageKey n' k)) (K' k)))" if "(D(n \<mapsto> (?cfg, Map.empty))) n' = Some (cfg', K')" for n' cfg' K'
      using that db_repD [OF db, of n'] n(2) stale by (cases "n' = n") (auto simp: key_state_def)
  qed
  with new st show ?thesis
    unfolding vm_rep_def by (auto simp: VM_CreateCollection_def case_prod_beta Let_def)
qed

lemma VM_CreateCollection_rejects:
  assumes rep: "vm_rep lib ul vm D"
  shows "D n \<noteq> None \<Longrightarrow> VM_CreateCollection n d me vm = (vm, Some CollectionExists)"
    and "D n = None \<Longrightarrow> ValidateCollectionConfig \<lparr>Name = n, Dimensions = d, Metric = me\<rparr> = Some err \<Longrightarrow>
      VM_CreateCollection n d me vm = (vm, Some err)"
proof -
  obtain S M where cm: "cm_rep ul (vm_collections vm) S" and db: "db_rep ul S M D" using rep by (auto simp: vm_rep_def)
  have "D n = None \<longleftrightarrow> mget (collections (vm_collections vm)) n = None"
    using cm_rep_None [OF cm, of n] db_rep_None [OF db, of n] db_repD [OF db, of n] by (cases "D n") auto
  then show "D n \<noteq> None \<Longrightarrow> VM_CreateCollection n d me vm = (vm, Some CollectionExists)"
    and "D n = None \<Longrightarrow> ValidateCollectionConfig \<lparr>Name = n, Dimensions = d, Metric = me\<rparr> = Some err \<Longrightarrow>
      VM_CreateCollection n d me vm = (vm, Some err)"
    by (simp_all add: VM_CreateCollection_def CreateCollection_def)
qed

lemma purge_keys:
  "store_view lib (vm_Manager vm) M \<Longrightarrow>
   let vm' = fold (\<lambda>key vm. vm\<lparr>vm_Manager := fst (Mgr_DeleteKey lib (makeStorageKey n key) (vm_Manager vm))\<rparr>) ks vm
   in store_view lib (vm_Manager vm') (\<lambda>x. if x \<in> makeStorageKey n ` set ks then None else M x) \<and>
      vm_collections vm' = vm_collections vm"
proof (induction ks arbitrary: vm M)
  case (Cons k ks)
  let ?vm = "vm\<lparr>vm_Manager := fst (Mgr_DeleteKey lib (makeStorageKey n k) (vm_Manager vm))\<rparr>"
  have "store_view lib (vm_Manager ?vm) (M(makeStorageKey n k := None))" using shards.del_view [OF Cons.prems] by simp
  note ih = Cons.IH [OF this]
  have "(\<lambda>x. if x \<in> makeStorageKey n ` set ks then None else (M(makeStorageKey n k := None)) x) =
      (\<lambda>x. if x \<in> makeStorageKey n ` set (k # ks) then None else M x)" by (intro ext) simp
  with ih show ?case by (simp add: Let_def)
qed simp

lemma VM_DeleteCollection_ok:
  assumes rep: "vm_rep (env_libs E) ul vm D" and D: "D n = Some (cfg, K)"
  shows "snd (VM_DeleteCollection E n vm) = None \<and> vm_rep (env_libs E) ul (fst (VM_DeleteCollection E n vm)) (D(n := None))"
proof -
  obtain S M where cm: "cm_rep ul (vm_collections vm) S" and st: "store_view (env_libs E) (vm_Manager vm) M"
    and db: "db_rep ul S M D" using rep by (auto simp: vm_rep_def)
  obtain A R where n: "CHR '':'' \<notin> set n" and s: "S n = Some (cfg, A, R)"
    and ks: "\<And>k. key_state ul k (A k) (M (makeStorageKey n k)) (K k)" using db_repD [OF db D] by blast
  obtain c where c: "mget (collections (vm_collections vm)) n = Some c" "memory_rep c A"
    using cm_rep_Some [OF cm s] by (auto simp: coll_state_rep_def coll_rep_def)
  let ?ks = "Coll_ListKeys c"
  define vm1 where "vm1 = fold (\<lambda>key vm. vm\<lparr>vm_Manager := fst (Mgr_DeleteKey (env_libs E) (makeStorageKey n key) (vm_Manager vm))\<rparr>) ?ks vm"
  let ?M = "\<lambda>x. if x \<in> makeStorageKey n ` set ?ks then None else M x"
  have 1: "store_view (env_libs E) (vm_Manager vm1) ?M" "vm_collections vm1 = vm_collections vm"
    using purge_keys [OF st, of n ?ks] unfolding vm1_def by (simp_all add: Let_def)
  have del: "snd (CM_DeleteCollection n (vm_collections vm)) = None" "cm_rep ul (fst (CM_DeleteCollection n (vm_collections vm))) (S(n := None))"
    using DeleteCollection_ok [OF cm, of n] s by auto
  have keys: "set ?ks = dom A" using ListKeys_rep [OF c(2)] by simp
  have dom: "A k = None \<longleftrightarrow> K k = None" for k using ks [of k] by (auto simp: key_state_def split: option.splits)
  have "db_rep ul (S(n := None)) ?M (D(n := None))"
  proof (rule db_repI)
    show "(S(n := None)) n' = None" if "(D(n := None)) n' = None" for n'
      using that db_rep_None [OF db, of n'] by (auto split: if_splits)
    show "\<exists>n' k cfg K. (D(n := None)) n' = Some (cfg, K) \<and> K k \<noteq> None \<and> x = makeStorageKey n' k" if "?M x \<noteq> None" for x
    proof -
      have x: "x \<notin> makeStorageKey n ` set ?ks" "M x \<noteq> None" using that by (auto split: if_splits)
      then obtain n' k' cfg' K' where k': "D n' = Some (cfg', K')" "K' k' \<noteq> None" "x = makeStorageKey n' k'"
        using db unfolding db_rep_def by blast
      have "n' \<noteq> n"
      proof
        assume "n' = n"
        with k' D dom [of k'] have "k' \<in> set ?ks" by (auto simp: keys)
        with k'(3) x(1) \<open>n' = n\<close> show False by blast
      qed
      with k' show ?thesis by (intro exI [of _ n'] exI [of _ k']) auto
    qed
    show "CHR '':'' \<notin> set n' \<and> (\<exists>A R. (S(n := None)) n' = Some (cfg', A, R) \<and>
        (\<forall>k. key_state ul k (A k) (?M (makeStorageKey n' k)) (K' k)))" if "(D(n := None)) n' = Some (cfg', K')" for n' cfg' K'
    proof -
      have n': "n' \<noteq> n" "D n' = Some (cfg', K')" using that by (auto split: if_splits)
      obtain A' R' where A': "CHR '':'' \<notin> set n'" "S n' = Some (cfg', A', R')"
        "\<And>k. key_state ul k (A' k) (M (makeStorageKey n' k)) (K' k)" using db_repD [OF db n'(2)] by blast
      have "makeStorageKey n' k \<notin> makeStorageKey n ` set ?ks" for k
        using storage_key_eq [OF A'(1) n] n'(1) by blast
      with A' n'(1) show ?thesis by auto
    qed
  qed
  moreover have "VM_DeleteCollection E n vm =
      (vm1\<lparr>vm_collections := fst (CM_DeleteCollection n (vm_collections vm))\<rparr>, None)"
    using c(1) del(1) 1(2) by (simp add: VM_DeleteCollection_def GetCollection_def Let_def vm1_def case_prod_beta)
  ultimately show ?thesis using 1(1) del(2) unfolding vm_rep_def by auto
qed

lemma VM_DeleteCollection_missing:
  assumes "vm_rep lib ul vm D" and "D n = None"
  shows "VM_DeleteCollection E n vm = (vm, Some CollectionNotFound)"
proof -
  obtain S M where cm: "cm_rep ul (vm_collections vm) S" and db: "db_rep ul S M D" using assms(1) by (auto simp: vm_rep_def)
  have "mget (collections (vm_collections vm)) n = None" using cm_rep_None [OF cm] db_rep_None [OF db assms(2)] by simp
  then show ?thesis by (simp add: VM_DeleteCollection_def GetCollection_def CM_DeleteCollection_def)
qed

subsection \<open>Searching\<close>

definition spec_distance :: "CollectionConfig \<Rightarrow> float32 list \<Rightarrow> float32 list \<Rightarrow> float32" where
  "spec_distance cfg = hw_distance (NewHNSWWrapper (Dimensions cfg) (Metric cfg))"

definition hit_ok :: "(string \<Rightarrow> string) \<Rightarrow> CollectionConfig \<Rightarrow> (string \<rightharpoonup> BlockData list) \<Rightarrow> float32 list \<Rightarrow> SearchResultItem \<Rightarrow> bool" where
  "hit_ok ul cfg K q it \<longleftrightarrow> (case K (ItemKey it) of None \<Rightarrow> False
     | Some bs \<Rightarrow> unat (ItemIndex it) < length bs \<and> ItemBlock it = Some (norm_block ul (bs ! unat (ItemIndex it))) \<and>
         Vector (bs ! unat (ItemIndex it)) \<noteq> [] \<and>
         ItemDistance it = spec_distance cfg q (Vector (bs ! unat (ItemIndex it))))"

lemma item_hit:
  assumes rep: "vm_rep (env_libs E) ul vm D" and D: "D n = Some (cfg, K)"
    and ks: "\<And>k. key_state ul k (A k) (M (makeStorageKey n k)) (K k)" and c: "coll_rep c A" "Config c = cfg"
    and it: "item_ok c A q flt it"
  shows "hit_ok ul cfg K q (case VM_GetBlock E n (ItemKey it) (ItemIndex it) vm of
    Inl err \<Rightarrow> it | Inr block \<Rightarrow> it\<lparr>ItemBlock := Some block\<rparr>)"
proof -
  let ?k = "ItemKey it" and ?i = "unat (ItemIndex it)"
  have i: "?i < length (blocks_of A ?k)" using it by (simp add: item_ok_def)
  then obtain bs where bs: "K ?k = Some bs" using ks [of ?k] by (cases "K ?k") (simp_all add: key_state_def blocks_of_def)
  then obtain ids where a: "A ?k = Some (zip ids (map Vector bs))" "length ids = length bs"
    using ks [of ?k] by (auto simp: key_state_def encoded_blocks_def)
  with i have i': "?i < length bs" "blocks_of A ?k ! ?i = (ids ! ?i, Vector (bs ! ?i))"
    by (simp_all add: blocks_of_def)
  have "VM_GetBlock E n ?k (ItemIndex it) vm = Inr (norm_block ul (bs ! ?i))"
    using VM_GetBlock_rep [OF rep, of n ?k "ItemIndex it"] D bs i'(1) by (simp add: spec_GetBlock_def)
  moreover have "hw_metric (HNSWIndex c) = Metric cfg" using c by (simp add: coll_rep_def vecs_rep_def hw_params_def)
  then have "hw_distance (HNSWIndex c) q v = spec_distance cfg q v" for v
    by (simp add: spec_distance_def hw_distance_def NewHNSWWrapper_def)
  ultimately show ?thesis using it bs i' by (simp add: hit_ok_def item_ok_def)
qed

lemma add_blocks_keys: "map (\<lambda>it. (ItemKey it, ItemIndex it)) (add_blocks E n vm items) = map (\<lambda>it. (ItemKey it, ItemIndex it)) items"
  by (simp add: add_blocks_def split: sum.split)

lemma VM_Search_ok:
  assumes rep: "vm_rep (env_libs E) (env_lower E) vm D" and D: "D n = Some (cfg, K)"
  shows "if of_nat (length q) \<noteq> Dimensions cfg then VM_Search E n q topK mode kws vm = Inl QueryDimensionMismatch
    else \<exists>items. VM_Search E n q topK mode kws vm = Inr items \<and> length items \<le> max (unat topK) 1 \<and>
      distinct (map (\<lambda>it. (ItemKey it, ItemIndex it)) items) \<and> list_all (hit_ok (env_lower E) cfg K q) items"
proof -
  obtain S M where cm: "cm_rep (env_lower E) (vm_collections vm) S" and db: "db_rep (env_lower E) S M D"
    using rep by (auto simp: vm_rep_def)
  obtain A R where s: "S n = Some (cfg, A, R)" and ks: "\<And>k. key_state (env_lower E) k (A k) (M (makeStorageKey n k)) (K k)"
    using db_repD [OF db D] by blast
  obtain c where c: "mget (collections (vm_collections vm)) n = Some c" "coll_rep c A" "Config c = cfg"
    using cm_rep_Some [OF cm s] by (auto simp: coll_state_rep_def)
  show ?thesis
  proof (cases "of_nat (length q) = Dimensions cfg")
    case False
    then show ?thesis
      using c by (simp add: VM_Search_def GetCollection_def Let_def Coll_Search_def hw_Search_def coll_rep_def vecs_rep_def hw_params_def)
  next
    case True
    let ?f = "Some \<lparr>FilterKeys = [], FilterKeywords = kws, KeywordMode = (if mode \<noteq> '''' then mode else ''exact''), MaxDistance = 0\<rparr>"
    obtain items where it: "Coll_Search (env_lower E) c q topK ?f = Inr items" "length items \<le> max (unat topK) 1"
      "distinct (map (\<lambda>it. (ItemKey it, ItemIndex it)) items)"
      "list_all (item_ok c A q (search_filter (env_lower E) c ?f)) items"
      using Coll_Search_items [OF c(2), of q "env_lower E" topK ?f] True c(3) by blast
    have "list_all (hit_ok (env_lower E) cfg K q) (add_blocks E n vm items)"
      using it(4) item_hit [OF rep D ks c(2,3)] by (auto simp: add_blocks_def list_all_iff)
    moreover have "VM_Search E n q topK mode kws vm = Inr (add_blocks E n vm items)"
      using it(1) c(1) by (simp add: VM_Search_def GetCollection_def Let_def)
    moreover have "length (add_blocks E n vm items) = length items" by (simp add: add_blocks_def)
    moreover have "distinct (map (\<lambda>it. (ItemKey it, ItemIndex it)) (add_blocks E n vm items))"
      unfolding add_blocks_keys by (rule it(3))
    ultimately show ?thesis using True it(2) by simp
  qed
qed

subsection \<open>States that can be reached\<close>

text \<open>
  Deleting a key leaves the records behind, so not every state represents a database; the invariant
  of all of them is that every collection and the record store are consistent in themselves.
\<close>

definition vm_ok :: "Libs \<Rightarrow> (string \<Rightarrow> string) \<Rightarrow> VectorManager \<Rightarrow> bool" where
  "vm_ok lib ul vm \<longleftrightarrow> (\<exists>S M. cm_rep ul (vm_collections vm) S \<and> store_view lib (vm_Manager vm) M)"

definition fits_more :: "nat \<Rightarrow> Collection \<Rightarrow> bool" where
  "fits_more m c \<longleftrightarrow> FI_Get (DocMap c) (- 1) = None \<and> unat (GetNextVectorID (DocMap c)) + m \<le> 2 ^ 64 - 1 \<and>
     m \<le> 2 ^ 32 - 1 \<and> list_all (\<lambda>(k, l). unat l + m \<le> 2 ^ 32 - 1) (KeyLengths c)"

lemma fits_more_room:
  assumes "coll_rep c A" and "fits_more m c"
  shows "room_for m c A"
proof -
  have mem: "memory_rep c A" and ok: "spec_ok A" using assms(1) by (simp_all add: coll_rep_def docs_rep_def)
  have "length (blocks_of A k) + m \<le> 2 ^ 32 - 1" for k
  proof (cases "A k")
    case None
    then show ?thesis using assms(2) by (simp add: blocks_of_def fits_more_def)
  next
    case (Some bs)
    then have "mget (KeyLengths c) k = Some (of_nat (length bs))" and wf: "wf_map (KeyLengths c)"
      using mem by (simp_all add: memory_rep_def)
    then have "(k, of_nat (length bs)) \<in> set (KeyLengths c)" using mget_in_set [OF wf] by simp
    moreover have "length bs < 2 ^ 32" using ok Some by (metis blocks_of_def option.simps(5) spec_ok_def)
    then have "unat (of_nat (length bs) :: uint32) = length bs" by (simp add: unat_of_nat_small)
    ultimately show ?thesis using assms(2) Some by (auto simp: fits_more_def list_all_iff blocks_of_def)
  qed
  then show ?thesis using assms(2) by (simp add: room_for_def fits_more_def)
qed

end
