(* ===== verification/Vector_Recovery.thy ===== *)
theory Vector_Recovery
  imports Vector_Manager_Rep
begin

section \<open>Restarts, crashes and reachable states\<close>

text \<open>
  What the files of a database lead to at the next start: after \<^verbatim>\<open>Close\<close> the same database; after a
  crash a recovery that can stop at an entry of the log. The step relation \<open>vm_step\<close> collects the
  operations of the manager, and \<open>vm_ok\<close> is the invariant of every state they reach.
\<close>

subsection \<open>Closing and starting again\<close>

lemma meta_at_saved:
  assumes "mget d p = Some dir" and "mget d' p = Some (saved_dir c dir)" and "\<And>q. q \<noteq> p \<Longrightarrow> mget d' q = mget d q"
  shows "meta_at d' q = meta_at d q"
  using assms by (cases "q = p") (simp_all add: meta_at_def LoadCollectionMeta_def saved_dir_def)

definition save_step :: "CollectionConfig \<Rightarrow> VectorManager \<Rightarrow> VectorManager" where
  "save_step config vm = (case GetCollection (vm_collections vm) (Name config) of
       Inl err \<Rightarrow> vm
     | Inr coll \<Rightarrow>
         let (coll, d, _) = Coll_Save coll (cm_disk (vm_collections vm)) in put_coll (Name config) coll d vm)"

definition all_saveable :: "CollectionManager \<Rightarrow> bool" where
  "all_saveable cm \<longleftrightarrow> (\<forall>n c. mget (collections cm) n = Some c \<longrightarrow> saveable (HNSWIndex c))"

lemma save_step_rep:
  assumes cm: "cm_rep ul (vm_collections vm) S"
  shows "cm_rep ul (vm_collections (save_step config vm)) S \<and> vm_Manager (save_step config vm) = vm_Manager vm \<and>
    cm_basePath (vm_collections (save_step config vm)) = cm_basePath (vm_collections vm) \<and>
    (all_saveable (vm_collections vm) \<longrightarrow> all_saveable (vm_collections (save_step config vm)))"
proof (cases "S (Name config)")
  case None
  then show ?thesis using cm cm_rep_None [OF cm] by (simp add: save_step_def GetCollection_def)
next
  case (Some s)
  let ?cm = "vm_collections vm"
  obtain c where c: "mget (collections ?cm) (Name config) = Some c"
    and cs: "coll_state_rep ul (cm_basePath ?cm) (Name config) c s" using cm_rep_Some [OF cm Some] .
  have base: "coll_basePath c = cm_basePath ?cm @ [Name config]" using cs by (auto simp: coll_state_rep_def)
  obtain dir where dir: "mget (cm_disk ?cm) (coll_basePath c) = Some dir"
    using cm_rep_directory [OF cm Some] base by auto
  obtain d' where sv: "Coll_Save c (cm_disk ?cm) = (c\<lparr>HNSWIndex := fst (hw_Save (HNSWIndex c))\<rparr>, d', None)"
    and d': "mget d' (coll_basePath c) = Some (saved_dir c dir)" "\<And>q. q \<noteq> coll_basePath c \<Longrightarrow> mget d' q = mget (cm_disk ?cm) q"
      "wf_map (cm_disk ?cm) \<longrightarrow> wf_map d'"
    using Coll_Save_ok [OF dir] by blast
  let ?c = "c\<lparr>HNSWIndex := fst (hw_Save (HNSWIndex c))\<rparr>"
  have e: "save_step config vm = put_coll (Name config) ?c d' vm"
    using c sv by (simp add: save_step_def GetCollection_def)
  have "cm_rep ul (set_collection (Name config) ?c d' ?cm) (S(Name config \<mapsto> s))"
    using cm d' meta_at_saved [OF dir d'(1,2)]
    by (intro set_collection_rep [OF cm Some coll_state_saved [OF cs]]) (simp_all add: cm_rep_def)
  moreover have "S(Name config \<mapsto> s) = S" using Some by auto
  ultimately show ?thesis
    using c hw_Save_ok(4) [of "HNSWIndex c"]
    by (auto simp: e set_collection_def all_saveable_def)
qed

lemma Checkpoint_rep:
  assumes "cm_rep ul (vm_collections vm) S"
  shows "cm_rep ul (vm_collections (VM_Checkpoint vm)) S \<and> vm_Manager (VM_Checkpoint vm) = vm_Manager vm \<and>
    cm_basePath (vm_collections (VM_Checkpoint vm)) = cm_basePath (vm_collections vm) \<and>
    (all_saveable (vm_collections vm) \<longrightarrow> all_saveable (vm_collections (VM_Checkpoint vm))) \<and>
    wal_streams (vm_wal (VM_Checkpoint vm)) = [[]]"
proof -
  have "cm_rep ul (vm_collections (fold save_step cs vm)) S \<and> vm_Manager (fold save_step cs vm) = vm_Manager vm \<and>
    cm_basePath (vm_collections (fold save_step cs vm)) = cm_basePath (vm_collections vm) \<and>
    (all_saveable (vm_collections vm) \<longrightarrow> all_saveable (vm_collections (fold save_step cs vm)))" for cs
    using assms
  proof (induction cs arbitrary: vm)
    case (Cons config cs)
    from save_step_rep [OF Cons.prems, of config] Cons.IH [of "save_step config vm"] show ?case by auto
  qed simp
  moreover have "VM_Checkpoint vm = (fold save_step (ListCollections (vm_collections vm)) vm)
      \<lparr>vm_wal := \<lparr>wal_streams = [[]], wal_seqNum = 0\<rparr>\<rparr>"
    by (simp add: VM_Checkpoint_def Let_def save_step_def [abs_def] wal_Checkpoint_def)
  ultimately show ?thesis by simp
qed

lemma restart_state:
  assumes cm: "cm_rep ul (vm_collections vm) S" and sv: "all_saveable (vm_collections vm)"
    and base: "filepath_Join dataPath ''indexes'' = cm_basePath (vm_collections vm)" and ord: "is_order (env_docs (Es 0))"
  shows "\<exists>cm'. cm_rep ul cm' S \<and> NewVectorManager Es dataPath (VM_Close vm) =
    Inr (\<lparr>vm_Manager = NewManager (Mgr_Close (vm_Manager vm)), vm_collections = cm', vm_wal = NewWAL [[]]\<rparr>, None)"
proof -
  let ?vm = "VM_Checkpoint vm"
  note ck = Checkpoint_rep [OF cm]
  obtain cm' where cm': "NewCollectionManager (env_docs (Es 0)) dataPath (cm_disk (fst (CM_Close (vm_collections ?vm)))) = Inr cm'"
    "cm_rep ul cm' S"
    using manager_restart [of ul "vm_collections ?vm" S "env_docs (Es 0)" dataPath] ck sv ord base
    by (auto simp: all_saveable_def)
  with ck show ?thesis
    by (simp add: NewVectorManager_def VM_Close_def Let_def case_prod_beta recoverFromWAL_def wal_Close_def NewWAL_def Replay_def)
qed

lemma VM_restart:
  assumes rep: "vm_rep lib ul vm D" and sv: "all_saveable (vm_collections vm)"
    and base: "filepath_Join dataPath ''indexes'' = cm_basePath (vm_collections vm)" and ord: "is_order (env_docs (Es 0))"
  shows "\<exists>vm'. NewVectorManager Es dataPath (VM_Close vm) = Inr (vm', None) \<and> vm_rep lib ul vm' D"
proof -
  obtain S M where cm: "cm_rep ul (vm_collections vm) S" and st: "store_view lib (vm_Manager vm) M"
    and db: "db_rep ul S M D" using rep by (auto simp: vm_rep_def)
  have "store_view lib (NewManager (Mgr_Close (vm_Manager vm))) M"
    using st restart_after_close unfolding store_view_def by blast
  with restart_state [where Es = Es, OF cm sv base ord] db show ?thesis unfolding vm_rep_def by fastforce
qed

subsection \<open>A crash\<close>

text \<open>
  What a crash leaves: the directories of the collections as they are, the log, and some state of
  the shard files.
\<close>

definition crash_disk :: "(uint32, shard_disk) gomap \<Rightarrow> VectorManager \<Rightarrow> vm_disk" where
  "crash_disk sd vm = \<lparr>shard_files = sd, index_dirs = cm_disk (vm_collections vm), wal_files = wal_streams (vm_wal vm)\<rparr>"

text \<open>A collection whose vector index was flushed and whose other files were never written.\<close>

definition half_loaded :: "string \<Rightarrow> Collection \<Rightarrow> CollectionConfig \<times> (uint64 \<rightharpoonup> float32 list) \<Rightarrow> bool" where
  "half_loaded n c s \<longleftrightarrow> (case s of (cfg, vecs) \<Rightarrow> DocMap c = NewForwardIndex \<and> KeyLengths c = [] \<and>
     hw_dimensions (HNSWIndex c) = Dimensions cfg \<and> vector_of (HNSWIndex c) = vecs)"

lemma load_half:
  assumes dir: "mget (cm_disk cm) (cm_basePath cm @ [n]) = Some (dir\<lparr>vectors_hnsw := Some (snd (hw_Save hw))\<rparr>)"
    and no: "doc_map_bin dir = NoFile" "keywords_inv dir = NoFile"
    and hw: "hnsw_ok hw" "saveable hw" "hw_params hw = (Dimensions cfg, Metric cfg, 16, 200, 100)"
    and n: "plain_name n" "Name cfg = n" and ord: "is_order ord"
  shows "\<exists>c. loadCollection ord (meta_of cfg) cm = Inr c \<and> half_loaded n c (cfg, vector_of hw)"
proof -
  let ?new = "NewHNSWWrapper (Dimensions cfg) (Metric cfg)"
  have "hw_params ?new = hw_params hw" "hw_nodes ?new = []" by (simp_all add: hw(3)) (simp_all add: hw_params_def NewHNSWWrapper_def)
  then obtain hw' where hw': "hw_Load (Some (snd (hw_Save hw))) ?new = (hw', None)" "hw_params hw' = hw_params hw"
    "vector_of hw' = vector_of hw" using Load_Save_ok [OF hw(1,2)] by blast
  have "ord [] = []" using ord unfolding is_order_def by (metis mset_zero_iff)
  then show ?thesis
    using dir no hw'(1,2) n hw(3)
    by (simp add: loadCollection_def Let_def meta_of_def Join_plain II_Load_def FI_Load_def rebuildMemoryIndexes_def
        half_loaded_def NewForwardIndex_def hw'(3)) (simp add: hw_params_def)
qed

lemma docs_rep_empty: "docs_rep fi Map.empty \<Longrightarrow> GetNextVectorID fi = 1"
proof -
  assume d: "docs_rep fi Map.empty"
  then have "FI_Get fi v = None" for v by (cases "FI_Get fi v") (simp_all add: docs_rep_def located_def)
  then have "mget (mapping fi) (fst (hd (mapping fi))) = None" by (simp add: FI_Get_def)
  then have "mapping fi = []" by (cases "mapping fi") auto
  then show ?thesis by (simp add: GetNextVectorID_def)
qed

lemma start_half:
  assumes meta: "\<And>x. meta_at d (base @ [x]) = (if x = n then Some (meta_of cfg) else None)"
    and dir: "mget d (base @ [n]) = Some (dir\<lparr>vectors_hnsw := Some (snd (hw_Save hw))\<rparr>)"
    and no: "doc_map_bin dir = NoFile" "keywords_inv dir = NoFile"
    and hw: "hnsw_ok hw" "saveable hw" "hw_params hw = (Dimensions cfg, Metric cfg, 16, 200, 100)"
    and n: "plain_name n" "Name cfg = n" and ord: "is_order ord" and b: "filepath_Join dataPath ''indexes'' = base"
  shows "\<exists>cm c. NewCollectionManager ord dataPath d = Inr cm \<and> mget (collections cm) n = Some c \<and>
    half_loaded n c (cfg, vector_of hw)"
proof -
  let ?d = "MkdirAll base d" and ?S = "[n \<mapsto> (cfg, vector_of hw)]"
  let ?cm = "\<lparr>collections = [], cm_basePath = base, cm_disk = ?d\<rparr>"
  have m: "meta_at (cm_disk ?cm) (base @ [x]) = map_option (\<lambda>s. meta_of (fst s)) (?S x)" for x
    using meta [of x] by (simp add: meta_at_empty)
  have "mget (cm_disk ?cm) (cm_basePath ?cm @ [n]) = Some (dir\<lparr>vectors_hnsw := Some (snd (hw_Save hw))\<rparr>)"
    using dir by (simp add: mget_MkdirAll_below)
  from load_half [OF this no hw n ord] n(2)
  have l: "Name (fst s) = x \<and> (\<exists>c. loadCollection ord (meta_of (fst s)) ?cm = Inr c \<and> half_loaded x c s)"
    if "?S x = Some s" for x s using that by (auto split: if_splits)
  have "base @ [n] \<in> set (ReadDir base ?d)" using dir by (simp add: set_ReadDir mget_MkdirAll_below)
  then obtain cs where "load_dirs ord (ReadDir base ?d) ?cm = (?cm\<lparr>collections := cs\<rparr>, None)"
    "rel_option (half_loaded n) (mget cs n) (?S n)"
    using load_dirs_ok [of "ReadDir base ?d" base ?cm ?S ord half_loaded, OF _ m l] by (auto simp: set_ReadDir dest: spec [of _ n])
  then show ?thesis
    by (auto simp: NewCollectionManager_def b loadExistingCollections_def option_rel_Some2)
qed

text \<open>What the first append to a new collection leaves on disk and in the vector index.\<close>

lemma first_append_disk:
  assumes rep: "vm_rep (env_libs E) (env_lower E) vm [n \<mapsto> (cfg, Map.empty)]" and room: "vm_room (Suc m) vm [n \<mapsto> (cfg, Map.empty)]"
    and acc: "block_acceptable (env_libs E) (env_lower E) n cfg k b"
    and dir: "mget (cm_disk (vm_collections vm)) (cm_basePath (vm_collections vm) @ [n]) = Some dir"
  obtains vm1 i hw c' where "VM_AppendBlock E n k b vm = (vm1, i, None)" and "vm_wal vm1 = wal_log (logged_add E n k b) (vm_wal vm)"
    and "mget (collections (vm_collections vm1)) n = Some c'" and "HNSWIndex c' = hw" and "vecs_rep cfg hw (add_block k (1, Vector b) Map.empty)"
    and "plain_name n" and "Name cfg = n"
    and "cm_disk (vm_collections vm1) = mput (cm_basePath (vm_collections vm) @ [n])
       (dir\<lparr>vectors_hnsw := Some (snd (hw_Save hw))\<rparr>) (cm_disk (vm_collections vm))"
    and "\<And>x. meta_at (cm_disk (vm_collections vm1)) (cm_basePath (vm_collections vm) @ [x]) = (if x = n then Some (meta_of cfg) else None)"
proof -
  let ?D = "[n \<mapsto> (cfg, Map.empty)]" and ?base = "cm_basePath (vm_collections vm)"
  obtain S M where cm: "cm_rep (env_lower E) (vm_collections vm) S" and st: "store_view (env_libs E) (vm_Manager vm) M"
    and db: "db_rep (env_lower E) S M ?D" using rep by (auto simp: vm_rep_def)
  have D: "?D n = Some (cfg, Map.empty)" by simp
  obtain A R where s: "S n = Some (cfg, A, R)"
    and ks: "\<And>k. key_state (env_lower E) k (A k) (M (makeStorageKey n k)) None" using db_repD [OF db D] by auto
  then have A: "A = Map.empty" by (auto simp: key_state_def)
  obtain c where c: "mget (collections (vm_collections vm)) n = Some c"
    and cs: "coll_state_rep (env_lower E) ?base n c (cfg, A, R)" using cm_rep_Some [OF cm s] .
  have v: "1 = GetNextVectorID (DocMap c)" using cs A docs_rep_empty by (simp add: coll_state_rep_def coll_rep_def)
  have "GetCollection (vm_collections vm) n = Inr c" using c by (simp add: GetCollection_def)
  note cr = room_for_coll_room [OF vm_room_collection [OF room D this ks]]
  obtain vm1 c' p R' where 1: "VM_AppendBlock E n k b vm = (vm1, of_nat (length (blocks_of A k)), None)"
    "EncodeEntry (env_lower E) (block_entry k 1 b) = Inr p"
    "cm_rep (env_lower E) (vm_collections vm1) (S(n \<mapsto> (cfg, add_block k (1, Vector b) A, R')))"
    "store_view (env_libs E) (vm_Manager vm1) (spec_append (makeStorageKey n k, p) M)"
    "collections (vm_collections vm1) = mput n c' (collections (vm_collections vm))"
    "\<forall>m. room_for (Suc m) c A \<longrightarrow> room_for m c' (add_block k (1, Vector b) A)"
    "vm_wal vm1 = wal_log (logged_add E n k b) (vm_wal vm)"
    "cm_disk (vm_collections vm1) = mput (?base @ [n])
       (dir\<lparr>vectors_hnsw := Some (snd (hw_Save (HNSWIndex c')))\<rparr>) (cm_disk (vm_collections vm))"
    using VM_AppendBlock_step [OF cm st s c cr acc v dir] .
  have c': "mget (collections (vm_collections vm1)) n = Some c'" using 1(5) by simp
  have "coll_state_rep (env_lower E) (cm_basePath (vm_collections vm1)) n c' (cfg, add_block k (1, Vector b) A, R')"
    using cm_rep_Some [OF 1(3) fun_upd_same] c' by (metis option.inject)
  then have vr: "vecs_rep cfg (HNSWIndex c') (add_block k (1, Vector b) Map.empty)" "plain_name n" "Name cfg = n"
    by (auto simp: coll_state_rep_def coll_rep_def A)
  have "meta_at (cm_disk (vm_collections vm1)) (?base @ [x]) = (if x = n then Some (meta_of cfg) else None)" for x
  proof -
    have "meta_at (cm_disk (vm_collections vm1)) (?base @ [x]) = meta_at (cm_disk (vm_collections vm)) (?base @ [x])"
      using dir by (simp add: 1(8) meta_at_def LoadCollectionMeta_def)
    also have "\<dots> = map_option (\<lambda>s. meta_of (fst s)) (S x)" using cm by (simp add: cm_rep_def)
    finally show ?thesis using s db_rep_None [OF db, of x] by auto
  qed
  then show thesis by (rule that [OF 1(1,7) c' refl vr 1(8)])
qed

text \<open>The replayed append finds its id in the vector index and not in the forward index.\<close>

lemma half_loaded_append:
  assumes "half_loaded n c (cfg, vecs)" and "vecs 1 = Some vec" and "Vector b \<noteq> []" and "of_nat (length (Vector b)) = Dimensions cfg"
  shows "Coll_AppendBlock ul r k b c = (c, Inl (Wrapped ''failed to add vector'' VectorExists))" and "\<not> Coll_ContainsKey c k"
proof -
  have id: "GetNextVectorID (DocMap c) = 1"
    using assms(1) by (simp add: half_loaded_def NewForwardIndex_def GetNextVectorID_def)
  have "hw_Add r 1 (Vector b) (HNSWIndex c) = (HNSWIndex c, Some VectorExists)"
    using assms(1,2,4) by (auto simp: half_loaded_def hw_Add_def addUnlocked_rejects node_ids_vector)
  with id assms(3) show "Coll_AppendBlock ul r k b c = (c, Inl (Wrapped ''failed to add vector'' VectorExists))"
    by (simp add: Coll_AppendBlock_def)
  show "\<not> Coll_ContainsKey c k" using assms(1) by (simp add: half_loaded_def Coll_ContainsKey_def)
qed

lemma crash_recovery:
  assumes rep: "vm_rep (env_libs E) (env_lower E) vm [n \<mapsto> (cfg, Map.empty)]" and room: "vm_room (Suc m) vm [n \<mapsto> (cfg, Map.empty)]"
    and acc: "block_acceptable (env_libs E) (env_lower E) n cfg k b" and vec: "Vector b \<noteq> []"
    and dir: "mget (cm_disk (vm_collections vm)) (cm_basePath (vm_collections vm) @ [n]) = Some dir"
    and no: "doc_map_bin dir = NoFile" "keywords_inv dir = NoFile"
    and log: "session (vm_wal vm) old []" "list_all (\<lambda>s. s = []) old"
    and app: "VM_AppendBlock E n k b vm = (vm', i, err)" and sv: "all_saveable (vm_collections vm')"
    and base: "filepath_Join dataPath ''indexes'' = cm_basePath (vm_collections vm)" and ord: "is_order (env_docs (Es 0))"
  shows "err = None \<and> (\<exists>vm''. NewVectorManager Es dataPath (crash_disk sd vm') =
      Inr (vm'', Some (Wrapped ''failed to add vector'' VectorExists)) \<and> VM_ContainsKey n k vm'' = Inr False)"
proof (rule first_append_disk [OF rep room acc dir])
  fix vm1 j hw c'
  assume 1: "VM_AppendBlock E n k b vm = (vm1, j, None)" "vm_wal vm1 = wal_log (logged_add E n k b) (vm_wal vm)"
    and c': "mget (collections (vm_collections vm1)) n = Some c'" "HNSWIndex c' = hw"
    and vr: "vecs_rep cfg hw (add_block k (1, Vector b) Map.empty)" and n: "plain_name n" "Name cfg = n"
    and disk: "cm_disk (vm_collections vm1) = mput (cm_basePath (vm_collections vm) @ [n])
       (dir\<lparr>vectors_hnsw := Some (snd (hw_Save hw))\<rparr>) (cm_disk (vm_collections vm))"
    and meta: "\<And>x. meta_at (cm_disk (vm_collections vm1)) (cm_basePath (vm_collections vm) @ [x]) = (if x = n then Some (meta_of cfg) else None)"
  have e: "vm' = vm1" "err = None" using app 1(1) by simp_all
  have ok: "hnsw_ok hw" "hw_params hw = (Dimensions cfg, Metric cfg, 16, 200, 100)" using vr by (simp_all add: vecs_rep_def)
  have "holds_vector (add_block k (1, Vector b) Map.empty) 1 (Vector b)"
    using vec by (auto simp: holds_vector_def intro!: exI [of _ k])
  with vr have has: "vector_of hw 1 = Some (Vector b)" by (simp add: vecs_rep_def)
  have sv': "saveable hw" using sv c' unfolding all_saveable_def e by blast
  have d: "mget (cm_disk (vm_collections vm1)) (cm_basePath (vm_collections vm) @ [n]) = Some (dir\<lparr>vectors_hnsw := Some (snd (hw_Save hw))\<rparr>)"
    using disk by simp
  obtain cm2 c3 where 2: "NewCollectionManager (env_docs (Es 0)) dataPath (cm_disk (vm_collections vm1)) = Inr cm2"
    "mget (collections cm2) n = Some c3" "half_loaded n c3 (cfg, vector_of hw)"
    using start_half [OF meta d no ok(1) sv' ok(2) n ord base] by blast
  have rp: "Replay (NewWAL (wal_streams (vm_wal vm1))) = [logged_add E n k b]"
    using log 1(2) by (simp add: Replay_def NewWAL_def session_def decode_streams_append wal_log_def)
  have "of_nat (length (Vector b)) = Dimensions cfg" using acc vec by (simp add: block_acceptable_def)
  from half_loaded_append [OF 2(3) has vec this] 2(1,2) rp show ?thesis
    by (cases b) (auto simp: e NewVectorManager_def crash_disk_def recoverFromWAL_def logged_add_def wal_ops Let_def VM_AppendBlock_def
        GetCollection_def put_coll_def set_collection_def VM_ContainsKey_def)
qed

definition room_in :: "nat \<Rightarrow> VectorManager \<Rightarrow> string \<Rightarrow> bool" where
  "room_in m vm n \<longleftrightarrow> (case GetCollection (vm_collections vm) n of Inl err \<Rightarrow> True | Inr c \<Rightarrow> fits_more m c)"

inductive vm_step :: "Libs \<Rightarrow> (string \<Rightarrow> string) \<Rightarrow> VectorManager \<Rightarrow> VectorManager \<Rightarrow> bool" for lib ul where
  create: "plain_name n \<Longrightarrow> vm_step lib ul vm (fst (VM_CreateCollection n d me vm))"
| drop: "env_libs E = lib \<Longrightarrow> vm_step lib ul vm (fst (VM_DeleteCollection E n vm))"
| append: "env_libs E = lib \<Longrightarrow> env_lower E = ul \<Longrightarrow> valid_keywords ul (BlockKeywords b) \<Longrightarrow> room_in 1 vm n \<Longrightarrow>
    vm_step lib ul vm (fst (VM_AppendBlock E n k b vm))"
| batch: "env_libs E = lib \<Longrightarrow> env_lower E = ul \<Longrightarrow> is_order (env_batch E) \<Longrightarrow> xs \<noteq> [] \<Longrightarrow>
    GetCollection (vm_collections vm) n = Inr c \<Longrightarrow> fits_more (length xs) c \<Longrightarrow>
    list_all (\<lambda>(k, b). block_acceptable lib ul n (Config c) k b) xs \<Longrightarrow>
    vm_step lib ul vm (fst (VM_BatchAppendBlocks E n (map fst xs) (map snd xs) vm))"
| delete: "is_order (env_nodes E) \<Longrightarrow> vm_step lib ul vm (fst (VM_DeleteKey E n k vm))"
| checkpoint: "vm_step lib ul vm (VM_Checkpoint vm)"
| restart: "all_saveable (vm_collections vm) \<Longrightarrow> filepath_Join p ''indexes'' = cm_basePath (vm_collections vm) \<Longrightarrow>
    is_order (env_docs (Es 0)) \<Longrightarrow> NewVectorManager Es p (VM_Close vm) = Inr (vm', err) \<Longrightarrow> vm_step lib ul vm vm'"

lemma vm_ok_wal [simp]: "vm_ok lib ul (vm\<lparr>vm_wal := w\<rparr>) = vm_ok lib ul vm"
  by (simp add: vm_ok_def)

lemma vm_ok_put_coll:
  assumes "cm_rep ul (vm_collections vm) S" and "S n = Some s" and "coll_state_rep ul (cm_basePath (vm_collections vm)) n c s'"
    and "fst s' = fst s" and "store_view lib m M" and "wf_map d"
    and "\<And>n. meta_at d (cm_basePath (vm_collections vm) @ [n]) = meta_at (cm_disk (vm_collections vm)) (cm_basePath (vm_collections vm) @ [n])"
  shows "vm_ok lib ul ((put_coll n c d vm)\<lparr>vm_Manager := m\<rparr>)"
  using set_collection_rep [OF assms(1,2,3,4,6,7)] assms(5) by (auto simp: vm_ok_def)

text \<open>Both ends of an accepted append leave a state of the invariant, whatever the record store holds.\<close>

lemma append_put_ok:
  assumes cm: "cm_rep ul (vm_collections vm) S" and s: "S n = Some (cfg, A, R)"
    and cs: "coll_state_rep ul (cm_basePath (vm_collections vm)) n c (cfg, A', R')" and st: "store_view lib m M"
  shows "vm_ok lib ul ((put_coll n c (cm_disk (vm_collections vm)) vm)\<lparr>vm_Manager := m\<rparr>)"
    and "\<exists>c' d'. Coll_FlushHNSW c (cm_disk (vm_collections vm)) = (c', d', None) \<and> vm_ok lib ul ((put_coll n c' d' vm)\<lparr>vm_Manager := m\<rparr>)"
proof -
  let ?cm = "vm_collections vm"
  have wf: "wf_map (cm_disk ?cm)" using cm by (simp add: cm_rep_def)
  show "vm_ok lib ul ((put_coll n c (cm_disk (vm_collections vm)) vm)\<lparr>vm_Manager := m\<rparr>)"
    using vm_ok_put_coll [OF cm s cs _ st wf] by simp
  have base: "coll_basePath c = cm_basePath ?cm @ [n]" using cs by (simp add: coll_state_rep_def)
  obtain dir where dir: "mget (cm_disk ?cm) (coll_basePath c) = Some dir" using cm_rep_directory [OF cm s] base by auto
  obtain d' where "Coll_FlushHNSW c (cm_disk ?cm) = (c\<lparr>HNSWIndex := fst (hw_Save (HNSWIndex c))\<rparr>, d', None)"
    "\<And>p. meta_at d' p = meta_at (cm_disk ?cm) p" "wf_map d'" using Coll_FlushHNSW_ok [OF dir] wf by auto
  with vm_ok_put_coll [OF cm s coll_state_saved [OF cs] _ st, of d']
  show "\<exists>c' d'. Coll_FlushHNSW c (cm_disk ?cm) = (c', d', None) \<and> vm_ok lib ul ((put_coll n c' d' vm)\<lparr>vm_Manager := m\<rparr>)" by simp
qed

lemma Mgr_Append_view: "store_view lib m M \<Longrightarrow> \<exists>M'. store_view lib (fst (Mgr_Append lib k p m)) M'"
  using shards.put_accepted [of lib m M k p] shards.put_rejected [of lib m M k p]
  by (cases "append_accepts lib k p") auto

lemma append_step_keeps:
  assumes ok: "vm_ok (env_libs E) (env_lower E) vm" and kws: "valid_keywords (env_lower E) (BlockKeywords b)"
    and room: "room_in 1 vm n"
  shows "vm_ok (env_libs E) (env_lower E) (fst (VM_AppendBlock E n k b vm))"
proof (cases "mget (collections (vm_collections vm)) n")
  case None
  with ok show ?thesis by (simp add: VM_AppendBlock_def GetCollection_def)
next
  case (Some c)
  obtain S M where cm: "cm_rep (env_lower E) (vm_collections vm) S" and st: "store_view (env_libs E) (vm_Manager vm) M"
    using ok by (auto simp: vm_ok_def)
  obtain cfg A R where s: "S n = Some (cfg, A, R)" using cm_rep_None [OF cm, of n] Some by (cases "S n") auto
  have cs: "coll_state_rep (env_lower E) (cm_basePath (vm_collections vm)) n c (cfg, A, R)"
    using cm_rep_Some [OF cm s] Some by (metis option.inject)
  then have rep: "coll_rep c A" by (simp add: coll_state_rep_def)
  let ?vm = "vm\<lparr>vm_wal := LogAdd (env_now E) n k 0 (Vector b) (BlockKeywords b) (bytes_of_string (Primary b)) (vm_wal vm)\<rparr>"
  show ?thesis
  proof (cases "block_fits c b")
    case False
    from AppendBlock_rejects [OF rep this] Some ok show ?thesis
      by (simp add: VM_AppendBlock_def GetCollection_def Let_def put_coll_def set_collection_same)
  next
    case True
    have "room_for 1 c A" using fits_more_room [OF rep] room Some by (simp add: room_in_def GetCollection_def)
    then have cr: "coll_room c A" using room_for_coll_room [of 0] by simp
    obtain c1 R' where a: "Coll_AppendBlock (env_lower E) (env_rnd E 0) k b c = (c1, Inr (of_nat (length (blocks_of A k))))"
      and vid: "GetBlockVectorID c1 k (of_nat (length (blocks_of A k))) = Inr (GetNextVectorID (DocMap c))"
      and cs1: "coll_state_rep (env_lower E) (cm_basePath (vm_collections vm)) n c1 (cfg, add_block k (GetNextVectorID (DocMap c), Vector b) A, R')"
      and "\<forall>m. room_for (Suc m) c A \<longrightarrow> room_for m c1 (add_block k (GetNextVectorID (DocMap c), Vector b) A)"
      using append_phase [OF cs cr True kws refl] .
    note put = append_put_ok [of _ ?vm, simplified, OF cm s cs1]
    show ?thesis
    proof (cases "EncodeEntry (env_lower E) (block_entry k (GetNextVectorID (DocMap c)) b)")
      case (Inl err)
      with put(1) [OF st] Some a vid show ?thesis by (simp add: VM_AppendBlock_def GetCollection_def Let_def put_coll_def)
    next
      case (Inr p)
      obtain m err where m: "Mgr_Append (env_libs E) (makeStorageKey n k) p (vm_Manager vm) = (m, err)" by fastforce
      obtain M' where "store_view (env_libs E) m M'" using Mgr_Append_view [OF st, of "makeStorageKey n k" p] m by auto
      from put [OF this] Some a vid Inr m show ?thesis
        by (cases err) (auto simp: VM_AppendBlock_def GetCollection_def Let_def put_coll_def set_collection_def mput_twice vm_ok_def)
    qed
  qed
qed

lemma delete_keeps:
  assumes ok: "vm_ok lib ul vm" and ord: "is_order (env_nodes E)"
  shows "vm_ok lib ul (fst (VM_DeleteKey E n k vm))"
proof (cases "mget (collections (vm_collections vm)) n")
  case None
  with ok show ?thesis by (simp add: VM_DeleteKey_def GetCollection_def)
next
  case (Some c)
  let ?cm = "vm_collections vm" and ?c = "fst (Coll_DeleteKey (env_nodes E) k c)"
  obtain S M where cm: "cm_rep ul ?cm S" and st: "store_view lib (vm_Manager vm) M" using ok by (auto simp: vm_ok_def)
  obtain s where "S n = Some s" using cm_rep_None [OF cm, of n] Some by auto
  then obtain cfg A R where s: "S n = Some (cfg, A, R)" by (cases s) auto
  have cs: "coll_state_rep ul (cm_basePath ?cm) n c (cfg, A, R)" using cm_rep_Some [OF cm s] Some by (metis option.inject)
  have rep: "coll_rep c A" using cs by (simp add: coll_state_rep_def)
  have "coll_rep ?c (A(k := None))"
  proof (cases "A k")
    case None
    then have "A(k := None) = A" by auto
    with rep None DeleteKey_missing [of c A k "env_nodes E"] show ?thesis by (simp add: coll_rep_def)
  qed (use coll.delete_ok [OF rep ord] in simp)
  then have "coll_state_rep ul (cm_basePath ?cm) n ?c (cfg, A(k := None), R)"
    using cs DeleteKey_frame [of "env_nodes E" k c] by (simp add: coll_state_rep_def)
  from set_collection_rep [OF cm s this, of "cm_disk ?cm"] cm
  have "cm_rep ul (set_collection n ?c (cm_disk ?cm) ?cm) (S(n \<mapsto> (cfg, A(k := None), R)))" by (simp add: cm_rep_def)
  with Some st show ?thesis
    by (auto simp: VM_DeleteKey_def GetCollection_def Let_def case_prod_beta vm_ok_def)
qed

lemma create_keeps:
  assumes ok: "vm_ok lib ul vm" and n: "plain_name n"
  shows "vm_ok lib ul (fst (VM_CreateCollection n d me vm))"
proof -
  obtain S M where cm: "cm_rep ul (vm_collections vm) S" and st: "store_view lib (vm_Manager vm) M" using ok by (auto simp: vm_ok_def)
  have "\<exists>S'. cm_rep ul (fst (CreateCollection n d me (vm_collections vm))) S'"
  proof (cases "S n")
    case None
    with CreateCollection_ok [OF cm None n, of d me] CreateCollection_rejects [OF cm, of n d me] cm show ?thesis
      by (cases "ValidateCollectionConfig \<lparr>Name = n, Dimensions = d, Metric = me\<rparr>") auto
  next
    case (Some s)
    with cm CreateCollection_rejects [OF cm, of n d me] show ?thesis by auto
  qed
  with st show ?thesis by (auto simp: vm_ok_def VM_CreateCollection_def case_prod_beta)
qed

lemma drop_keeps:
  assumes ok: "vm_ok (env_libs E) ul vm"
  shows "vm_ok (env_libs E) ul (fst (VM_DeleteCollection E n vm))"
proof -
  obtain S M where cm: "cm_rep ul (vm_collections vm) S" and st: "store_view (env_libs E) (vm_Manager vm) M"
    using ok by (auto simp: vm_ok_def)
  show ?thesis
  proof (cases "mget (collections (vm_collections vm)) n")
    case None
    with ok show ?thesis by (simp add: VM_DeleteCollection_def GetCollection_def CM_DeleteCollection_def)
  next
    case (Some c)
    then have "S n \<noteq> None" using cm_rep_None [OF cm, of n] by simp
    then have "cm_rep ul (fst (CM_DeleteCollection n (vm_collections vm))) (S(n := None))" using DeleteCollection_ok [OF cm] by auto
    with purge_keys [OF st, of n "Coll_ListKeys c"] Some show ?thesis
      by (auto simp: VM_DeleteCollection_def GetCollection_def Let_def case_prod_beta vm_ok_def)
  qed
qed

lemma batch_keeps:
  assumes ok: "vm_ok (env_libs E) (env_lower E) vm" and ord: "is_order (env_batch E)" and ne: "xs \<noteq> []"
    and c: "GetCollection (vm_collections vm) n = Inr c" and fit: "fits_more (length xs) c"
    and acc: "list_all (\<lambda>(k, b). block_acceptable (env_libs E) (env_lower E) n (Config c) k b) xs"
  shows "vm_ok (env_libs E) (env_lower E) (fst (VM_BatchAppendBlocks E n (map fst xs) (map snd xs) vm))"
proof -
  obtain S M where cm: "cm_rep (env_lower E) (vm_collections vm) S" and st: "store_view (env_libs E) (vm_Manager vm) M"
    using ok by (auto simp: vm_ok_def)
  have c': "mget (collections (vm_collections vm)) n = Some c" using c by (simp add: GetCollection_def split: option.splits)
  obtain s where "S n = Some s" using cm_rep_None [OF cm, of n] c' by auto
  then obtain cfg A R where s: "S n = Some (cfg, A, R)" by (cases s) auto
  have "coll_rep c A" "Config c = cfg" using cm_rep_Some [OF cm s] c' by (auto simp: coll_state_rep_def)
  with VM_Batch_step [OF cm st s c' fits_more_room [OF _ fit] ne _ refl ord refl] acc show ?thesis
    by (fastforce simp: vm_ok_def)
qed

lemma restart_keeps:
  assumes ok: "vm_ok lib ul vm" and sv: "all_saveable (vm_collections vm)"
    and base: "filepath_Join p ''indexes'' = cm_basePath (vm_collections vm)" and ord: "is_order (env_docs (Es 0))"
    and new: "NewVectorManager Es p (VM_Close vm) = Inr (vm', err)"
  shows "vm_ok lib ul vm'"
proof -
  obtain S M where cm: "cm_rep ul (vm_collections vm) S" and st: "store_view lib (vm_Manager vm) M" using ok by (auto simp: vm_ok_def)
  obtain cm' where "cm_rep ul cm' S"
    "NewVectorManager Es p (VM_Close vm) = Inr (\<lparr>vm_Manager = NewManager (Mgr_Close (vm_Manager vm)), vm_collections = cm', vm_wal = NewWAL [[]]\<rparr>, None)"
    using restart_state [where Es = Es, OF cm sv base ord] by blast
  moreover have "store_view lib (NewManager (Mgr_Close (vm_Manager vm))) M"
    using st restart_after_close unfolding store_view_def by blast
  ultimately show ?thesis using new by (auto simp: vm_ok_def)
qed

lemma vm_step_ok: "vm_step lib ul vm vm' \<Longrightarrow> vm_ok lib ul vm \<Longrightarrow> vm_ok lib ul vm'"
proof (induction rule: vm_step.induct)
  case (create n vm d me)
  then show ?case by (intro create_keeps)
next
  case (drop E vm n)
  then show ?case using drop_keeps [of E ul vm n] by simp
next
  case (append E b vm n k)
  then show ?case using append_step_keeps [of E vm b n k] by simp
next
  case (batch E xs vm n c)
  then show ?case using batch_keeps [of E vm xs n c] by simp
next
  case (delete E vm n k)
  then show ?case by (intro delete_keeps)
next
  case (checkpoint vm)
  then show ?case using Checkpoint_rep by (fastforce simp: vm_ok_def)
next
  case (restart vm p Es vm' err)
  then show ?case by (intro restart_keeps [OF restart.prems restart.hyps])
qed

lemma vm_steps_ok: "(vm_step lib ul)\<^sup>*\<^sup>* vm vm' \<Longrightarrow> vm_ok lib ul vm \<Longrightarrow> vm_ok lib ul vm'"
  by (induction rule: rtranclp_induct) (auto intro: vm_step_ok)

lemma NewVectorManager_fresh:
  assumes "zstd_ok lib"
  shows "\<exists>vm. NewVectorManager Es p \<lparr>shard_files = [], index_dirs = [], wal_files = []\<rparr> = Inr (vm, None) \<and>
    vm_rep lib ul vm Map.empty \<and> cm_basePath (vm_collections vm) = filepath_Join p ''indexes'' \<and> collections (vm_collections vm) = []"
proof -
  let ?b = "filepath_Join p ''indexes''"
  let ?vm = "\<lparr>vm_Manager = NewManager [], vm_collections = \<lparr>collections = [], cm_basePath = ?b, cm_disk = MkdirAll ?b []\<rparr>,
     vm_wal = NewWAL []\<rparr>"
  have "NewVectorManager Es p \<lparr>shard_files = [], index_dirs = [], wal_files = []\<rparr> = Inr (?vm, None)"
    by (simp add: NewVectorManager_def NewCollectionManager_fresh recoverFromWAL_def Replay_def NewWAL_def)
  moreover have "store_view lib (NewManager []) Map.empty" using NewManager_empty assms by (auto simp: store_view_def)
  then have "vm_rep lib ul ?vm Map.empty"
    unfolding vm_rep_def using cm_rep_fresh by (intro exI [of _ Map.empty]) (auto simp: db_rep_def)
  ultimately show ?thesis by auto
qed

lemma vm_rep_ok: "vm_rep lib ul vm D \<Longrightarrow> vm_ok lib ul vm"
  by (auto simp: vm_rep_def vm_ok_def)

lemma vm_ok_blocks:
  assumes ok: "vm_ok lib ul vm" and c: "GetCollection (vm_collections vm) n = Inr c"
    and l: "Coll_GetKeyLength c k = Inr l" and i: "i < l"
  shows "\<exists>v. GetBlockVectorID c k i = Inr v \<and> FI_Get (DocMap c) v = Some \<lparr>LocKey = k, LocIndex = i\<rparr>"
proof -
  obtain S where cm: "cm_rep ul (vm_collections vm) S" using ok by (auto simp: vm_ok_def)
  have c': "mget (collections (vm_collections vm)) n = Some c" using c by (simp add: GetCollection_def split: option.splits)
  obtain s where s: "S n = Some s" using cm_rep_None [OF cm, of n] c' by auto
  obtain A where rep: "coll_rep c A" using cm_rep_Some [OF cm s] c' by (auto simp: coll_state_rep_def split: prod.splits)
  then have mem: "memory_rep c A" and doc: "docs_rep (DocMap c) A" by (simp_all add: coll_rep_def)
  obtain bs where bs: "A k = Some bs" "l = of_nat (length bs)"
    using l GetKeyLength_rep [OF mem, of k] by (auto split: option.splits)
  have "unat l \<le> length bs" by (simp add: bs unat_of_nat)
  with i have "unat i < length bs" by (meson less_le_trans word_less_nat_alt)
  then show ?thesis
    using GetBlockVectorID_rep [OF rep, of k i] bs doc by (auto simp: docs_rep_def located_def blocks_of_def)
qed

end
