(* ===== verification/Vector_Properties.thy ===== *)
theory Vector_Properties
  imports Vector_Recovery
begin

section \<open>Properties of the vector manager\<close>

text \<open>
  The theorems about \<^verbatim>\<open>vector_manager.go\<close>, with a concrete database for their witnesses: refinement
  of the database, batches, searches, restart, recovery, the invariant, and the behaviours in which
  the manager does not do what its callers expect.
\<close>

text \<open>A database with one empty collection, for the witnesses.\<close>

definition sample_env :: Env where
  "sample_env = \<lparr>env_libs = sample_lib, env_lower = id, env_rnd = \<lambda>_ _. False, env_now = 0,
     env_nodes = (\<lambda>m. m), env_docs = (\<lambda>m. m), env_batch = (\<lambda>m. m)\<rparr>"

definition sample_vm :: VectorManager where
  "sample_vm = \<lparr>vm_Manager = NewManager [], vm_collections = sample_cm, vm_wal = NewWAL []\<rparr>"

definition sample_db :: db where
  "sample_db = [''docs'' \<mapsto> (sample_config, Map.empty)]"

definition text_block :: "string \<Rightarrow> BlockData" where
  "text_block s = \<lparr>Primary = s, Vector = [f_one], BlockKeywords = []\<rparr>"

lemma sample_env_fields [simp]:
  "env_libs sample_env = sample_lib" "env_lower sample_env = id" "is_order (env_nodes sample_env)"
  "is_order (env_docs sample_env)" "is_order (env_batch sample_env)"
  by (simp_all add: sample_env_def is_order_id)

lemma sample_vm_rep: "vm_rep sample_lib id sample_vm sample_db"
proof -
  have "store_view sample_lib (NewManager []) Map.empty" using NewManager_empty sample_lib_ok by (auto simp: store_view_def)
  moreover have "db_rep id [''docs'' \<mapsto> (sample_config, Map.empty, {})] Map.empty sample_db"
    by (intro db_repI) (auto simp: sample_db_def key_state_def split: if_splits)
  ultimately show ?thesis
    unfolding vm_rep_def using sample_cm_rep by (auto simp: sample_vm_def)
qed

lemma sample_cm_fields:
  "collections sample_cm = [(''docs'', empty_coll sample_config [''data'', ''indexes'', ''docs''])]"
  "cm_basePath sample_cm = [''data'', ''indexes'']"
  "mget (cm_disk sample_cm) [''data'', ''indexes'', ''docs''] = Some (empty_dir\<lparr>meta_json := GobFile (meta_of sample_config)\<rparr>)"
proof -
  have p: "filepath_Join [''data'', ''indexes''] ''docs'' = [''data'', ''indexes'', ''docs'']" by (simp add: filepath_Join_def)
  have "[''data'', ''indexes'', ''docs''] = take 3 [''data'', ''indexes'', ''docs'']" by simp
  then have d: "mget (MkdirAll [''data'', ''indexes'', ''docs''] (MkdirAll [''data'', ''indexes''] [])) [''data'', ''indexes'', ''docs''] = Some empty_dir"
    using mget_MkdirAll_below [of "[''data'', ''indexes'']" "[]" "''docs''"]
    by (subst mget_MkdirAll) (auto intro!: exI [of _ 3])
  have m: "string_of_runes (runes MetricL2) = MetricL2"
    by (simp add: MetricL2_def runes_ascii string_of_runes_ascii [of "''l2''", simplified])
  show "collections sample_cm = [(''docs'', empty_coll sample_config [''data'', ''indexes'', ''docs''])]"
    "cm_basePath sample_cm = [''data'', ''indexes'']"
    "mget (cm_disk sample_cm) [''data'', ''indexes'', ''docs''] = Some (empty_dir\<lparr>meta_json := GobFile (meta_of sample_config)\<rparr>)"
    by (simp_all add: sample_cm_def CreateCollection_def ValidateCollectionConfig_def Let_def SaveCollectionMeta_def
        write_file_def p d m meta_of_def sample_config_def empty_coll_def runes_ascii
        string_of_runes_ascii [of "''docs''", simplified])
qed

lemma sample_vm_room: "m \<le> 1000 \<Longrightarrow> vm_room m sample_vm sample_db"
  by (auto simp: vm_room_def sample_vm_def sample_cm_fields sample_db_def empty_coll_def NewForwardIndex_def
      GetNextVectorID_def FI_Get_def split: if_splits)

lemma text_block_acceptable:
  assumes "length s \<le> 1000" and "length k \<le> 1000"
  shows "block_acceptable sample_lib id ''docs'' sample_config k (text_block s)"
proof -
  have "EncodeKeywords id [] = Inr (BE_PutUint16 0)"
    by (simp add: EncodeKeywords_def MaxKeywordsBlockSize_def codec_simps)
  moreover have "length p \<le> 3000" if "EncodeEntry id (block_entry k v (text_block s)) = Inr p" for v p
    using that assms calculation
    by (auto simp: EncodeEntry_Inr block_entry_def text_block_def entry_body_def VectorIDToBytes_def codec_simps be64.enc_length)
  moreover have "length (CompressBytes sample_lib p) = Suc (length p)" for p by (simp add: CompressBytes_def sample_lib_def)
  ultimately show ?thesis
    using assms
    by (fastforce simp: block_acceptable_def text_block_def sample_config_def valid_keywords_def makeStorageKey_def
        maxKeyLen_def MaxInt32_def)
qed

lemma sample_docs: "sample_db ''docs'' = Some (sample_config, Map.empty)"
  by (simp add: sample_db_def)

lemma sample_no_blocks [simp]: "key_blocks sample_db n k = []"
  by (simp add: key_blocks_def sample_db_def)

lemma text_block_fields [simp]:
  "Primary (text_block s) = s" "Vector (text_block s) = [f_one]" "BlockKeywords (text_block s) = []"
  by (simp_all add: text_block_def)

lemma sample_config_fields [simp]: "Dimensions sample_config = 1" "Metric sample_config = MetricL2" "Name sample_config = ''docs''"
  by (simp_all add: sample_config_def)



text \<open>
  C23. Creating and deleting a collection refine the database: creating adds an empty collection or
  reports a name in use or an invalid configuration without a change; deleting removes the collection
  with the records of all its keys, and leaves every other collection alone. Names are single path
  components without a colon.
\<close>

theorem VM_collections_refine:
  assumes "vm_rep (env_libs E) ul vm D" and "plain_name n" and "CHR '':'' \<notin> set n"
  shows "(if D n \<noteq> None then VM_CreateCollection n d me vm = (vm, Some CollectionExists)
     else case ValidateCollectionConfig \<lparr>Name = n, Dimensions = d, Metric = me\<rparr> of
        Some err \<Rightarrow> VM_CreateCollection n d me vm = (vm, Some err)
      | None \<Rightarrow> snd (VM_CreateCollection n d me vm) = None \<and>
          vm_rep (env_libs E) ul (fst (VM_CreateCollection n d me vm)) (D(n \<mapsto> (\<lparr>Name = n, Dimensions = d, Metric = me\<rparr>, Map.empty)))) \<and>
    (if D n = None then VM_DeleteCollection E n vm = (vm, Some CollectionNotFound)
     else snd (VM_DeleteCollection E n vm) = None \<and>
       vm_rep (env_libs E) ul (fst (VM_DeleteCollection E n vm)) (D(n := None)))"
  using VM_CreateCollection_rejects [OF assms(1), of n d me] VM_CreateCollection_ok [OF assms(1) _ assms(2,3), of d me]
    VM_DeleteCollection_missing [OF assms(1), of n E] VM_DeleteCollection_ok [OF assms(1), of n]
  by (auto split: option.split)

theorem VM_collections_refine_witness:
  "vm_rep sample_lib id (fst (VM_DeleteCollection sample_env ''docs'' sample_vm)) Map.empty \<and>
   VM_CreateCollection ''docs'' 1 MetricL2 sample_vm = (sample_vm, Some CollectionExists)"
  using VM_collections_refine [of sample_env id sample_vm sample_db "''docs''" 1 MetricL2] sample_vm_rep sample_plain
  by (simp add: sample_docs) (simp add: sample_db_def)



text \<open>
  Two blocks for the same key in one batch: both are reported as stored and the key has length
  two, but the map of encoded entries keeps only the second; position 0 returns the second block and
  position 1 cannot be read.
\<close>

theorem batch_duplicate_key:
  assumes "vm_rep (env_libs E) (env_lower E) vm D" and "D n = Some (cfg, K)" and "K k = None"
    and "vm_room 2 vm D" and "is_order (env_batch E)"
    and "block_acceptable (env_libs E) (env_lower E) n cfg k b1" and "block_acceptable (env_libs E) (env_lower E) n cfg k b2"
  shows "\<exists>vm' blk. VM_BatchAppendBlocks E n [k, k] [b1, b2] vm = (vm', [True, True], None) \<and>
    VM_GetKeyLength n k vm' = Inr 2 \<and> VM_GetBlock E n k 0 vm' = Inr blk \<and> Primary blk = Primary b2 \<and>
    VM_GetBlock E n k 1 vm' = Inl IndexOutOfBounds"
  using assms by (rule VM_Batch_duplicate)

theorem batch_duplicate_key_witness:
  "\<exists>vm' blk. VM_BatchAppendBlocks sample_env ''docs'' [''a'', ''a''] [text_block ''x'', text_block ''y''] sample_vm =
      (vm', [True, True], None) \<and> VM_GetBlock sample_env ''docs'' ''a'' 0 vm' = Inr blk \<and> Primary blk = ''y'' \<and>
    VM_GetBlock sample_env ''docs'' ''a'' 1 vm' = Inl IndexOutOfBounds"
proof -
  have "vm_rep (env_libs sample_env) (env_lower sample_env) sample_vm sample_db" using sample_vm_rep by simp
  from batch_duplicate_key [OF this sample_docs, of "''a''" "text_block ''x''" "text_block ''y''"]
  show ?thesis using sample_vm_room [of 2] text_block_acceptable by auto
qed

text \<open>
  C39. Deleting a key leaves its records in the store: after the deletion the key is not found, but
  when it is used again the first block that was appended returns the text and the keywords of the
  deleted one.
\<close>

theorem deleted_key_returns:
  assumes "vm_rep (env_libs E) (env_lower E) vm D" and "D n = Some (cfg, K)" and "K k = Some (b0 # bs)"
    and "vm_room (Suc m) vm D" and "block_acceptable (env_libs E) (env_lower E) n cfg k b" and "is_order (env_nodes E)"
  shows "\<exists>vm1 vm2 blk. VM_DeleteKey E n k vm = (vm1, None) \<and> VM_GetBlock E n k 0 vm1 = Inl KeyNotFound \<and>
    VM_AppendBlock E n k b vm1 = (vm2, 0, None) \<and> VM_GetBlock E n k 0 vm2 = Inr blk \<and>
    Primary blk = Primary b0 \<and> BlockKeywords blk = map (NormalizeKeyword (env_lower E)) (BlockKeywords b0)"
  using assms by (rule deleted_key_returns_ok)

lemma sample_appended:
  obtains vm where "VM_AppendBlock sample_env ''docs'' ''a'' (text_block ''hello'') sample_vm = (vm, 0, None)"
    and "vm_rep sample_lib id vm [''docs'' \<mapsto> (sample_config, [''a'' \<mapsto> [text_block ''hello'']])]"
    and "vm_room 1 vm [''docs'' \<mapsto> (sample_config, [''a'' \<mapsto> [text_block ''hello'']])]"
proof -
  have "\<exists>vm'. VM_AppendBlock sample_env ''docs'' ''a'' (text_block ''hello'') sample_vm = (vm', of_nat (length (key_blocks sample_db ''docs'' ''a'')), None) \<and>
      vm_rep (env_libs sample_env) (env_lower sample_env) vm' (db_append ''docs'' ''a'' (text_block ''hello'') sample_db) \<and>
      vm_room 1 vm' (db_append ''docs'' ''a'' (text_block ''hello'') sample_db) \<and>
      vm_wal vm' = wal_log (logged_add sample_env ''docs'' ''a'' (text_block ''hello'')) (vm_wal sample_vm)"
    using sample_vm_rep text_block_acceptable sample_vm_room [of "Suc 1"]
    by (intro VM_AppendBlock_ok [where cfg = sample_config and K = Map.empty]) (simp_all add: sample_docs)
  with that show thesis by (auto simp: db_append_def sample_docs) (auto simp: sample_db_def)
qed

theorem deleted_key_returns_witness:
  "\<exists>vm0 vm1 vm2 blk. VM_AppendBlock sample_env ''docs'' ''a'' (text_block ''hello'') sample_vm = (vm0, 0, None) \<and>
     VM_DeleteKey sample_env ''docs'' ''a'' vm0 = (vm1, None) \<and>
     VM_AppendBlock sample_env ''docs'' ''a'' (text_block ''new'') vm1 = (vm2, 0, None) \<and>
     VM_GetBlock sample_env ''docs'' ''a'' 0 vm2 = Inr blk \<and> Primary blk = ''hello''"
proof -
  obtain vm0 where vm0: "VM_AppendBlock sample_env ''docs'' ''a'' (text_block ''hello'') sample_vm = (vm0, 0, None)"
    "vm_rep sample_lib id vm0 [''docs'' \<mapsto> (sample_config, [''a'' \<mapsto> [text_block ''hello'']])]"
    "vm_room 1 vm0 [''docs'' \<mapsto> (sample_config, [''a'' \<mapsto> [text_block ''hello'']])]" using sample_appended .
  have "\<exists>vm1 vm2 blk. VM_DeleteKey sample_env ''docs'' ''a'' vm0 = (vm1, None) \<and> VM_GetBlock sample_env ''docs'' ''a'' 0 vm1 = Inl KeyNotFound \<and>
      VM_AppendBlock sample_env ''docs'' ''a'' (text_block ''new'') vm1 = (vm2, 0, None) \<and>
      VM_GetBlock sample_env ''docs'' ''a'' 0 vm2 = Inr blk \<and> Primary blk = Primary (text_block ''hello'') \<and>
      BlockKeywords blk = map (NormalizeKeyword (env_lower sample_env)) (BlockKeywords (text_block ''hello''))"
    using vm0(2,3) text_block_acceptable
    by (intro deleted_key_returns [where cfg = sample_config and m = 0 and bs = "[]" and
        K = "[''a'' \<mapsto> [text_block ''hello'']]" and D = "[''docs'' \<mapsto> (sample_config, [''a'' \<mapsto> [text_block ''hello'']])]"]) auto
  with vm0(1) show ?thesis by auto
qed

text \<open>
  A block the record store refuses because its storage key is longer than 1024 bytes: the call
  reports an error, but the collection has kept the block; the key is listed with length one and its
  block cannot be read.
\<close>

theorem append_not_atomic:
  assumes "vm_rep (env_libs E) (env_lower E) vm D" and "D n = Some (cfg, K)" and "K k = None" and "vm_room (Suc m) vm D"
    and "Vector b = [] \<or> of_nat (length (Vector b)) = Dimensions cfg"
    and "valid_keywords (env_lower E) (BlockKeywords b)" and "EncodeKeywords (env_lower E) (BlockKeywords b) = Inr kw"
    and "length (makeStorageKey n k) > maxKeyLen" and "length k \<le> MaxKeyLength"
  shows "\<exists>vm' err. VM_AppendBlock E n k b vm = (vm', 0, Some err) \<and>
    VM_GetKeyLength n k vm' = Inr 1 \<and> VM_GetBlock E n k 0 vm' = Inl IndexOutOfBounds"
  using assms by (rule unstored_block)

theorem append_not_atomic_witness:
  "\<exists>vm' err. VM_AppendBlock sample_env ''docs'' (replicate 1020 CHR ''x'') (text_block ''hello'') sample_vm = (vm', 0, Some err) \<and>
    VM_GetKeyLength ''docs'' (replicate 1020 CHR ''x'') vm' = Inr 1 \<and>
    VM_GetBlock sample_env ''docs'' (replicate 1020 CHR ''x'') 0 vm' = Inl IndexOutOfBounds"
proof (rule append_not_atomic [where cfg = sample_config and K = Map.empty and D = sample_db and m = 0 and kw = "BE_PutUint16 0"])
  show "vm_rep (env_libs sample_env) (env_lower sample_env) sample_vm sample_db" using sample_vm_rep by simp
  show "EncodeKeywords (env_lower sample_env) (BlockKeywords (text_block ''hello'')) = Inr (BE_PutUint16 0)"
    by (simp add: EncodeKeywords_def MaxKeywordsBlockSize_def codec_simps)
  show "length (makeStorageKey ''docs'' (replicate 1020 CHR ''x'')) > maxKeyLen"
    by (simp add: makeStorageKey_def maxKeyLen_def)
  show "length (replicate 1020 CHR ''x'') \<le> MaxKeyLength" by (simp add: MaxKeyLength_def)
qed (simp_all add: sample_docs sample_vm_room valid_keywords_def)

text \<open>
  Reading a whole key looks for the records of the bare key instead of those of the collection:
  a key without a colon is reported as not found although it has blocks, and a key that has the form
  of a storage key returns the texts of that key of the other collection.
\<close>

theorem VM_GetKey_bare_key:
  assumes "vm_rep (env_libs E) ul vm D" and "D n = Some (cfg, K)" and "K k \<noteq> None"
  shows "(CHR '':'' \<notin> set k \<longrightarrow> VM_GetKey E n k vm = Inl KeyNotFound) \<and>
    (\<forall>n' k' cfg' K' bs. k = makeStorageKey n' k' \<and> D n' = Some (cfg', K') \<and> K' k' = Some bs \<longrightarrow>
       (\<exists>blks. VM_GetKey E n k vm = Inr blks \<and> map Primary blks = map Primary bs))"
  using VM_GetKey_rep [OF assms] by blast

theorem VM_GetKey_bare_key_witness:
  "\<exists>vm. VM_AppendBlock sample_env ''docs'' ''a'' (text_block ''hello'') sample_vm = (vm, 0, None) \<and>
     VM_GetKey sample_env ''docs'' ''a'' vm = Inl KeyNotFound"
proof -
  obtain vm where vm: "VM_AppendBlock sample_env ''docs'' ''a'' (text_block ''hello'') sample_vm = (vm, 0, None)"
    "vm_rep sample_lib id vm [''docs'' \<mapsto> (sample_config, [''a'' \<mapsto> [text_block ''hello'']])]" using sample_appended by metis
  with VM_GetKey_bare_key [of sample_env id vm "[''docs'' \<mapsto> (sample_config, [''a'' \<mapsto> [text_block ''hello'']])]"
      "''docs''" sample_config "[''a'' \<mapsto> [text_block ''hello'']]" "''a''"] show ?thesis by auto
qed



text \<open>
  Closing and starting again: the files that \<^verbatim>\<open>Close\<close> leaves give a manager that represents the
  same database, nothing is replayed and no error is reported.
\<close>

theorem NewVectorManager_after_Close:
  assumes "vm_rep lib ul vm D" and "all_saveable (vm_collections vm)"
    and "filepath_Join dataPath ''indexes'' = cm_basePath (vm_collections vm)" and "is_order (env_docs (Es 0))"
  shows "\<exists>vm'. NewVectorManager Es dataPath (VM_Close vm) = Inr (vm', None) \<and> vm_rep lib ul vm' D"
  using assms by (rule VM_restart)

lemma sample_saveable: "all_saveable sample_cm"
  by (auto simp: all_saveable_def sample_cm_fields empty_coll_def saveable_def NewHNSWWrapper_def split: if_splits)

theorem NewVectorManager_after_Close_witness:
  "\<exists>vm'. NewVectorManager (\<lambda>_. sample_env) [''data''] (VM_Close sample_vm) = Inr (vm', None) \<and>
     vm_rep sample_lib id vm' sample_db"
  by (rule NewVectorManager_after_Close [OF sample_vm_rep])
    (simp_all add: sample_saveable filepath_Join_def sample_vm_def sample_cm_fields)

text \<open>
  C26. Recovery of a log of additions that the database accepts: every entry is appended again, in
  order, none is skipped and no error is reported.
\<close>

theorem recoverFromWAL_applies:
  assumes "vm_rep lib ul vm D" and "Replay (vm_wal vm) = es" and "vm_room (length es) vm D"
    and "list_all (add_ok lib ul D) es" and "\<forall>i. env_libs (Es i) = lib \<and> env_lower (Es i) = ul"
  shows "\<exists>vm'. recoverFromWAL Es vm = (vm', None) \<and> vm_rep lib ul vm' (fold replayed es D)"
  using recover_adds [OF assms(1), of es 0 Es] assms by (auto simp: recoverFromWAL_def)

theorem recoverFromWAL_applies_witness:
  "\<exists>vm'. recoverFromWAL (\<lambda>_. sample_env)
       (sample_vm\<lparr>vm_wal := NewWAL [[logged_add sample_env ''docs'' ''a'' (text_block ''hello'')]]\<rparr>) = (vm', None) \<and>
     vm_rep sample_lib id vm' (db_append ''docs'' ''a'' (text_block ''hello'') sample_db)"
proof -
  let ?e = "logged_add sample_env ''docs'' ''a'' (text_block ''hello'')"
  let ?vm = "sample_vm\<lparr>vm_wal := NewWAL [[?e]]\<rparr>"
  have rep: "vm_rep sample_lib id ?vm sample_db" using sample_vm_rep by (simp add: vm_rep_def)
  have log: "Replay (vm_wal ?vm) = [?e]" by (simp add: Replay_def NewWAL_def)
  have room: "vm_room (length [?e]) ?vm sample_db" using sample_vm_room [of 1] by (simp add: vm_room_def)
  have ok: "list_all (add_ok sample_lib id sample_db) [?e]"
    using text_block_acceptable by (simp add: add_ok_def sample_docs)
  show ?thesis
    using recoverFromWAL_applies [OF rep log room ok, of "\<lambda>_. sample_env"]
    by (simp add: replayed_def)
qed

text \<open>
  C40. A crash after the first block with a vector of a new collection: the block was acknowledged,
  logged and stored, and the vector index was flushed, but the forward index was not. Whatever became
  of the shard files, the start replays the log, stops with the error that the vector exists already,
  and the key is gone.
\<close>

theorem crash_loses_write:
  assumes "vm_rep (env_libs E) (env_lower E) vm [n \<mapsto> (cfg, Map.empty)]" and "vm_room (Suc m) vm [n \<mapsto> (cfg, Map.empty)]"
    and "block_acceptable (env_libs E) (env_lower E) n cfg k b" and "Vector b \<noteq> []"
    and "mget (cm_disk (vm_collections vm)) (cm_basePath (vm_collections vm) @ [n]) = Some dir"
    and "doc_map_bin dir = NoFile" and "keywords_inv dir = NoFile"
    and "session (vm_wal vm) old []" and "list_all (\<lambda>s. s = []) old"
    and "VM_AppendBlock E n k b vm = (vm', i, err)" and "all_saveable (vm_collections vm')"
    and "filepath_Join dataPath ''indexes'' = cm_basePath (vm_collections vm)" and "is_order (env_docs (Es 0))"
  shows "err = None \<and> (\<exists>vm''. NewVectorManager Es dataPath (crash_disk sd vm') =
      Inr (vm'', Some (Wrapped ''failed to add vector'' VectorExists)) \<and> VM_ContainsKey n k vm'' = Inr False)"
  using assms by (rule crash_recovery)

lemma AppendBlock_index:
  assumes "mget (collections (vm_collections vm)) n = Some c" and "Vector b \<noteq> []" and "VM_AppendBlock E n k b vm = (vm', i, None)"
  shows "\<exists>c'. collections (vm_collections vm') = mput n c' (collections (vm_collections vm)) \<and>
    HNSWIndex c' = fst (hw_Save (fst (hw_Add (env_rnd E 0) (GetNextVectorID (DocMap c)) (Vector b) (HNSWIndex c))))"
  using assms
  by (auto simp: VM_AppendBlock_def GetCollection_def Let_def Coll_AppendBlock_def register_block_def Coll_FlushHNSW_def
      write_file_def put_coll_def set_collection_def mput_twice
      split: prod.splits option.splits sum.splits if_splits)

theorem crash_loses_write_witness:
  "\<exists>vm' vm''. VM_AppendBlock sample_env ''docs'' ''a'' (text_block ''hello'') sample_vm = (vm', 0, None) \<and>
     NewVectorManager (\<lambda>_. sample_env) [''data''] (crash_disk (disk_of (vm_Manager vm')) vm') =
       Inr (vm'', Some (Wrapped ''failed to add vector'' VectorExists)) \<and>
     VM_ContainsKey ''docs'' ''a'' vm'' = Inr False"
proof -
  obtain vm' where app: "VM_AppendBlock sample_env ''docs'' ''a'' (text_block ''hello'') sample_vm = (vm', 0, None)"
    using sample_appended by metis
  have c: "mget (collections (vm_collections sample_vm)) ''docs'' = Some (empty_coll sample_config [''data'', ''indexes'', ''docs''])"
    by (simp add: sample_vm_def sample_cm_fields)
  obtain c' where c': "collections (vm_collections vm') = [(''docs'', c')]"
    "HNSWIndex c' = fst (hw_Save (fst (hw_Add (\<lambda>_. False) 1 [f_one] (NewHNSWWrapper 1 MetricL2))))"
    using AppendBlock_index [OF c _ app]
    by (auto simp: sample_vm_def sample_cm_fields next_id_empty) (simp add: empty_coll_def sample_env_def)
  have "saveable (fst (hw_Add (\<lambda>_. False) 1 [f_one] (NewHNSWWrapper 1 MetricL2)))"
    using length_takeWhile_le [of "\<lambda>_. False" "[0..<32]"]
    by (simp add: hw_Add_def addUnlocked_def NewHNSWWrapper_def saveable_def randomLevel_def Let_def)
  then have sv: "all_saveable (vm_collections vm')"
    using c' hw_Save_ok(4) by (auto simp: all_saveable_def split: if_splits)
  have "None = (None :: go_error option) \<and> (\<exists>vm''. NewVectorManager (\<lambda>_. sample_env) [''data''] (crash_disk (disk_of (vm_Manager vm')) vm') =
      Inr (vm'', Some (Wrapped ''failed to add vector'' VectorExists)) \<and> VM_ContainsKey ''docs'' ''a'' vm'' = Inr False)"
  proof (rule crash_loses_write [OF _ _ _ _ _ _ _ _ _ app sv])
    show "vm_rep (env_libs sample_env) (env_lower sample_env) sample_vm [''docs'' \<mapsto> (sample_config, Map.empty)]"
      using sample_vm_rep by (simp add: sample_db_def)
    show "vm_room (Suc 0) sample_vm [''docs'' \<mapsto> (sample_config, Map.empty)]"
      using sample_vm_room [of "Suc 0"] by (simp add: sample_db_def)
    show "mget (cm_disk (vm_collections sample_vm)) (cm_basePath (vm_collections sample_vm) @ [''docs'']) =
        Some (empty_dir\<lparr>meta_json := GobFile (meta_of sample_config)\<rparr>)"
      by (simp add: sample_vm_def sample_cm_fields)
    show "session (vm_wal sample_vm) [] []" by (simp add: sample_vm_def session_New)
  qed (use text_block_acceptable in \<open>simp_all add: sample_vm_def sample_cm_fields filepath_Join_def empty_dir_def\<close>)
  with app show ?thesis by blast
qed

text \<open>
  Invariant of every state that is reached from an empty disk by creating and deleting
  collections, appending blocks one by one or in batches, whether they are accepted or not, deleting
  keys, checkpoints and restarts: for every key of every collection, each position below its length
  has a block id, and the forward index locates that id at this key and position.
\<close>

theorem reachable_blocks:
  assumes "zstd_ok lib" and "NewVectorManager Es p \<lparr>shard_files = [], index_dirs = [], wal_files = []\<rparr> = Inr (vm0, err)"
    and "(vm_step lib ul)\<^sup>*\<^sup>* vm0 vm" and "GetCollection (vm_collections vm) n = Inr c"
    and "Coll_GetKeyLength c k = Inr l" and "i < l"
  shows "\<exists>v. GetBlockVectorID c k i = Inr v \<and> FI_Get (DocMap c) v = Some \<lparr>LocKey = k, LocIndex = i\<rparr>"
proof -
  have "vm_ok lib ul vm0" using NewVectorManager_fresh [OF assms(1), of Es p ul] assms(2) vm_rep_ok by auto
  from vm_ok_blocks [OF vm_steps_ok [OF assms(3) this] assms(4-6)] show ?thesis .
qed

theorem reachable_blocks_witness:
  "\<exists>vm c v. VM_AppendBlock sample_env ''docs'' ''a'' (text_block ''hello'') sample_vm = (vm, 0, None) \<and>
     GetCollection (vm_collections vm) ''docs'' = Inr c \<and> GetBlockVectorID c ''a'' 0 = Inr v \<and>
     FI_Get (DocMap c) v = Some \<lparr>LocKey = ''a'', LocIndex = 0\<rparr>"
proof -
  obtain vm where vm: "VM_AppendBlock sample_env ''docs'' ''a'' (text_block ''hello'') sample_vm = (vm, 0, None)"
    "vm_rep sample_lib id vm [''docs'' \<mapsto> (sample_config, [''a'' \<mapsto> [text_block ''hello'']])]" using sample_appended by metis
  let ?vm0 = "\<lparr>vm_Manager = NewManager [], vm_collections = \<lparr>collections = [], cm_basePath = [''data'', ''indexes''],
     cm_disk = MkdirAll [''data'', ''indexes''] []\<rparr>, vm_wal = NewWAL []\<rparr>"
  have start: "NewVectorManager (\<lambda>_. sample_env) [''data''] \<lparr>shard_files = [], index_dirs = [], wal_files = []\<rparr> = Inr (?vm0, None)"
    by (simp add: NewVectorManager_def NewCollectionManager_fresh recoverFromWAL_def Replay_def NewWAL_def filepath_Join_def)
  have "vm_step sample_lib id ?vm0 (fst (VM_CreateCollection ''docs'' 1 MetricL2 ?vm0))" by (rule create [OF sample_plain])
  moreover have "fst (VM_CreateCollection ''docs'' 1 MetricL2 ?vm0) = sample_vm"
    by (simp add: VM_CreateCollection_def sample_vm_def sample_cm_def case_prod_beta)
  moreover have "vm_step sample_lib id sample_vm (fst (VM_AppendBlock sample_env ''docs'' ''a'' (text_block ''hello'') sample_vm))"
    by (rule append) (simp_all add: valid_keywords_def room_in_def GetCollection_def sample_vm_def sample_cm_fields fits_more_def
        next_id_empty, simp add: empty_coll_def)
  ultimately have steps: "(vm_step sample_lib id)\<^sup>*\<^sup>* ?vm0 vm" using vm(1) by simp
  obtain S M where cm: "cm_rep id (vm_collections vm) S"
    and db: "db_rep id S M [''docs'' \<mapsto> (sample_config, [''a'' \<mapsto> [text_block ''hello'']])]" using vm(2) by (auto simp: vm_rep_def)
  obtain c A where c: "GetCollection (vm_collections vm) ''docs'' = Inr c" "coll_rep c A"
    "key_state id ''a'' (A ''a'') (M (makeStorageKey ''docs'' ''a'')) (Some [text_block ''hello''])"
    using db_collection [OF cm db, of "''docs''" sample_config "[''a'' \<mapsto> [text_block ''hello'']]"] by (metis fun_upd_same)
  have "Coll_GetKeyLength c ''a'' = Inr 1"
    using c(2,3) GetKeyLength_rep [of c A "''a''"] by (auto simp: key_state_def encoded_blocks_def coll_rep_def)
  from reachable_blocks [OF sample_lib_ok start steps c(1) this, of 0] vm(1) c(1) show ?thesis by auto
qed

end
