(* ===== verification/Transaction.thy ===== *)
theory Transaction
  imports Vector_Properties
begin

section \<open>The transaction manager\<close>

text \<open>
  \<^verbatim>\<open>internal/transaction/manager.go\<close> with the request types of \<^verbatim>\<open>internal/types/types.go\<close>:
  one request is carried out on the storage and answered. The messages of the protocol are the
  generated types of \<^verbatim>\<open>waddle_protocol.proto\<close>; a message that is absent is \<open>None\<close>. Each case of the
  switch of \<^verbatim>\<open>handle\<close> is a definition: the parameters are checked to be of the type that belongs to
  the operation, and nothing happens when they are not. A panic is an error value of the model; the
  deferred function turns it into an answer.
\<close>

datatype ProtocolMethod =
    OpCreateCollection | OpDeleteCollection | OpListCollections | OpCompactCollection
  | OpAppendBlock | OpGetBlock | OpGetVector | OpGetKeyLength | OpGetKey | OpDeleteKey
  | OpListKeys | OpContainsKey | OpUpdateBlock | OpReplaceBlock | OpSearch | OpSearchMLT
  | OpSearchInKey | OpKeywordSearch | OpSnapshotCollection | OpBatchAppendBlock
  | OpOther int

datatype Params =
    CreateCollectionRequest string uint32 string
  | DeleteCollectionRequest string
  | ListCollectionsRequest
  | CompactCollectionRequest string
  | AppendBlockRequest string string "BlockData option"
  | GetBlockRequest string string uint32
  | GetVectorRequest string string uint32
  | GetKeyLengthRequest string string
  | GetKeyRequest string string
  | DeleteKeyRequest string string
  | ListKeysRequest string
  | ContainsKeyRequest string string
  | UpdateBlockRequest string string uint32 "BlockData option"
  | ReplaceBlockRequest string string uint32 "BlockData option"
  | SearchRequest string "float32 list" uint32 string "string list"
  | SearchMoreLikeThisRequest string string uint32 uint32
  | SearchInKeyRequest string string "float32 list" uint32
  | KeywordSearchRequest string "string list" string
  | SnapshotCollectionRequest string
  | BatchAppendBlockRequest string "(string \<times> BlockData option) list"

text \<open>What a response carries; each alternative is one type the server knows.\<close>

datatype Data =
    LengthData uint64
  | KeyListData "string list"
  | CollectionListData "CollectionConfig list"
  | SearchListData "SearchResultItem list"
  | BlockData_Data BlockData
  | BlockListData "BlockData list"

record RequestContext =
  ReqID :: string
  Operation :: ProtocolMethod
  req_Params :: Params

record ResponseContext =
  resp_ReqID :: string
  Success :: bool
  resp_Data :: "Data option"
  Error :: "go_error option"

definition resp_fail :: "go_error \<Rightarrow> ResponseContext \<Rightarrow> ResponseContext" where
  "resp_fail err resp = resp\<lparr>Success := False, Error := Some err\<rparr>"

definition resp_done :: "Data option \<Rightarrow> ResponseContext \<Rightarrow> ResponseContext" where
  "resp_done data resp = resp\<lparr>Success := True, resp_Data := data\<rparr>"

text \<open>The two shapes of an answer: an error or nothing, and an error or a value.\<close>

definition resp_error :: "go_error option \<Rightarrow> ResponseContext \<Rightarrow> ResponseContext" where
  "resp_error err resp = (case err of Some e \<Rightarrow> resp_fail e resp | None \<Rightarrow> resp_done None resp)"

definition resp_value :: "('a \<Rightarrow> Data) \<Rightarrow> go_error + 'a \<Rightarrow> ResponseContext \<Rightarrow> ResponseContext" where
  "resp_value f res resp = (case res of Inl e \<Rightarrow> resp_fail e resp | Inr x \<Rightarrow> resp_done (Some (f x)) resp)"

text \<open>Reading a field of a missing block dereferences a nil pointer.\<close>

definition nilBlock :: go_error where
  "nilBlock = GoPanic ''invalid memory address or nil pointer dereference''"

definition parse_metric :: "string \<Rightarrow> DistanceMetric" where
  "parse_metric metric =
     (if metric = ''cos'' \<or> metric = ''cosine'' then MetricCosine
      else if metric = ''ip'' \<or> metric = ''inner_product'' then MetricIP
      else MetricL2)"

subsection \<open>One case for each operation\<close>

definition handle_CreateCollection :: "Env \<Rightarrow> Params \<Rightarrow> ResponseContext \<Rightarrow> VectorManager \<Rightarrow> VectorManager \<times> ResponseContext" where
  "handle_CreateCollection E params resp vm = (case params of
       CreateCollectionRequest name dims metric \<Rightarrow>
         let (vm, err) = VM_CreateCollection name dims (parse_metric metric) vm in (vm, resp_error err resp)
     | _ \<Rightarrow> (vm, resp))"

definition handle_DeleteCollection :: "Env \<Rightarrow> Params \<Rightarrow> ResponseContext \<Rightarrow> VectorManager \<Rightarrow> VectorManager \<times> ResponseContext" where
  "handle_DeleteCollection E params resp vm = (case params of
       DeleteCollectionRequest name \<Rightarrow>
         let (vm, err) = VM_DeleteCollection E name vm in (vm, resp_error err resp)
     | _ \<Rightarrow> (vm, resp))"

definition handle_ListCollections :: "Env \<Rightarrow> Params \<Rightarrow> ResponseContext \<Rightarrow> VectorManager \<Rightarrow> VectorManager \<times> ResponseContext" where
  "handle_ListCollections E params resp vm = (case params of
       ListCollectionsRequest \<Rightarrow>
         (vm, resp_done (Some (CollectionListData (VM_ListCollections vm))) resp)
     | _ \<Rightarrow> (vm, resp))"

definition handle_CompactCollection :: "Env \<Rightarrow> Params \<Rightarrow> ResponseContext \<Rightarrow> VectorManager \<Rightarrow> VectorManager \<times> ResponseContext" where
  "handle_CompactCollection E params resp vm = (case params of
       CompactCollectionRequest name \<Rightarrow>
         (vm, resp_error (VM_CompactCollection name) resp)
     | _ \<Rightarrow> (vm, resp))"

definition handle_AppendBlock :: "Env \<Rightarrow> Params \<Rightarrow> ResponseContext \<Rightarrow> VectorManager \<Rightarrow> VectorManager \<times> ResponseContext" where
  "handle_AppendBlock E params resp vm = (case params of
       AppendBlockRequest collection key block \<Rightarrow>
         (case block of
            None \<Rightarrow> (vm, resp_fail nilBlock resp)
          | Some b \<Rightarrow> let (vm, _, err) = VM_AppendBlock E collection key b vm in (vm, resp_error err resp))
     | _ \<Rightarrow> (vm, resp))"

definition handle_BatchAppendBlock :: "Env \<Rightarrow> Params \<Rightarrow> ResponseContext \<Rightarrow> VectorManager \<Rightarrow> VectorManager \<times> ResponseContext" where
  "handle_BatchAppendBlock E params resp vm = (case params of
       BatchAppendBlockRequest collection requests \<Rightarrow>
         if list_ex (\<lambda>(_, block). block = None) requests then (vm, resp_fail nilBlock resp)
         else let (vm, _, err) = VM_BatchAppendBlocks E collection (map fst requests) (map (\<lambda>(_, block). the block) requests) vm
              in (vm, resp_error err resp)
     | _ \<Rightarrow> (vm, resp))"

definition handle_GetBlock :: "Env \<Rightarrow> Params \<Rightarrow> ResponseContext \<Rightarrow> VectorManager \<Rightarrow> VectorManager \<times> ResponseContext" where
  "handle_GetBlock E params resp vm = (case params of
       GetBlockRequest collection key index \<Rightarrow>
         (vm, resp_value BlockData_Data (VM_GetBlock E collection key index vm) resp)
     | _ \<Rightarrow> (vm, resp))"

definition handle_GetVector :: "Env \<Rightarrow> Params \<Rightarrow> ResponseContext \<Rightarrow> VectorManager \<Rightarrow> VectorManager \<times> ResponseContext" where
  "handle_GetVector E params resp vm = (case params of
       GetVectorRequest collection key index \<Rightarrow>
         (vm, resp_value (\<lambda>vec. BlockData_Data \<lparr>Primary = [], Vector = vec, BlockKeywords = []\<rparr>)
                (VM_GetVector collection key index vm) resp)
     | _ \<Rightarrow> (vm, resp))"

definition handle_GetKeyLength :: "Env \<Rightarrow> Params \<Rightarrow> ResponseContext \<Rightarrow> VectorManager \<Rightarrow> VectorManager \<times> ResponseContext" where
  "handle_GetKeyLength E params resp vm = (case params of
       GetKeyLengthRequest collection key \<Rightarrow>
         (vm, resp_value (\<lambda>l. LengthData (ucast l)) (VM_GetKeyLength collection key vm) resp)
     | _ \<Rightarrow> (vm, resp))"

definition handle_GetKey :: "Env \<Rightarrow> Params \<Rightarrow> ResponseContext \<Rightarrow> VectorManager \<Rightarrow> VectorManager \<times> ResponseContext" where
  "handle_GetKey E params resp vm = (case params of
       GetKeyRequest collection key \<Rightarrow>
         (vm, resp_value BlockListData (VM_GetKey E collection key vm) resp)
     | _ \<Rightarrow> (vm, resp))"

definition handle_DeleteKey :: "Env \<Rightarrow> Params \<Rightarrow> ResponseContext \<Rightarrow> VectorManager \<Rightarrow> VectorManager \<times> ResponseContext" where
  "handle_DeleteKey E params resp vm = (case params of
       DeleteKeyRequest collection key \<Rightarrow>
         let (vm, err) = VM_DeleteKey E collection key vm in (vm, resp_error err resp)
     | _ \<Rightarrow> (vm, resp))"

definition handle_ListKeys :: "Env \<Rightarrow> Params \<Rightarrow> ResponseContext \<Rightarrow> VectorManager \<Rightarrow> VectorManager \<times> ResponseContext" where
  "handle_ListKeys E params resp vm = (case params of
       ListKeysRequest collection \<Rightarrow>
         (vm, resp_value KeyListData (VM_ListKeys collection vm) resp)
     | _ \<Rightarrow> (vm, resp))"

definition handle_ContainsKey :: "Env \<Rightarrow> Params \<Rightarrow> ResponseContext \<Rightarrow> VectorManager \<Rightarrow> VectorManager \<times> ResponseContext" where
  "handle_ContainsKey E params resp vm = (case params of
       ContainsKeyRequest collection key \<Rightarrow>
         (vm, resp_value (\<lambda>exists. LengthData (if exists then 1 else 0)) (VM_ContainsKey collection key vm) resp)
     | _ \<Rightarrow> (vm, resp))"

definition handle_UpdateBlock :: "Env \<Rightarrow> Params \<Rightarrow> ResponseContext \<Rightarrow> VectorManager \<Rightarrow> VectorManager \<times> ResponseContext" where
  "handle_UpdateBlock E params resp vm = (case params of
       UpdateBlockRequest collection key index block \<Rightarrow>
         (case block of
            None \<Rightarrow> (vm, resp_fail nilBlock resp)
          | Some b \<Rightarrow> (vm, resp_error (VM_UpdateBlock collection key index b) resp))
     | _ \<Rightarrow> (vm, resp))"

definition handle_ReplaceBlock :: "Env \<Rightarrow> Params \<Rightarrow> ResponseContext \<Rightarrow> VectorManager \<Rightarrow> VectorManager \<times> ResponseContext" where
  "handle_ReplaceBlock E params resp vm = (case params of
       ReplaceBlockRequest collection key index block \<Rightarrow>
         (case block of
            None \<Rightarrow> (vm, resp_fail nilBlock resp)
          | Some b \<Rightarrow> (vm, resp_error (VM_ReplaceBlock collection key index b) resp))
     | _ \<Rightarrow> (vm, resp))"

definition handle_Search :: "Env \<Rightarrow> Params \<Rightarrow> ResponseContext \<Rightarrow> VectorManager \<Rightarrow> VectorManager \<times> ResponseContext" where
  "handle_Search E params resp vm = (case params of
       SearchRequest collection query topK mode keywords \<Rightarrow>
         (vm, resp_value SearchListData (VM_Search E collection query topK mode keywords vm) resp)
     | _ \<Rightarrow> (vm, resp))"

definition handle_SearchMLT :: "Env \<Rightarrow> Params \<Rightarrow> ResponseContext \<Rightarrow> VectorManager \<Rightarrow> VectorManager \<times> ResponseContext" where
  "handle_SearchMLT E params resp vm = (case params of
       SearchMoreLikeThisRequest collection key index topK \<Rightarrow>
         (vm, resp_value (\<lambda>res. SearchListData (map (\<lambda>r. r\<lparr>ItemBlock := None\<rparr>) res))
                (VM_SearchMLT E collection key index topK vm) resp)
     | _ \<Rightarrow> (vm, resp))"

definition handle_SearchInKey :: "Env \<Rightarrow> Params \<Rightarrow> ResponseContext \<Rightarrow> VectorManager \<Rightarrow> VectorManager \<times> ResponseContext" where
  "handle_SearchInKey E params resp vm = (case params of
       SearchInKeyRequest collection key query topK \<Rightarrow>
         (vm, resp_value (\<lambda>res. SearchListData (map (\<lambda>r. r\<lparr>ItemBlock := None\<rparr>) res))
                (VM_SearchInKey E collection key query topK vm) resp)
     | _ \<Rightarrow> (vm, resp))"

definition handle_KeywordSearch :: "Env \<Rightarrow> Params \<Rightarrow> ResponseContext \<Rightarrow> VectorManager \<Rightarrow> VectorManager \<times> ResponseContext" where
  "handle_KeywordSearch E params resp vm = (case params of
       KeywordSearchRequest collection keywords mode \<Rightarrow>
         (vm, resp_value KeyListData (VM_KeywordSearch E collection keywords mode 0 vm) resp)
     | _ \<Rightarrow> (vm, resp))"

definition handle_SnapshotCollection :: "Env \<Rightarrow> Params \<Rightarrow> ResponseContext \<Rightarrow> VectorManager \<Rightarrow> VectorManager \<times> ResponseContext" where
  "handle_SnapshotCollection E params resp vm = (case params of
       SnapshotCollectionRequest collection \<Rightarrow>
         (vm, case VM_SnapshotCollection collection of Inl e \<Rightarrow> resp_fail e resp | Inr _ \<Rightarrow> resp_done None resp)
     | _ \<Rightarrow> (vm, resp))"

definition handle_switch ::
  "Env \<Rightarrow> ProtocolMethod \<Rightarrow> Params \<Rightarrow> ResponseContext \<Rightarrow> VectorManager \<Rightarrow> VectorManager \<times> ResponseContext" where
  "handle_switch E op = (case op of
       OpCreateCollection \<Rightarrow> handle_CreateCollection E
     | OpDeleteCollection \<Rightarrow> handle_DeleteCollection E
     | OpListCollections \<Rightarrow> handle_ListCollections E
     | OpCompactCollection \<Rightarrow> handle_CompactCollection E
     | OpAppendBlock \<Rightarrow> handle_AppendBlock E
     | OpBatchAppendBlock \<Rightarrow> handle_BatchAppendBlock E
     | OpGetBlock \<Rightarrow> handle_GetBlock E
     | OpGetVector \<Rightarrow> handle_GetVector E
     | OpGetKeyLength \<Rightarrow> handle_GetKeyLength E
     | OpGetKey \<Rightarrow> handle_GetKey E
     | OpDeleteKey \<Rightarrow> handle_DeleteKey E
     | OpListKeys \<Rightarrow> handle_ListKeys E
     | OpContainsKey \<Rightarrow> handle_ContainsKey E
     | OpUpdateBlock \<Rightarrow> handle_UpdateBlock E
     | OpReplaceBlock \<Rightarrow> handle_ReplaceBlock E
     | OpSearch \<Rightarrow> handle_Search E
     | OpSearchMLT \<Rightarrow> handle_SearchMLT E
     | OpSearchInKey \<Rightarrow> handle_SearchInKey E
     | OpKeywordSearch \<Rightarrow> handle_KeywordSearch E
     | OpSnapshotCollection \<Rightarrow> handle_SnapshotCollection E
     | OpOther _ \<Rightarrow> (\<lambda>params resp vm. (vm, resp_fail NotImplemented resp)))"

text \<open>
  Before the response is offered, an error clears the success. In the deferred function a panic
  becomes an internal error.
\<close>

definition error_safety :: "ResponseContext \<Rightarrow> ResponseContext" where
  "error_safety resp = (if Error resp \<noteq> None then resp\<lparr>Success := False\<rparr> else resp)"

definition recover_panic :: "ResponseContext \<Rightarrow> ResponseContext" where
  "recover_panic resp = (case Error resp of
       Some (GoPanic p) \<Rightarrow> resp\<lparr>Success := False, Error := Some (Wrapped ''internal error'' (GoPanic p))\<rparr>
     | _ \<Rightarrow> resp)"

definition handle :: "Env \<Rightarrow> RequestContext \<Rightarrow> VectorManager \<Rightarrow> VectorManager \<times> ResponseContext" where
  "handle E req vm =
     (let resp = \<lparr>resp_ReqID = ReqID req, Success = False, resp_Data = None, Error = None\<rparr>;
          (vm, resp) = handle_switch E (Operation req) (req_Params req) resp vm
      in (vm, recover_panic (error_safety resp)))"

subsection \<open>The shape of an answer\<close>

text \<open>The operation that belongs to a message, as the server sets it.\<close>

definition op_of :: "Params \<Rightarrow> ProtocolMethod" where
  "op_of params = (case params of
       CreateCollectionRequest _ _ _ \<Rightarrow> OpCreateCollection
     | DeleteCollectionRequest _ \<Rightarrow> OpDeleteCollection
     | ListCollectionsRequest \<Rightarrow> OpListCollections
     | CompactCollectionRequest _ \<Rightarrow> OpCompactCollection
     | AppendBlockRequest _ _ _ \<Rightarrow> OpAppendBlock
     | GetBlockRequest _ _ _ \<Rightarrow> OpGetBlock
     | GetVectorRequest _ _ _ \<Rightarrow> OpGetVector
     | GetKeyLengthRequest _ _ \<Rightarrow> OpGetKeyLength
     | GetKeyRequest _ _ \<Rightarrow> OpGetKey
     | DeleteKeyRequest _ _ \<Rightarrow> OpDeleteKey
     | ListKeysRequest _ \<Rightarrow> OpListKeys
     | ContainsKeyRequest _ _ \<Rightarrow> OpContainsKey
     | UpdateBlockRequest _ _ _ _ \<Rightarrow> OpUpdateBlock
     | ReplaceBlockRequest _ _ _ _ \<Rightarrow> OpReplaceBlock
     | SearchRequest _ _ _ _ _ \<Rightarrow> OpSearch
     | SearchMoreLikeThisRequest _ _ _ _ \<Rightarrow> OpSearchMLT
     | SearchInKeyRequest _ _ _ _ \<Rightarrow> OpSearchInKey
     | KeywordSearchRequest _ _ _ \<Rightarrow> OpKeywordSearch
     | SnapshotCollectionRequest _ \<Rightarrow> OpSnapshotCollection
     | BatchAppendBlockRequest _ _ \<Rightarrow> OpBatchAppendBlock)"

text \<open>The type of data each operation promises.\<close>

definition data_fits :: "ProtocolMethod \<Rightarrow> Data option \<Rightarrow> bool" where
  "data_fits op data = (case data of
       None \<Rightarrow> op \<in> {OpCreateCollection, OpDeleteCollection, OpCompactCollection, OpAppendBlock, OpBatchAppendBlock,
                    OpDeleteKey, OpUpdateBlock, OpReplaceBlock, OpSnapshotCollection}
     | Some (LengthData l) \<Rightarrow> op = OpGetKeyLength \<or> op = OpContainsKey \<and> (l = 0 \<or> l = 1)
     | Some (KeyListData _) \<Rightarrow> op = OpListKeys \<or> op = OpKeywordSearch
     | Some (CollectionListData _) \<Rightarrow> op = OpListCollections
     | Some (SearchListData _) \<Rightarrow> op = OpSearch \<or> op = OpSearchMLT \<or> op = OpSearchInKey
     | Some (BlockData_Data _) \<Rightarrow> op = OpGetBlock \<or> op = OpGetVector
     | Some (BlockListData _) \<Rightarrow> op = OpGetKey)"

definition answer_ok :: "ProtocolMethod \<Rightarrow> bool \<Rightarrow> ResponseContext \<Rightarrow> bool" where
  "answer_ok op fits r \<longleftrightarrow> (if Success r then Error r = None \<and> data_fits op (resp_Data r) else resp_Data r = None) \<and>
     (fits \<longrightarrow> (Success r \<longleftrightarrow> Error r = None))"

definition fresh_resp :: "ResponseContext \<Rightarrow> bool" where
  "fresh_resp r \<longleftrightarrow> \<not> Success r \<and> resp_Data r = None \<and> Error r = None"

lemma answer_fresh: "fresh_resp r \<Longrightarrow> answer_ok op False r"
  by (simp add: fresh_resp_def answer_ok_def)

lemma answer_error: "fresh_resp r \<Longrightarrow> data_fits op None \<Longrightarrow> answer_ok op fits (resp_error err r)"
  by (cases err) (simp_all add: fresh_resp_def answer_ok_def resp_error_def resp_fail_def resp_done_def)

lemma answer_value: "fresh_resp r \<Longrightarrow> (\<And>x. data_fits op (Some (f x))) \<Longrightarrow> answer_ok op fits (resp_value f res r)"
  by (cases res) (simp_all add: fresh_resp_def answer_ok_def resp_value_def resp_fail_def resp_done_def)

lemma answer_fail: "fresh_resp r \<Longrightarrow> answer_ok op fits (resp_fail e r)"
  by (simp add: fresh_resp_def answer_ok_def resp_fail_def)

lemma answer_done: "fresh_resp r \<Longrightarrow> data_fits op d \<Longrightarrow> answer_ok op fits (resp_done d r)"
  by (simp add: fresh_resp_def answer_ok_def resp_done_def)

lemmas answers = answer_fresh answer_error answer_value answer_fail answer_done

lemmas handle_mutators = handle_CreateCollection_def handle_DeleteCollection_def handle_AppendBlock_def
  handle_BatchAppendBlock_def handle_DeleteKey_def

lemmas handle_readers = handle_ListCollections_def handle_CompactCollection_def handle_GetBlock_def handle_GetVector_def
  handle_GetKeyLength_def handle_GetKey_def handle_ListKeys_def handle_ContainsKey_def handle_UpdateBlock_def
  handle_ReplaceBlock_def handle_Search_def handle_SearchMLT_def handle_SearchInKey_def handle_KeywordSearch_def
  handle_SnapshotCollection_def

text \<open>Parameters of another type: nothing is done, and only an unknown operation is an error.\<close>

lemma switch_mismatch:
  "op \<noteq> op_of params \<Longrightarrow>
   handle_switch E op params r vm = (vm, r) \<or> handle_switch E op params r vm = (vm, resp_fail NotImplemented r)"
  by (cases op; cases params) (simp_all add: handle_switch_def op_of_def handle_mutators handle_readers)

lemma switch_answer:
  assumes r: "fresh_resp r"
  shows "answer_ok op (op = op_of params) (snd (handle_switch E op params r vm))"
proof (cases "op = op_of params")
  case True
  with r show ?thesis
    by (cases params)
      (auto simp: handle_switch_def op_of_def handle_mutators handle_readers case_prod_beta Let_def data_fits_def
        intro!: answers split: option.split sum.split)
next
  case False
  with r switch_mismatch [OF False, of E r vm] show ?thesis by (auto intro: answers)
qed

lemma switch_id: "resp_ReqID (snd (handle_switch E op params r vm)) = resp_ReqID r"
proof (cases "op = op_of params")
  case True
  then show ?thesis
    by (cases params) (auto simp: handle_switch_def op_of_def handle_mutators handle_readers case_prod_beta Let_def
      resp_fail_def resp_done_def resp_error_def resp_value_def split: option.split sum.split)
next
  case False
  from switch_mismatch [OF this, of E r vm] show ?thesis by (auto simp: resp_fail_def)
qed

definition reads_only :: "ProtocolMethod \<Rightarrow> bool" where
  "reads_only op \<longleftrightarrow> op \<notin> {OpCreateCollection, OpDeleteCollection, OpAppendBlock, OpBatchAppendBlock, OpDeleteKey}"

lemma switch_reads: "reads_only op \<Longrightarrow> fst (handle_switch E op params r vm) = vm"
  by (cases op; cases params) (auto simp: reads_only_def handle_switch_def handle_readers split: option.split)

lemma recover_answer: "answer_ok op fits r \<Longrightarrow> answer_ok op fits (recover_panic (error_safety r))"
  by (auto simp: answer_ok_def recover_panic_def error_safety_def split: if_splits option.splits go_error.splits)

lemma recover_fields:
  "resp_ReqID (recover_panic (error_safety r)) = resp_ReqID r" "Error (recover_panic (error_safety r)) \<noteq> Some (GoPanic p)"
  by (simp_all add: recover_panic_def error_safety_def split: option.split go_error.split)

subsection \<open>Properties\<close>

text \<open>
  C11. Every request gets an answer of the right shape: it carries the id of the request; a success
  has no error and exactly the type of data that belongs to the operation; a failure has no data and
  is never a raw panic; and when the parameters belong to the operation, success is the absence of an
  error. Operations that read leave the storage unchanged.
\<close>

theorem handle_answer:
  "resp_ReqID (snd (handle E req vm)) = ReqID req \<and>
   answer_ok (Operation req) (Operation req = op_of (req_Params req)) (snd (handle E req vm)) \<and>
   Error (snd (handle E req vm)) \<noteq> Some (GoPanic p) \<and>
   (if reads_only (Operation req) then fst (handle E req vm) = vm else True)"
proof -
  let ?r = "\<lparr>resp_ReqID = ReqID req, Success = False, resp_Data = None, Error = None\<rparr>"
  have "fresh_resp ?r" by (simp add: fresh_resp_def)
  note a = recover_answer [OF switch_answer [OF this, of "Operation req" "req_Params req" E vm]]
  show ?thesis
    using a recover_fields switch_id [of E "Operation req" "req_Params req" ?r vm]
      switch_reads [of "Operation req" E "req_Params req" ?r vm]
    by (simp add: handle_def Let_def case_prod_beta)
qed

subsection \<open>An append and a read\<close>

lemma key_position: "unat (of_nat (length (key_blocks D n k)) :: uint32) = length (key_blocks D n k)"
  if "D n = Some (cfg, K)" and "vm_room m vm D"
proof -
  have "length (key_blocks D n k) < 2 ^ 32"
    using that by (fastforce simp: vm_room_def key_blocks_def split: option.split)
  then show ?thesis by (simp add: unat_of_nat_small)
qed

lemma handle_append_get:
  assumes "vm_rep (env_libs E) (env_lower E) vm D" and "D n = Some (cfg, K)" and "vm_room 1 vm D"
    and "block_acceptable (env_libs E) (env_lower E) n cfg k b"
  shows "\<exists>vm'. handle E \<lparr>ReqID = id1, Operation = OpAppendBlock, req_Params = AppendBlockRequest n k (Some b)\<rparr> vm =
      (vm', \<lparr>resp_ReqID = id1, Success = True, resp_Data = None, Error = None\<rparr>) \<and>
    handle E \<lparr>ReqID = id2, Operation = OpGetBlock, req_Params = GetBlockRequest n k (of_nat (length (key_blocks D n k)))\<rparr> vm' =
      (vm', \<lparr>resp_ReqID = id2, Success = True, resp_Data = Some (BlockData_Data (norm_block (env_lower E) b)), Error = None\<rparr>) \<and>
    vm_rep (env_libs E) (env_lower E) vm' (db_append n k b D)"
proof -
  have room: "vm_room (Suc 0) vm D" using assms(3) by simp
  obtain vm' where vm': "VM_AppendBlock E n k b vm = (vm', of_nat (length (key_blocks D n k)), None)"
    "vm_rep (env_libs E) (env_lower E) vm' (db_append n k b D)"
    using VM_AppendBlock_ok [OF assms(1,2) room assms(4)] by blast
  have "VM_GetBlock E n k (of_nat (length (key_blocks D n k))) vm' = Inr (norm_block (env_lower E) b)"
    using VM_GetBlock_rep [OF vm'(2), of n k "of_nat (length (key_blocks D n k))"] assms(2) key_position [OF assms(2,3)]
    by (simp add: spec_GetBlock_def db_append_def key_blocks_def)
  with vm' show ?thesis
    by (simp add: handle_def handle_switch_def handle_AppendBlock_def handle_GetBlock_def resp_error_def resp_value_def
        resp_done_def recover_panic_def error_safety_def Let_def)
qed

end
