(* ===== verification/Network.thy ===== *)
theory Network
  imports Transaction
begin

section \<open>The network server\<close>

text \<open>
  \<^verbatim>\<open>internal/network/server.go\<close>: a connection is read message by message, each message a length of
  four bytes and a body, and every understood request is answered before the next one is read. The
  protocol buffer library is a parameter: \<open>Unmarshal\<close> gives a request or fails, \<open>Marshal\<close> gives the
  bytes of a response or fails; so is the text of an error. The bytes that arrive before the
  connection ends are a list, and the bytes written are the result. The connection hands a request to
  the transaction manager and waits for the answer; here the answer is that of the handler \<open>h\<close>, and
  the theory \<open>Dispatcher\<close> describes the channels between the two.
\<close>

record WaddleRequest =
  RequestId :: string
  pb_Operation :: "Params option"

datatype Result =
    Result_Length uint64
  | Result_KeyList "string list"
  | Result_ColList "CollectionConfig list"
  | Result_SearchList "SearchResultItem list"
  | Result_Block BlockData
  | Result_BlockList "BlockData list"

record WaddleResponse =
  pb_RequestId :: string
  pb_Success :: bool
  ErrorMessage :: string
  pb_Result :: "Result option"

record Protobuf =
  Unmarshal :: "bytes \<Rightarrow> WaddleRequest option"
  Marshal :: "WaddleResponse \<Rightarrow> bytes option"
  ErrorText :: "go_error \<Rightarrow> string"

type_synonym 's handler = "RequestContext \<Rightarrow> 's \<Rightarrow> 's \<times> ResponseContext"

definition ReadFull :: "nat \<Rightarrow> bytes \<Rightarrow> (bytes \<times> bytes) option" where
  "ReadFull n conn = (if length conn < n then None else Some (take n conn, drop n conn))"

text \<open>A message with its length, as it is written.\<close>

definition frame :: "bytes \<Rightarrow> bytes" where
  "frame data = BE_PutUint32 (of_nat (length data)) @ data"

text \<open>The header and the body of the next message; nothing when the connection ends before its end.\<close>

definition read_frame :: "bytes \<Rightarrow> (bytes \<times> bytes) option" where
  "read_frame conn = (case ReadFull 4 conn of
       None \<Rightarrow> None
     | Some (lenBuf, conn) \<Rightarrow> ReadFull (unat (BE_Uint32 lenBuf)) conn)"

text \<open>The request context of a message; a message without a known operation has none.\<close>

definition request_ctx :: "WaddleRequest \<Rightarrow> RequestContext option" where
  "request_ctx reqPb = (case pb_Operation reqPb of
       None \<Rightarrow> None
     | Some params \<Rightarrow> Some \<lparr>ReqID = RequestId reqPb, Operation = op_of params, req_Params = params\<rparr>)"

definition decode_request :: "Protobuf \<Rightarrow> bytes \<Rightarrow> RequestContext option" where
  "decode_request P buf = (case Unmarshal P buf of None \<Rightarrow> None | Some reqPb \<Rightarrow> request_ctx reqPb)"

definition map_result :: "Data \<Rightarrow> Result" where
  "map_result data = (case data of
       LengthData d \<Rightarrow> Result_Length d
     | KeyListData d \<Rightarrow> Result_KeyList d
     | CollectionListData d \<Rightarrow> Result_ColList d
     | SearchListData d \<Rightarrow> Result_SearchList d
     | BlockData_Data d \<Rightarrow> Result_Block d
     | BlockListData d \<Rightarrow> Result_BlockList d)"

definition map_response :: "Protobuf \<Rightarrow> ResponseContext \<Rightarrow> WaddleResponse" where
  "map_response P respCtx =
     \<lparr>pb_RequestId = resp_ReqID respCtx, pb_Success = Success respCtx,
      ErrorMessage = (case Error respCtx of None \<Rightarrow> [] | Some err \<Rightarrow> ErrorText P err),
      pb_Result = map_option map_result (resp_Data respCtx)\<rparr>"

definition encode_response :: "Protobuf \<Rightarrow> ResponseContext \<Rightarrow> bytes option" where
  "encode_response P respCtx = Marshal P (map_response P respCtx)"

lemma read_frame_shorter: "read_frame conn = Some (buf, rest) \<Longrightarrow> length rest < length conn"
  by (auto simp: read_frame_def ReadFull_def split: if_splits option.splits prod.splits)

text \<open>
  The loop of the connection: a message that cannot be decoded is skipped, and the connection ends
  with the input or with a response that cannot be encoded.
\<close>

function handleConnection :: "Protobuf \<Rightarrow> 's handler \<Rightarrow> bytes \<Rightarrow> 's \<Rightarrow> 's \<times> bytes" where
  "handleConnection P h conn s = (case read_frame conn of
       None \<Rightarrow> (s, [])
     | Some (buf, rest) \<Rightarrow>
         (case decode_request P buf of
            None \<Rightarrow> handleConnection P h rest s
          | Some ctx \<Rightarrow>
              let (s, respCtx) = h ctx s
              in case encode_response P respCtx of
                   None \<Rightarrow> (s, [])
                 | Some data \<Rightarrow>
                     let (s, out) = handleConnection P h rest s
                     in (s, frame data @ out)))"
  by pat_completeness auto
termination
  by (relation "measure (\<lambda>(P, h, conn, s). length conn)") (auto dest: read_frame_shorter)

declare handleConnection.simps [simp del]

subsection \<open>Messages and their frames\<close>

lemma read_frame_frame: "length data < 2 ^ 32 \<Longrightarrow> read_frame (frame data @ rest) = Some (data, rest)"
  by (simp add: read_frame_def frame_def ReadFull_def codec_simps unat_of_nat_small)

lemma read_frame_Nil [simp]: "read_frame [] = None"
  by (simp add: read_frame_def ReadFull_def)

text \<open>The messages of a stream of bytes, and whether anything is left at its end.\<close>

function read_frames :: "bytes \<Rightarrow> bytes list \<times> bytes" where
  "read_frames conn = (case read_frame conn of
       None \<Rightarrow> ([], conn)
     | Some (buf, rest) \<Rightarrow> (let (bufs, left) = read_frames rest in (buf # bufs, left)))"
  by pat_completeness auto
termination
  by (relation "measure length") (auto dest: read_frame_shorter)

declare read_frames.simps [simp del]

lemma read_frames_concat:
  assumes "\<forall>b \<in> set bufs. length b < 2 ^ 32" and "read_frame rest = None"
  shows "read_frames (concat (map frame bufs) @ rest) = (bufs, rest)"
  using assms(1)
proof (induction bufs)
  case Nil
  with assms(2) show ?case by (simp add: read_frames.simps)
next
  case (Cons b bufs)
  then show ?case by (simp add: read_frames.simps [of "frame b @ _"] read_frame_frame)
qed

lemma read_frame_split: "read_frame conn = Some (buf, rest) \<Longrightarrow> conn = frame buf @ rest \<and> length buf < 2 ^ 32"
proof -
  assume a: "read_frame conn = Some (buf, rest)"
  let ?n = "unat (BE_Uint32 (take 4 conn))"
  have l: "4 \<le> length conn" "?n \<le> length (drop 4 conn)" and b: "buf = take ?n (drop 4 conn)" "rest = drop ?n (drop 4 conn)"
    using a by (auto simp: read_frame_def ReadFull_def split: if_splits option.splits)
  have n: "length buf = ?n" using l b by simp
  have "BE_PutUint32 (BE_Uint32 (take 4 conn)) = take 4 conn" using l by (intro be32.enc_dec) simp
  then have "frame buf = take 4 conn @ buf" using n by (simp add: frame_def)
  moreover have "?n < 2 ^ 32" using unsigned_less [of "BE_Uint32 (take 4 conn)"] by simp
  moreover have "conn = take 4 conn @ buf @ rest" unfolding b append_take_drop_id ..
  ultimately show ?thesis using n by simp
qed

lemma read_frames_split:
  "read_frames conn = (bufs, rest) \<Longrightarrow> conn = concat (map frame bufs) @ rest \<and> read_frame rest = None \<and> (\<forall>b \<in> set bufs. length b < 2 ^ 32)"
proof (induction conn arbitrary: bufs rest rule: read_frames.induct)
  case (1 conn)
  show ?case
  proof (cases "read_frame conn")
    case None
    with 1(2) show ?thesis by (simp add: read_frames.simps)
  next
    case (Some br)
    obtain b r where br: "br = (b, r)" by (cases br)
    obtain bufs' rest' where r: "read_frames r = (bufs', rest')" by fastforce
    with 1(2) Some br have "bufs = b # bufs'" "rest = rest'" by (simp_all add: read_frames.simps [of conn])
    with 1(1) [OF Some br [symmetric] r] read_frame_split Some br show ?thesis by fastforce
  qed
qed

subsection \<open>The specification of a connection\<close>

text \<open>The messages are served one after the other; a response that cannot be encoded ends the service.\<close>

fun serve :: "Protobuf \<Rightarrow> 's handler \<Rightarrow> bytes list \<Rightarrow> 's \<Rightarrow> 's \<times> bytes list" where
  "serve P h [] s = (s, [])"
| "serve P h (buf # bufs) s = (case decode_request P buf of
      None \<Rightarrow> serve P h bufs s
    | Some ctx \<Rightarrow>
        let (s, respCtx) = h ctx s
        in case encode_response P respCtx of
             None \<Rightarrow> (s, [])
           | Some data \<Rightarrow> let (s, out) = serve P h bufs s in (s, data # out))"

lemma handleConnection_frames:
  assumes "\<forall>b \<in> set bufs. length b < 2 ^ 32" and "read_frame rest = None"
  shows "handleConnection P h (concat (map frame bufs) @ rest) s = (let (s, out) = serve P h bufs s in (s, concat (map frame out)))"
  using assms(1)
proof (induction bufs arbitrary: s)
  case Nil
  with assms(2) show ?case by (simp add: handleConnection.simps)
next
  case (Cons b bufs)
  then have b: "read_frame (frame b @ concat (map frame bufs) @ rest) = Some (b, concat (map frame bufs) @ rest)"
    by (simp add: read_frame_frame)
  from Cons show ?case
    by (simp add: handleConnection.simps [of P h "frame b @ _"] b Let_def case_prod_beta split: option.split)
qed

lemma handleConnection_serve:
  "handleConnection P h conn s = (let (s, out) = serve P h (fst (read_frames conn)) s in (s, concat (map frame out)))"
proof -
  obtain bufs rest where r: "read_frames conn = (bufs, rest)" by fastforce
  from read_frames_split [OF r] handleConnection_frames [of bufs rest P h s] r show ?thesis by simp
qed

text \<open>The requests that are understood, and the run of a handler over them.\<close>

definition understood :: "Protobuf \<Rightarrow> bytes list \<Rightarrow> RequestContext list" where
  "understood P bufs = List.map_filter (decode_request P) bufs"

fun run_handler :: "'s handler \<Rightarrow> RequestContext list \<Rightarrow> 's \<Rightarrow> 's \<times> ResponseContext list" where
  "run_handler h [] s = (s, [])"
| "run_handler h (r # rs) s = (let (s, resp) = h r s; (s, resps) = run_handler h rs s in (s, resp # resps))"

lemma run_handler_length: "length (snd (run_handler h rs s)) = length rs"
  by (induction rs arbitrary: s) (simp_all add: Let_def case_prod_beta)

text \<open>
  Serving the messages is running the handler over a prefix of the understood requests, which is
  shorter only when the last response of the prefix cannot be encoded.
\<close>

definition served_prefix :: "Protobuf \<Rightarrow> 's handler \<Rightarrow> RequestContext list \<Rightarrow> nat \<Rightarrow> 's \<Rightarrow> bool" where
  "served_prefix P h rs n s \<longleftrightarrow> (let resps = snd (run_handler h (take n rs) s) in
     list_all (\<lambda>r. encode_response P r \<noteq> None) (butlast resps) \<and>
     (length rs \<le> n \<or> resps \<noteq> [] \<and> encode_response P (last resps) = None))"

lemma serve_run:
  "\<exists>n. served_prefix P h (understood P bufs) n s \<and>
     serve P h bufs s = (let (s, resps) = run_handler h (take n (understood P bufs)) s
       in (s, List.map_filter (encode_response P) resps))"
proof (induction bufs arbitrary: s)
  case Nil
  show ?case by (simp add: understood_def served_prefix_def List.map_filter_simps)
next
  case (Cons b bufs)
  show ?case
  proof (cases "decode_request P b")
    case None
    with Cons [of s] show ?thesis by (simp add: understood_def List.map_filter_simps)
  next
    case (Some r)
    then have u: "understood P (b # bufs) = r # understood P bufs" by (simp add: understood_def List.map_filter_simps)
    obtain s1 resp where h: "h r s = (s1, resp)" by fastforce
    show ?thesis
    proof (cases "encode_response P resp")
      case None
      with Some h show ?thesis
        by (intro exI [of _ 1])
          (simp add: u served_prefix_def List.map_filter_simps Let_def)
    next
      case d: (Some d)
      obtain n where n: "served_prefix P h (understood P bufs) n s1"
        "serve P h bufs s1 = (let (s, resps) = run_handler h (take n (understood P bufs)) s1
          in (s, List.map_filter (encode_response P) resps))" using Cons [of s1] by blast
      from Some h d n show ?thesis
        by (intro exI [of _ "Suc n"])
          (auto simp: u served_prefix_def List.map_filter_simps Let_def case_prod_beta)
    qed
  qed
qed

lemma frames_small: "\<forall>d \<in> set (List.map_filter (encode_response P) resps). length d < 2 ^ 32"
  if "\<forall>r d. Marshal P r = Some d \<longrightarrow> length d < 2 ^ 32"
  using that by (auto simp: List.map_filter_def encode_response_def)


text \<open>
  A small protocol for the witnesses: a message of two bytes is a request for the list of collections
  when the first byte is 0 and a request without an operation when it is 1; a response is its id and
  its success, and one with a long id cannot be encoded.
\<close>

definition small_protobuf :: Protobuf where
  "small_protobuf = \<lparr>
     Unmarshal = (\<lambda>b. if length b \<noteq> 2 then None
       else Some \<lparr>RequestId = string_of_bytes [b ! 1], pb_Operation = (if b ! 0 = 0 then Some ListCollectionsRequest else None)\<rparr>),
     Marshal = (\<lambda>r. if length (pb_RequestId r) < 100 then Some (bytes_of_string (pb_RequestId r) @ [if pb_Success r then 1 else 0]) else None),
     ErrorText = (\<lambda>_. ''error'')\<rparr>"

text \<open>
  Four messages: a request, one without an operation, one that is no request, a request; and the
  first byte of a fifth. Two are handled and answered.
\<close>

definition small_stream :: bytes where
  "small_stream = concat (map frame [[0, 65], [1, 66], [7], [0, 67]]) @ [0]"

lemma small_frames: "read_frames small_stream = ([[0, 65], [1, 66], [7], [0, 67]], [0])"
  unfolding small_stream_def by (rule read_frames_concat) (simp_all add: read_frame_def ReadFull_def)


end
