(* ===== verification/Dispatcher.thy ===== *)
theory Dispatcher
  imports Network
begin

section \<open>The request pipeline\<close>

text \<open>
  How \<^verbatim>\<open>handleConnection\<close> of \<^verbatim>\<open>server.go\<close> and \<^verbatim>\<open>dispatch\<close> and \<^verbatim>\<open>handle\<close> of \<^verbatim>\<open>manager.go\<close> work together:
  one goroutine per connection, the dispatcher, and one goroutine per request that is carried out.
  They meet at the channel of requests, which holds 100, at the semaphore, which admits 100, and at
  the response channel of each request, which has no buffer: the worker offers the response in a
  \<^verbatim>\<open>select\<close> with a \<^verbatim>\<open>default\<close>, so that it is delivered only to a connection that waits at that moment.
  A connection keeps the requests it has read and the responses it has written. The work of a request
  is one step of the handler.
\<close>

datatype conn_state =
    Reading
  | Sending RequestContext
  | Sent RequestContext
  | Waiting RequestContext
  | Replying RequestContext ResponseContext
  | Closed

record Conn =
  cstate :: conn_state
  asked :: "RequestContext list"
  answered :: "ResponseContext list"

type_synonym job = "nat \<times> RequestContext"

record 's Pipeline =
  conns :: "Conn list"
  Requests :: "job list"
  fetched :: "job option"
  running :: "(nat \<times> RequestContext \<times> ResponseContext option) list"
  Storage :: 's

definition queue_size :: nat where "queue_size = 100"

definition worker_limit :: nat where "worker_limit = 100"

definition tm_NewManager :: "'s \<Rightarrow> 's Pipeline" where
  "tm_NewManager storage = \<lparr>conns = [], Requests = [], fetched = None, running = [], Storage = storage\<rparr>"

definition set_state :: "nat \<Rightarrow> conn_state \<Rightarrow> 's Pipeline \<Rightarrow> 's Pipeline" where
  "set_state c st S = S\<lparr>conns := (conns S)[c := (conns S ! c)\<lparr>cstate := st\<rparr>]\<rparr>"

definition conn_at :: "'s Pipeline \<Rightarrow> nat \<Rightarrow> conn_state \<Rightarrow> bool" where
  "conn_at S c st \<longleftrightarrow> c < length (conns S) \<and> cstate (conns S ! c) = st"

text \<open>What clients do: connect, send a request that decodes, close the connection.\<close>

inductive client_step :: "'s Pipeline \<Rightarrow> 's Pipeline \<Rightarrow> bool" where
  accept: "client_step S (S\<lparr>conns := conns S @ [\<lparr>cstate = Reading, asked = [], answered = []\<rparr>]\<rparr>)"
| receive: "conn_at S c Reading \<Longrightarrow>
    client_step S (S\<lparr>conns := (conns S)[c := (conns S ! c)\<lparr>cstate := Sending req, asked := asked (conns S ! c) @ [req]\<rparr>]\<rparr>)"
| hang_up: "conn_at S c Reading \<Longrightarrow> client_step S (set_state c Closed S)"

text \<open>
  What the server does: the connection sends the request to the channel, then waits at its response
  channel; the dispatcher takes a request, then starts a worker when a token is free; the worker
  carries the request out, then offers the response once; the connection writes the response and
  reads on, or ends when it cannot encode or write it.
\<close>

inductive server_step :: "'s handler \<Rightarrow> 's Pipeline \<Rightarrow> 's Pipeline \<Rightarrow> bool" for h where
  send: "conn_at S c (Sending req) \<Longrightarrow> length (Requests S) < queue_size \<Longrightarrow>
    server_step h S (set_state c (Sent req) (S\<lparr>Requests := Requests S @ [(c, req)]\<rparr>))"
| listen: "conn_at S c (Sent req) \<Longrightarrow> server_step h S (set_state c (Waiting req) S)"
| fetch: "fetched S = None \<Longrightarrow> Requests S = j # js \<Longrightarrow> server_step h S (S\<lparr>fetched := Some j, Requests := js\<rparr>)"
| spawn: "fetched S = Some (c, req) \<Longrightarrow> length (running S) < worker_limit \<Longrightarrow>
    server_step h S (S\<lparr>fetched := None, running := running S @ [(c, req, None)]\<rparr>)"
| work: "running S = ws @ (c, req, None) # ws' \<Longrightarrow> h req (Storage S) = (st, resp) \<Longrightarrow>
    server_step h S (S\<lparr>running := ws @ (c, req, Some resp) # ws', Storage := st\<rparr>)"
| deliver: "running S = ws @ (c, req, Some resp) # ws' \<Longrightarrow> conn_at S c (Waiting req) \<Longrightarrow>
    server_step h S (set_state c (Replying req resp) (S\<lparr>running := ws @ ws'\<rparr>))"
| drop: "running S = ws @ (c, req, Some resp) # ws' \<Longrightarrow> \<not> conn_at S c (Waiting req) \<Longrightarrow>
    server_step h S (S\<lparr>running := ws @ ws'\<rparr>)"
| reply: "conn_at S c (Replying req resp) \<Longrightarrow>
    server_step h S (S\<lparr>conns := (conns S)[c := (conns S ! c)\<lparr>cstate := Reading, answered := answered (conns S ! c) @ [resp]\<rparr>]\<rparr>)"
| reply_fails: "conn_at S c (Replying req resp) \<Longrightarrow> server_step h S (set_state c Closed S)"

inductive_cases client_stepE: "client_step S S'"
inductive_cases server_stepE: "server_step h S S'"

inductive pipeline_reach :: "'s handler \<Rightarrow> 's Pipeline \<Rightarrow> 's Pipeline \<Rightarrow> bool" for h where
  start: "pipeline_reach h S S"
| client: "pipeline_reach h S S' \<Longrightarrow> client_step S' S'' \<Longrightarrow> pipeline_reach h S S''"
| server: "pipeline_reach h S S' \<Longrightarrow> server_step h S' S'' \<Longrightarrow> pipeline_reach h S S''"

subsection \<open>Updates of connections\<close>

lemma conn_at_update:
  "conn_at (S\<lparr>conns := (conns S)[c := x]\<rparr>) c' st \<longleftrightarrow>
     (if c' = c \<and> c < length (conns S) then cstate x = st else conn_at S c' st)"
  by (auto simp: conn_at_def nth_list_update)

lemma conn_at_set_state:
  "conn_at (set_state c st S) c' st' \<longleftrightarrow>
     (if c' = c \<and> c < length (conns S) then st = st' else conn_at S c' st')"
  by (simp add: set_state_def conn_at_update)

lemma conn_at_accept:
  "conn_at (S\<lparr>conns := conns S @ [x]\<rparr>) c st \<longleftrightarrow> (if c = length (conns S) then cstate x = st else conn_at S c st)"
  by (auto simp: conn_at_def nth_append)

lemma conn_at_other [simp]:
  "conn_at (S\<lparr>Requests := q\<rparr>) c st = conn_at S c st" "conn_at (S\<lparr>fetched := f\<rparr>) c st = conn_at S c st"
  "conn_at (S\<lparr>running := r\<rparr>) c st = conn_at S c st" "conn_at (S\<lparr>Storage := s\<rparr>) c st = conn_at S c st"
  by (simp_all add: conn_at_def)

lemma set_state_fields [simp]:
  "Requests (set_state c st S) = Requests S" "fetched (set_state c st S) = fetched S"
  "running (set_state c st S) = running S" "length (conns (set_state c st S)) = length (conns S)"
  by (simp_all add: set_state_def)

lemma conn_at_unique: "conn_at S c st \<Longrightarrow> conn_at S c st' \<Longrightarrow> st = st'"
  by (simp add: conn_at_def)

lemma conn_at_length: "conn_at S c st \<Longrightarrow> c < length (conns S)"
  by (simp add: conn_at_def)

lemmas conn_at_simps = conn_at_update conn_at_set_state conn_at_accept

subsection \<open>The invariant\<close>

text \<open>The requests inside the manager.\<close>

definition jobs :: "'s Pipeline \<Rightarrow> job list" where
  "jobs S = Requests S @ (case fetched S of None \<Rightarrow> [] | Some j \<Rightarrow> [j]) @ map (\<lambda>(c, req, _). (c, req)) (running S)"

definition answers :: "'s handler \<Rightarrow> RequestContext \<Rightarrow> ResponseContext \<Rightarrow> bool" where
  "answers h req resp \<longleftrightarrow> (\<exists>s. resp = snd (h req s))"

text \<open>
  Requests and responses of a connection: the responses are those of its requests, in order, and at
  most the last request is unanswered.
\<close>

definition conn_ok :: "'s handler \<Rightarrow> Conn \<Rightarrow> bool" where
  "conn_ok h x \<longleftrightarrow> (case cstate x of
       Reading \<Rightarrow> list_all2 (answers h) (asked x) (answered x)
     | Closed \<Rightarrow> \<exists>rs. prefix rs (asked x) \<and> length (asked x) \<le> length rs + 1 \<and> list_all2 (answers h) rs (answered x)
     | Sending req \<Rightarrow> \<exists>rs. asked x = rs @ [req] \<and> list_all2 (answers h) rs (answered x)
     | Sent req \<Rightarrow> \<exists>rs. asked x = rs @ [req] \<and> list_all2 (answers h) rs (answered x)
     | Waiting req \<Rightarrow> \<exists>rs. asked x = rs @ [req] \<and> list_all2 (answers h) rs (answered x)
     | Replying req resp \<Rightarrow> answers h req resp \<and> (\<exists>rs. asked x = rs @ [req] \<and> list_all2 (answers h) rs (answered x)))"

definition jobs_ok :: "'s Pipeline \<Rightarrow> bool" where
  "jobs_ok S \<longleftrightarrow> distinct (map fst (jobs S)) \<and>
     (\<forall>(c, req) \<in> set (jobs S). conn_at S c (Sent req) \<or> conn_at S c (Waiting req))"

definition pipeline_ok :: "'s handler \<Rightarrow> 's Pipeline \<Rightarrow> bool" where
  "pipeline_ok h S \<longleftrightarrow> length (Requests S) \<le> queue_size \<and> length (running S) \<le> worker_limit \<and> jobs_ok S \<and>
     list_all (\<lambda>(_, req, resp). case resp of None \<Rightarrow> True | Some r \<Rightarrow> answers h req r) (running S) \<and>
     list_all (conn_ok h) (conns S)"

lemma pipeline_ok_initial: "pipeline_ok h (tm_NewManager s)"
  by (simp add: pipeline_ok_def tm_NewManager_def jobs_ok_def jobs_def)

lemma conn_ok_at: "list_all (conn_ok h) (conns S) \<Longrightarrow> c < length (conns S) \<Longrightarrow> conn_ok h (conns S ! c)"
  by (simp add: list_all_length)

lemma list_all_conns_update:
  "list_all (conn_ok h) xs \<Longrightarrow> conn_ok h x \<Longrightarrow> list_all (conn_ok h) (xs[c := x])"
  using set_update_subset_insert [of xs c x] by (auto simp: list_all_iff)

text \<open>A connection without a request in the manager can change its state freely.\<close>

lemma jobs_ok_free:
  assumes "jobs_ok S" and "\<And>c' st. c' \<noteq> c \<Longrightarrow> conn_at S c' st \<Longrightarrow> conn_at S' c' st" and "jobs S' = jobs S"
    and "conn_at S c st" and "\<And>req. st \<noteq> Sent req \<and> st \<noteq> Waiting req"
  shows "jobs_ok S'"
proof -
  have "c \<noteq> c'" if "(c', req) \<in> set (jobs S)" for c' req
    using that assms(1,4,5) conn_at_unique unfolding jobs_ok_def by fastforce
  with assms(1-3) show ?thesis unfolding jobs_ok_def by fastforce
qed

lemma jobs_fields [simp]:
  "jobs (set_state c st S) = jobs S" "jobs (S\<lparr>conns := x\<rparr>) = jobs S" "jobs (S\<lparr>Storage := s\<rparr>) = jobs S"
  by (simp_all add: jobs_def)

lemma client_step_ok:
  assumes "client_step S S'" and ok: "pipeline_ok h S"
  shows "pipeline_ok h S'"
  using assms(1)
proof (cases rule: client_step.cases)
  case accept
  have "jobs_ok S'" using ok accept
    by (fastforce simp: pipeline_ok_def jobs_ok_def conn_at_simps dest: conn_at_length)
  with ok accept show ?thesis by (simp add: pipeline_ok_def conn_ok_def)
next
  case (receive c req)
  have "conn_ok h (conns S ! c)" using ok receive(2) by (simp add: pipeline_ok_def conn_at_def conn_ok_at)
  with receive have "conn_ok h ((conns S ! c)\<lparr>cstate := Sending req, asked := asked (conns S ! c) @ [req]\<rparr>)"
    by (simp add: conn_ok_def conn_at_def)
  moreover have "jobs_ok S'" using ok receive
    by (intro jobs_ok_free [of S c S' Reading]) (simp_all add: pipeline_ok_def conn_at_simps)
  ultimately show ?thesis using ok receive(1) by (simp add: pipeline_ok_def list_all_conns_update)
next
  case (hang_up c)
  have "conn_ok h (conns S ! c)" using ok hang_up(2) by (simp add: pipeline_ok_def conn_at_def conn_ok_at)
  with hang_up have "conn_ok h ((conns S ! c)\<lparr>cstate := Closed\<rparr>)"
    by (auto simp: conn_ok_def conn_at_def)
  moreover have "jobs_ok S'" using ok hang_up
    by (intro jobs_ok_free [of S c S' Reading]) (simp_all add: pipeline_ok_def conn_at_simps)
  ultimately show ?thesis using ok hang_up(1) by (simp add: pipeline_ok_def set_state_def list_all_conns_update)
qed

text \<open>Taking requests out of the manager, or moving them inside it, keeps the rest in order.\<close>

lemma distinct_submset:
  assumes "mset xs \<subseteq># mset ys" and "distinct ys"
  shows "distinct xs"
proof -
  obtain B where "mset ys = mset xs + B" using assms(1) by (auto simp: mset_subset_eq_exists_conv)
  then obtain zs where "mset ys = mset (xs @ zs)" by (metis ex_mset mset_append)
  with assms(2) have "distinct (xs @ zs)" by (metis mset_eq_imp_distinct_iff)
  then show ?thesis by simp
qed

lemma jobs_ok_subset:
  assumes "jobs_ok S" and "\<And>c st. conn_at S' c st = conn_at S c st" and "mset (jobs S') \<subseteq># mset (jobs S)"
  shows "jobs_ok S'"
proof -
  have "image_mset fst (mset (jobs S')) \<subseteq># image_mset fst (mset (jobs S))" using assms(3) by (rule image_mset_subseteq_mono)
  then have "mset (map fst (jobs S')) \<subseteq># mset (map fst (jobs S))" by simp
  then have "distinct (map fst (jobs S'))" using assms(1) distinct_submset unfolding jobs_ok_def by blast
  moreover have "set (jobs S') \<subseteq> set (jobs S)" using set_mset_mono [OF assms(3)] by simp
  ultimately show ?thesis using assms(1) unfolding jobs_ok_def assms(2) by blast
qed

lemma jobs_ok_send:
  assumes "jobs_ok S" and c: "conn_at S c (Sending req)" and j: "mset (jobs S') = add_mset (c, req) (mset (jobs S))"
    and at: "\<And>c' st. conn_at S' c' st \<longleftrightarrow> (if c' = c then st = Sent req else conn_at S c' st)"
  shows "jobs_ok S'"
proof -
  have new: "c \<notin> fst ` set (jobs S)"
    using assms(1) conn_at_unique [OF c] unfolding jobs_ok_def by fastforce
  have m: "mset (map fst (jobs S')) = mset (c # map fst (jobs S))" using j by simp
  have "distinct (c # map fst (jobs S))" using assms(1) new by (simp add: jobs_ok_def)
  with mset_eq_imp_distinct_iff [OF m] have "distinct (map fst (jobs S'))" by simp
  moreover have "set (jobs S') = insert (c, req) (set (jobs S))" by (metis j set_mset_add_mset_insert set_mset_mset)
  ultimately show ?thesis using assms(1) at new unfolding jobs_ok_def by (auto; force)
qed

lemma jobs_ok_deliver:
  assumes "jobs_ok S" and j: "mset (jobs S) = add_mset (c, req) (mset (jobs S'))"
    and at: "\<And>c' st. c' \<noteq> c \<Longrightarrow> conn_at S' c' st = conn_at S c' st"
  shows "jobs_ok S'"
proof -
  have m: "mset (map fst (jobs S)) = mset (c # map fst (jobs S'))" using j by simp
  have "distinct (map fst (jobs S))" using assms(1) by (simp add: jobs_ok_def)
  with mset_eq_imp_distinct_iff [OF m] have d: "c \<notin> fst ` set (jobs S')" "distinct (map fst (jobs S'))" by simp_all
  moreover have "set (jobs S) = insert (c, req) (set (jobs S'))" by (metis j set_mset_add_mset_insert set_mset_mset)
  ultimately show ?thesis using assms(1) at unfolding jobs_ok_def by (auto; force)
qed

lemma server_step_jobs:
  assumes "server_step h S S'" and "jobs_ok S"
  shows "jobs_ok S'"
  using assms(1)
proof (cases rule: server_step.cases)
  case (send c req)
  then show ?thesis using assms(2)
    by (intro jobs_ok_send [of S c req S']) (auto simp: jobs_def conn_at_simps dest: conn_at_length)
next
  case (listen c req)
  then show ?thesis using assms(2) conn_at_unique
    unfolding jobs_ok_def by (fastforce simp: conn_at_simps)
next
  case (fetch j js)
  then show ?thesis by (intro jobs_ok_subset [OF assms(2)]) (simp_all add: jobs_def)
next
  case (spawn c req)
  then show ?thesis by (intro jobs_ok_subset [OF assms(2)]) (simp_all add: jobs_def)
next
  case (work ws c req ws' st resp)
  then show ?thesis by (intro jobs_ok_subset [OF assms(2)]) (simp_all add: jobs_def)
next
  case (deliver ws c req resp ws')
  then show ?thesis
    by (intro jobs_ok_deliver [OF assms(2), of c req]) (auto simp: jobs_def conn_at_simps)
next
  case (drop ws c req resp ws')
  then show ?thesis by (intro jobs_ok_subset [OF assms(2)]) (simp_all add: jobs_def)
next
  case (reply c req resp)
  then show ?thesis
    by (intro jobs_ok_free [OF assms(2), of c _ "Replying req resp"]) (simp_all add: conn_at_simps)
next
  case (reply_fails c req resp)
  then show ?thesis
    by (intro jobs_ok_free [OF assms(2), of c _ "Replying req resp"]) (simp_all add: conn_at_simps)
qed

text \<open>The step of one connection, as its record changes.\<close>

lemma conn_ok_moves:
  assumes "conn_ok h x"
  shows "cstate x = Sending req \<Longrightarrow> conn_ok h (x\<lparr>cstate := Sent req\<rparr>)"
    and "cstate x = Sent req \<Longrightarrow> conn_ok h (x\<lparr>cstate := Waiting req\<rparr>)"
    and "cstate x = Waiting req \<Longrightarrow> answers h req resp \<Longrightarrow> conn_ok h (x\<lparr>cstate := Replying req resp\<rparr>)"
    and "cstate x = Replying req resp \<Longrightarrow> conn_ok h (x\<lparr>cstate := Reading, answered := answered x @ [resp]\<rparr>)"
    and "cstate x = Replying req resp \<Longrightarrow> conn_ok h (x\<lparr>cstate := Closed\<rparr>)"
  using assms by (auto simp: conn_ok_def list_all2_append intro: list_all2_appendI)

lemma server_step_ok:
  assumes "server_step h S S'" and ok: "pipeline_ok h S"
  shows "pipeline_ok h S'"
proof -
  have j: "jobs_ok S'" using server_step_jobs [OF assms(1)] ok by (simp add: pipeline_ok_def)
  have c: "conn_ok h (conns S ! c) \<and> cstate (conns S ! c) = st" if "conn_at S c st" for c st
    using that ok conn_ok_at by (auto simp: pipeline_ok_def conn_at_def)
  have a: "list_all (conn_ok h) (conns S)" using ok by (simp add: pipeline_ok_def)
  note up = list_all_conns_update [OF a]
  from assms(1) show ?thesis
  proof (cases rule: server_step.cases)
    case (send c req)
    with c [OF send(2)] up [OF conn_ok_moves(1), where c = c] j ok show ?thesis by (simp add: pipeline_ok_def set_state_def)
  next
    case (listen c req)
    with c [OF listen(2)] up [OF conn_ok_moves(2), where c = c] j ok show ?thesis by (simp add: pipeline_ok_def set_state_def)
  next
    case (work ws c req ws' st resp)
    then have "answers h req resp" unfolding answers_def by (metis snd_conv)
    with work j ok show ?thesis by (simp add: pipeline_ok_def)
  next
    case (deliver ws c req resp ws')
    then have "answers h req resp" using ok by (simp add: pipeline_ok_def)
    with deliver c [OF deliver(3)] up [OF conn_ok_moves(3), where c = c] j ok show ?thesis by (simp add: pipeline_ok_def set_state_def)
  next
    case (reply c req resp)
    with c [OF reply(2)] up [OF conn_ok_moves(4), where c = c] j ok show ?thesis by (simp add: pipeline_ok_def)
  next
    case (reply_fails c req resp)
    with c [OF reply_fails(2)] up [OF conn_ok_moves(5), where c = c] j ok show ?thesis by (simp add: pipeline_ok_def set_state_def)
  qed (use j ok in \<open>simp_all add: pipeline_ok_def\<close>)
qed

lemma reach_ok: "pipeline_reach h S S' \<Longrightarrow> pipeline_ok h S \<Longrightarrow> pipeline_ok h S'"
  by (induction rule: pipeline_reach.induct) (auto intro: client_step_ok server_step_ok)

subsection \<open>Server steps end\<close>

text \<open>The steps that a connection and its request have left, at most.\<close>

fun steps_left :: "conn_state \<Rightarrow> nat" where
  "steps_left Reading = 0"
| "steps_left Closed = 0"
| "steps_left (Replying _ _) = 1"
| "steps_left (Waiting _) = 2"
| "steps_left (Sent _) = 3"
| "steps_left (Sending _) = 8"

definition weight :: "'s Pipeline \<Rightarrow> nat" where
  "weight S = (\<Sum>x\<leftarrow>conns S. steps_left (cstate x)) + 4 * length (Requests S) + (if fetched S = None then 0 else 3) +
     (\<Sum>(_, _, resp)\<leftarrow>running S. if resp = None then 2 else 1)"

lemma sum_list_change:
  fixes f :: "'a \<Rightarrow> nat"
  shows "c < length xs \<Longrightarrow> (\<Sum>x\<leftarrow>xs[c := y]. f x) + f (xs ! c) = (\<Sum>x\<leftarrow>xs. f x) + f y"
  by (induction xs arbitrary: c) (auto split: nat.split)

lemma conns_weight:
  assumes "conn_at S c st" and "cstate x = st'"
  shows "(\<Sum>x\<leftarrow>(conns S)[c := x]. steps_left (cstate x)) + steps_left st = (\<Sum>x\<leftarrow>conns S. steps_left (cstate x)) + steps_left st'"
  using sum_list_change [of c "conns S" "\<lambda>x. steps_left (cstate x)" x] assms by (simp add: conn_at_def)

lemma server_step_weight: "server_step h S S' \<Longrightarrow> weight S' < weight S"
proof (induction rule: server_step.induct)
  case (send S c req)
  show ?case using conns_weight [OF send(1), of "(conns S ! c)\<lparr>cstate := Sent req\<rparr>"] by (simp add: weight_def set_state_def)
next
  case (listen S c req)
  show ?case using conns_weight [OF listen(1), of "(conns S ! c)\<lparr>cstate := Waiting req\<rparr>"] by (simp add: weight_def set_state_def)
next
  case (deliver S ws c req resp ws')
  show ?case using deliver(1) conns_weight [OF deliver(2), of "(conns S ! c)\<lparr>cstate := Replying req resp\<rparr>"]
    by (simp add: weight_def set_state_def)
next
  case (reply S c req resp)
  show ?case using conns_weight [OF reply, of "(conns S ! c)\<lparr>cstate := Reading, answered := answered (conns S ! c) @ [resp]\<rparr>"]
    by (simp add: weight_def)
next
  case (reply_fails S c req resp)
  show ?case using conns_weight [OF reply_fails, of "(conns S ! c)\<lparr>cstate := Closed\<rparr>"] by (simp add: weight_def set_state_def)
qed (simp_all add: weight_def)

lemma server_steps_bounded: "(server_step h ^^ n) S S' \<Longrightarrow> n + weight S' \<le> weight S"
proof (induction n arbitrary: S')
  case (Suc n)
  then obtain T where "(server_step h ^^ n) S T" "server_step h T S'" by auto
  with Suc.IH server_step_weight [of h T S'] show ?case by fastforce
qed simp

subsection \<open>Progress\<close>

lemma running_can_step:
  assumes "running S = w # ws"
  shows "\<exists>S'. server_step h S S'"
proof -
  obtain c req resp where w: "w = (c, req, resp)" by (cases w)
  show ?thesis
  proof (cases resp)
    case None
    then show ?thesis using assms w server_step.work [of S "[]" c req ws h] by (metis append_Nil surj_pair)
  next
    case (Some r)
    then show ?thesis using assms w server_step.deliver [of S "[]" c req r ws h] server_step.drop [of S "[]" c req r ws h]
      by (metis append_Nil)
  qed
qed

lemma jobs_can_step: "jobs S \<noteq> [] \<Longrightarrow> \<exists>S'. server_step h S S'"
proof (cases "running S")
  case Nil
  assume "jobs S \<noteq> []"
  with Nil show ?thesis
    using server_step.fetch [of S _ _ h] server_step.spawn [of S _ _ h]
    by (cases "fetched S"; cases "Requests S") (fastforce simp: jobs_def worker_limit_def)+
qed (use running_can_step in blast)

lemma conn_can_step:
  assumes "conn_at S c st" and "st = Sending req \<or> st = Sent req \<or> st = Replying req resp"
  shows "\<exists>S'. server_step h S S'"
proof (cases "jobs S = []")
  case True
  then have "length (Requests S) < queue_size" by (simp add: jobs_def queue_size_def)
  with assms server_step.send [of S c req h] server_step.listen [of S c req h] server_step.reply [of S c req resp h]
  show ?thesis by blast
qed (use jobs_can_step in blast)

text \<open>When the server can do nothing more, the manager is empty and no connection is on its way.\<close>

lemma quiet_state:
  assumes "\<And>S'. \<not> server_step h S S'" and "c < length (conns S)"
  shows "jobs S = [] \<and> (conn_at S c Reading \<or> conn_at S c Closed \<or> (\<exists>req. conn_at S c (Waiting req)))"
proof -
  have "jobs S = []" using assms(1) jobs_can_step by blast
  moreover have at: "conn_at S c (cstate (conns S ! c))" using assms(2) by (simp add: conn_at_def)
  have "cstate (conns S ! c) \<noteq> Sending req \<and> cstate (conns S ! c) \<noteq> Sent req \<and> cstate (conns S ! c) \<noteq> Replying req resp" for req resp
    using conn_can_step [OF at, of req resp h] assms(1) by blast
  ultimately show ?thesis using at by (cases "cstate (conns S ! c)") auto
qed

lemma server_run_end: "\<exists>S'. (server_step h)\<^sup>*\<^sup>* S S' \<and> (\<forall>S''. \<not> server_step h S' S'')"
proof (induction "weight S" arbitrary: S rule: less_induct)
  case less
  show ?case
  proof (cases "\<exists>S1. server_step h S S1")
    case True
    then obtain S1 where S1: "server_step h S S1" by blast
    from less [OF server_step_weight [OF S1]] obtain S' where "(server_step h)\<^sup>*\<^sup>* S1 S'" "\<forall>S''. \<not> server_step h S' S''" by blast
    with S1 show ?thesis by (meson converse_rtranclp_into_rtranclp)
  qed auto
qed

lemma quiet_conns:
  assumes "\<forall>S'. \<not> server_step h S S'"
  shows "jobs S = [] \<and> list_all (\<lambda>x. cstate x = Reading \<or> cstate x = Closed \<or> (\<exists>req. cstate x = Waiting req)) (conns S)"
proof -
  have "jobs S = []" using assms jobs_can_step by blast
  moreover have "cstate (conns S ! c) = Reading \<or> cstate (conns S ! c) = Closed \<or> (\<exists>req. cstate (conns S ! c) = Waiting req)"
    if "c < length (conns S)" for c
    using quiet_state [OF _ that, of h] assms by (auto simp: conn_at_def)
  ultimately show ?thesis by (simp add: list_all_length)
qed

subsection \<open>A waiting connection\<close>

text \<open>The answer to the request is on its way, or it has been written, or the connection has ended.\<close>

definition answer_due :: "'s handler \<Rightarrow> nat \<Rightarrow> RequestContext \<Rightarrow> ResponseContext list \<Rightarrow> 's Pipeline \<Rightarrow> bool" where
  "answer_due h c req past S \<longleftrightarrow>
     conn_at S c (Waiting req) \<and> (c, req) \<in> set (jobs S) \<and> answered (conns S ! c) = past \<or>
     (\<exists>resp. conn_at S c (Replying req resp) \<and> answers h req resp \<and> answered (conns S ! c) = past) \<or>
     (\<exists>resp. conn_at S c Reading \<and> answers h req resp \<and> answered (conns S ! c) = past @ [resp]) \<or>
     conn_at S c Closed"

text \<open>A step of the server leaves a connection alone or moves it to its next state.\<close>

definition conn_moves :: "Conn \<Rightarrow> Conn \<Rightarrow> bool" where
  "conn_moves x y \<longleftrightarrow> (case cstate x of
       Sending req \<Rightarrow> y = x\<lparr>cstate := Sent req\<rparr>
     | Sent req \<Rightarrow> y = x\<lparr>cstate := Waiting req\<rparr>
     | Waiting req \<Rightarrow> \<exists>resp. y = x\<lparr>cstate := Replying req resp\<rparr>
     | Replying req resp \<Rightarrow> y = x\<lparr>cstate := Reading, answered := answered x @ [resp]\<rparr> \<or> y = x\<lparr>cstate := Closed\<rparr>
     | _ \<Rightarrow> False)"

lemma server_step_conn:
  "server_step h S S' \<Longrightarrow> length (conns S') = length (conns S) \<and>
   (c < length (conns S) \<longrightarrow> conns S' ! c = conns S ! c \<or> conn_moves (conns S ! c) (conns S' ! c))"
  by (induction rule: server_step.induct)
    (auto simp: set_state_def conn_moves_def conn_at_def nth_list_update)

lemma conn_at_cases:
  assumes "server_step h S S'" and "conn_at S c st"
  shows "conns S' ! c = conns S ! c \<and> conn_at S' c st \<or>
    conn_moves (conns S ! c) (conns S' ! c) \<and> conn_at S' c (cstate (conns S' ! c))"
  using server_step_conn [OF assms(1), of c] assms(2) by (auto simp: conn_at_def)

text \<open>Only the offer of its own worker takes a request out of the manager.\<close>

lemma server_step_job:
  assumes "server_step h S S'" and "conn_at S c (Waiting req)" and "(c, req) \<in> set (jobs S)"
    and ok: "pipeline_ok h S"
  shows "(c, req) \<in> set (jobs S') \<or> (\<exists>resp. conn_at S' c (Replying req resp) \<and> answers h req resp)"
  using assms(1)
proof (cases rule: server_step.cases)
  case (deliver ws c' req' resp ws')
  then have "answers h req' resp" using ok by (simp add: pipeline_ok_def)
  with deliver assms(3) show ?thesis
    by (cases "(c', req') = (c, req)") (auto simp: conn_at_simps jobs_def conn_at_length)
qed (use assms(2,3) in \<open>auto simp: jobs_def\<close>)

lemma answer_due_step:
  assumes st: "server_step h S S'" and ok: "pipeline_ok h S" and due: "answer_due h c req past S"
  shows "answer_due h c req past S'"
  using due unfolding answer_due_def
proof (elim disjE exE conjE, goal_cases)
  case 1
  have "c < length (conns S')" using server_step_conn [OF st, of c] conn_at_length [OF 1(1)] by simp
  then have "conn_ok h (conns S' ! c)" using server_step_ok [OF st ok] by (simp add: pipeline_ok_def conn_ok_at)
  with conn_at_cases [OF st 1(1)] server_step_job [OF st 1(1,2) ok] 1 show ?case
    by (auto simp: conn_moves_def conn_at_def conn_ok_def)
next
  case (2 resp)
  from conn_at_cases [OF st 2(1)] 2 show ?case by (auto simp: conn_moves_def conn_at_def)
next
  case (3 resp)
  from conn_at_cases [OF st 3(1)] 3 show ?case by (auto simp: conn_moves_def conn_at_def)
next
  case 4
  from conn_at_cases [OF st 4] 4 show ?case by (auto simp: conn_moves_def conn_at_def)
qed

lemma answer_due_run:
  "(server_step h)\<^sup>*\<^sup>* S S' \<Longrightarrow> pipeline_ok h S \<Longrightarrow> answer_due h c req past S \<Longrightarrow> pipeline_ok h S' \<and> answer_due h c req past S'"
  by (induction rule: rtranclp_induct) (auto intro: answer_due_step server_step_ok)

lemma answer_due_quiet:
  assumes "answer_due h c req past S" and "\<And>S'. \<not> server_step h S S'"
  shows "conn_at S c Closed \<or> (\<exists>resp. conn_at S c Reading \<and> answers h req resp \<and> answered (conns S ! c) = past @ [resp])"
proof -
  have "c < length (conns S)" using assms(1) by (auto simp: answer_due_def conn_at_def)
  from quiet_state [OF assms(2) this] assms(1) show ?thesis
    unfolding answer_due_def by (fastforce dest: conn_at_unique)
qed

subsection \<open>A lost response\<close>

text \<open>A connection that waits for a request that is no longer in the manager waits for ever.\<close>

definition hangs :: "nat \<Rightarrow> RequestContext \<Rightarrow> 's Pipeline \<Rightarrow> bool" where
  "hangs c req S \<longleftrightarrow> conn_at S c (Waiting req) \<and> c \<notin> fst ` set (jobs S)"

lemma hangs_server: "server_step h S S' \<Longrightarrow> hangs c req S \<Longrightarrow> hangs c req S'"
proof (induction rule: server_step.induct)
  case (send S c' req')
  then show ?case using conn_at_unique by (fastforce simp: hangs_def conn_at_simps jobs_def)
next
  case (deliver S ws c' req' resp ws')
  then show ?case by (auto simp: hangs_def conn_at_simps jobs_def)
next
  case (listen S c' req')
  then show ?case using conn_at_unique by (fastforce simp: hangs_def conn_at_simps)
next
  case (reply S c' req' resp)
  then show ?case using conn_at_unique by (fastforce simp: hangs_def conn_at_simps)
next
  case (reply_fails S c' req' resp)
  then show ?case using conn_at_unique by (fastforce simp: hangs_def conn_at_simps)
qed (auto simp: hangs_def jobs_def)

lemma hangs_client: "client_step S S' \<Longrightarrow> hangs c req S \<Longrightarrow> hangs c req S'"
proof (induction rule: client_step.induct)
  case (accept S)
  then show ?case by (auto simp: hangs_def conn_at_simps dest: conn_at_length)
next
  case (receive S c' req')
  then show ?case using conn_at_unique by (fastforce simp: hangs_def conn_at_simps)
next
  case (hang_up S c')
  then show ?case using conn_at_unique by (fastforce simp: hangs_def conn_at_simps)
qed

lemma hangs_forever: "pipeline_reach h S S' \<Longrightarrow> hangs c req S \<Longrightarrow> hangs c req S'"
  by (induction rule: pipeline_reach.induct) (auto intro: hangs_server hangs_client)

subsection \<open>Handlers that keep the id of a request\<close>

locale request_handler =
  fixes h :: "'s handler"
  assumes answer_id: "resp_ReqID (snd (h req s)) = ReqID req"
begin

lemma answers_id: "answers h req resp \<Longrightarrow> resp_ReqID resp = ReqID req"
  by (auto simp: answers_def answer_id)

lemma answered_ids: "list_all2 (answers h) rs resps \<Longrightarrow> map resp_ReqID resps = map ReqID rs"
  by (induction rule: list_all2_induct) (auto simp: answers_id)

lemma conn_answers:
  assumes "conn_ok h x"
  shows "\<exists>rs. prefix rs (asked x) \<and> length (asked x) \<le> length rs + 1 \<and> list_all2 (answers h) rs (answered x) \<and>
    map resp_ReqID (answered x) = map ReqID rs"
  using assms answered_ids unfolding conn_ok_def by (cases "cstate x") fastforce+

lemma waiting_answered:
  assumes "pipeline_ok h S" and "conn_at S c (Waiting req)" and "(c, req) \<in> set (jobs S)"
    and "(server_step h)\<^sup>*\<^sup>* S S'" and "\<And>S''. \<not> server_step h S' S''"
  shows "conn_at S' c Closed \<or>
    (\<exists>resp. conn_at S' c Reading \<and> answered (conns S' ! c) = answered (conns S ! c) @ [resp] \<and> resp_ReqID resp = ReqID req)"
proof -
  have "answer_due h c req (answered (conns S ! c)) S" using assms(2,3) by (simp add: answer_due_def)
  from answer_due_run [OF assms(4,1) this] answer_due_quiet [OF _ assms(5)] answers_id show ?thesis by blast
qed

end

lemma handle_keeps_id: "resp_ReqID (snd (handle E req vm)) = ReqID req"
  by (simp add: handle_def Let_def case_prod_beta recover_fields switch_id)

interpretation tx: request_handler "handle E" for E
  by unfold_locales (rule handle_keeps_id)

subsection \<open>A run of one connection\<close>

definition one_conn :: "conn_state \<Rightarrow> RequestContext \<Rightarrow> job list \<Rightarrow>
  (nat \<times> RequestContext \<times> ResponseContext option) list \<Rightarrow> 's \<Rightarrow> 's Pipeline" where
  "one_conn st req q ws s =
     \<lparr>conns = [\<lparr>cstate = st, asked = [req], answered = []\<rparr>], Requests = q, fetched = None, running = ws, Storage = s\<rparr>"

lemma one_conn_fields [simp]:
  "conn_at (one_conn st req q ws s) 0 st' \<longleftrightarrow> st = st'" "Requests (one_conn st req q ws s) = q"
  "running (one_conn st req q ws s) = ws" "fetched (one_conn st req q ws s) = None" "Storage (one_conn st req q ws s) = s"
  "set_state 0 st' (one_conn st req q ws s) = one_conn st' req q ws s"
  by (simp_all add: one_conn_def conn_at_def set_state_def)

lemma reach_sent: "pipeline_reach h (tm_NewManager s) (one_conn (Sent req) req [(0, req)] [] s)"
proof -
  let ?S1 = "(tm_NewManager s)\<lparr>conns := conns (tm_NewManager s) @ [\<lparr>cstate = Reading, asked = [], answered = []\<rparr>]\<rparr>"
  have 1: "pipeline_reach h (tm_NewManager s) ?S1" by (rule pipeline_reach.client [OF pipeline_reach.start client_step.accept])
  have "client_step ?S1 (one_conn (Sending req) req [] [] s)"
    using client_step.receive [of ?S1 0 req] by (simp add: conn_at_def tm_NewManager_def one_conn_def)
  with 1 have 2: "pipeline_reach h (tm_NewManager s) (one_conn (Sending req) req [] [] s)" by (rule pipeline_reach.client)
  have "server_step h (one_conn (Sending req) req [] [] s) (one_conn (Sent req) req [(0, req)] [] s)"
    using server_step.send [of "one_conn (Sending req) req [] [] s" 0 req h]
    by (simp add: queue_size_def) (simp add: one_conn_def set_state_def)
  with 2 show ?thesis by (rule pipeline_reach.server)
qed

lemma reach_waiting: "pipeline_reach h (tm_NewManager s) (one_conn (Waiting req) req [(0, req)] [] s)"
  using pipeline_reach.server [OF reach_sent server_step.listen [of "one_conn (Sent req) req [(0, req)] [] s" 0 req h]] by simp

text \<open>The worker is done before the connection waits: the response is dropped.\<close>

lemma reach_hang: "pipeline_reach h (tm_NewManager s) (one_conn (Waiting req) req [] [] (fst (h req s)))"
proof -
  let ?S = "one_conn (Sent req) req"
  let ?F = "(?S [] [] s)\<lparr>fetched := Some (0, req)\<rparr>"
  have 1: "server_step h (?S [(0, req)] [] s) ?F"
    using server_step.fetch [of "?S [(0, req)] [] s" "(0, req)" "[]" h] by (simp add: one_conn_def)
  have 2: "server_step h ?F (?S [] [(0, req, None)] s)"
    using server_step.spawn [of ?F 0 req h] by (simp add: one_conn_def worker_limit_def)
  have 3: "server_step h (?S [] [(0, req, None)] s) (?S [] [(0, req, Some (snd (h req s)))] (fst (h req s)))"
    using server_step.work [of "?S [] [(0, req, None)] s" "[]" 0 req "[]" h] by (simp add: one_conn_def)
  have 4: "server_step h (?S [] [(0, req, Some resp)] s') (?S [] [] s')" for resp s'
    using server_step.drop [of "?S [] [(0, req, Some resp)] s'" "[]" 0 req resp "[]" h] by (simp add: one_conn_def conn_at_def)
  have 5: "server_step h (?S [] [] s') (one_conn (Waiting req) req [] [] s')" for s'
    using server_step.listen [of "?S [] [] s'" 0 req h] by simp
  show ?thesis by (rule pipeline_reach.server [OF pipeline_reach.server [OF pipeline_reach.server [OF pipeline_reach.server
    [OF pipeline_reach.server [OF reach_sent 1] 2] 3] 4] 5])
qed

subsection \<open>Properties\<close>

text \<open>
  C6. In every reachable state of the pipeline the channel holds at most 100 requests and at most 100
  workers run; a connection has at most one request in the manager, and it is the one the connection
  has sent and waits for; the responses written to a connection are those of its requests, in the
  order they were read, under their ids, and at most the last request is unanswered.
\<close>

theorem pipeline_invariant:
  assumes "pipeline_reach (handle E) (tm_NewManager vm) S"
  shows "length (Requests S) \<le> 100 \<and> length (running S) \<le> 100 \<and> distinct (map fst (jobs S)) \<and>
    (\<forall>(c, req) \<in> set (jobs S). conn_at S c (Sent req) \<or> conn_at S c (Waiting req)) \<and>
    (\<forall>x \<in> set (conns S). \<exists>rs. prefix rs (asked x) \<and> length (asked x) \<le> length rs + 1 \<and>
       list_all2 (answers (handle E)) rs (answered x) \<and> map resp_ReqID (answered x) = map ReqID rs)"
proof -
  have ok: "pipeline_ok (handle E) S" using reach_ok [OF assms pipeline_ok_initial] .
  then have "\<forall>x \<in> set (conns S). conn_ok (handle E) x" by (simp add: pipeline_ok_def list_all_iff)
  with tx.conn_answers have "\<forall>x \<in> set (conns S). \<exists>rs. prefix rs (asked x) \<and> length (asked x) \<le> length rs + 1 \<and>
       list_all2 (answers (handle E)) rs (answered x) \<and> map resp_ReqID (answered x) = map ReqID rs" by blast
  with ok show ?thesis by (simp add: pipeline_ok_def queue_size_def worker_limit_def jobs_ok_def)
qed

definition sample_req :: RequestContext where
  "sample_req = \<lparr>ReqID = ''1'', Operation = OpListCollections, req_Params = ListCollectionsRequest\<rparr>"

theorem pipeline_invariant_witness:
  "distinct (map fst (jobs (one_conn (Waiting sample_req) sample_req [(0, sample_req)] [] sample_vm)))"
  using pipeline_invariant [OF reach_waiting [of "handle sample_env" sample_vm sample_req]] by simp

text \<open>
  C10. A connection that waits while its request is in the manager gets its answer: whatever the
  interleaving, the goroutines of the server take only finitely many steps without new input from
  clients, and when they have come to rest the connection has written one more response, with the id
  of the request, and reads the next request, unless the response could not be written.
\<close>

theorem waiting_request_answered:
  assumes "pipeline_reach (handle E) (tm_NewManager vm) S"
    and "conn_at S c (Waiting req)" and "(c, req) \<in> set (jobs S)"
  shows "((server_step (handle E) ^^ n) S S' \<longrightarrow> n \<le> weight S) \<and>
    ((server_step (handle E))\<^sup>*\<^sup>* S S' \<and> (\<forall>S''. \<not> server_step (handle E) S' S'') \<longrightarrow>
      conn_at S' c Closed \<or>
      (\<exists>resp. conn_at S' c Reading \<and> answered (conns S' ! c) = answered (conns S ! c) @ [resp] \<and> resp_ReqID resp = ReqID req))"
  using server_steps_bounded [of n "handle E" S S']
    tx.waiting_answered [OF reach_ok [OF assms(1) pipeline_ok_initial] assms(2,3), of S'] by auto

theorem waiting_request_answered_witness:
  "\<forall>S'. \<not> (server_step (handle sample_env) ^^ 7) (one_conn (Waiting sample_req) sample_req [(0, sample_req)] [] sample_vm) S'"
proof
  fix S'
  let ?S = "one_conn (Waiting sample_req) sample_req [(0, sample_req)] [] sample_vm"
  have "weight ?S = 6" by (simp add: weight_def) (simp add: one_conn_def)
  with waiting_request_answered [OF reach_waiting [of "handle sample_env" sample_vm sample_req], of 0 sample_req 7 S']
  show "\<not> (server_step (handle sample_env) ^^ 7) ?S S'" by (simp add: jobs_def)
qed

text \<open>
  C17. The server comes to rest: from every state of the pipeline, whatever the interleaving, its
  goroutines cannot go on for ever without new input from clients, and they can always reach a state
  in which none of them can go on. There the manager is empty and every connection reads, is closed
  or waits for a response.
\<close>

theorem pipeline_comes_to_rest:
  "(\<nexists>f. f 0 = S \<and> (\<forall>i. server_step (handle E) (f i) (f (Suc i)))) \<and>
   (\<exists>S'. (server_step (handle E))\<^sup>*\<^sup>* S S' \<and> (\<forall>S''. \<not> server_step (handle E) S' S'') \<and> jobs S' = [] \<and>
      list_all (\<lambda>x. cstate x = Reading \<or> cstate x = Closed \<or> (\<exists>req. cstate x = Waiting req)) (conns S'))"
proof (intro conjI notI)
  assume "\<exists>f. f 0 = S \<and> (\<forall>i. server_step (handle E) (f i) (f (Suc i)))"
  then obtain f where f: "f 0 = S" "\<And>i. server_step (handle E) (f i) (f (Suc i))" by blast
  have "(server_step (handle E) ^^ n) S (f n)" for n
    by (induction n) (use f in auto)
  from server_steps_bounded [OF this [of "Suc (weight S)"]] show False by simp
next
  obtain S' where "(server_step (handle E))\<^sup>*\<^sup>* S S'" "\<forall>S''. \<not> server_step (handle E) S' S''"
    using server_run_end by blast
  with quiet_conns [of "handle E" S'] show "\<exists>S'. (server_step (handle E))\<^sup>*\<^sup>* S S' \<and> (\<forall>S''. \<not> server_step (handle E) S' S'') \<and> jobs S' = [] \<and>
      list_all (\<lambda>x. cstate x = Reading \<or> cstate x = Closed \<or> (\<exists>req. cstate x = Waiting req)) (conns S')" by blast
qed

text \<open>
  C35. A response can be lost: the worker of the first request of a connection can offer the response
  before the connection waits at the response channel. Then the request has been carried out, but the
  connection waits for its response in every later state of the pipeline.
\<close>

theorem dropped_response_hangs:
  "\<exists>S. pipeline_reach (handle E) (tm_NewManager vm) S \<and> Storage S = fst (handle E req vm) \<and>
     (\<forall>S'. pipeline_reach (handle E) S S' \<longrightarrow> conn_at S' 0 (Waiting req) \<and> 0 \<notin> fst ` set (jobs S'))"
proof -
  let ?S = "one_conn (Waiting req) req [] [] (fst (handle E req vm))"
  have "hangs 0 req ?S" by (simp add: hangs_def jobs_def)
  with hangs_forever [of "handle E" ?S] reach_hang show ?thesis unfolding hangs_def by (intro exI [of _ ?S]) auto
qed

theorem dropped_response_hangs_witness:
  "\<exists>S. pipeline_reach (handle sample_env) (tm_NewManager sample_vm) S \<and> conn_at S 0 (Waiting sample_req)"
  using dropped_response_hangs [of sample_env sample_vm sample_req] pipeline_reach.start by blast

end
