(* ===== verification/Server_Program.thy ===== *)
theory Server_Program
  imports Logger Dispatcher
begin

section \<open>The server program\<close>

text \<open>
  \<^verbatim>\<open>cmd/server/main.go\<close>: the start of the process from its flags and from what is on disk, the
  requests it serves, and its end by a signal, by a storage that does not start, or by a port that
  cannot be opened. A run of \<open>main_step\<close> is a sequence of sessions on one disk.
\<close>

record 's Server =
  Port :: int
  TxManager :: "'s Pipeline"

definition NewServer :: "int \<Rightarrow> 's Pipeline \<Rightarrow> 's Server" where
  "NewServer port txMgr = \<lparr>Port = port, TxManager = txMgr\<rparr>"

text \<open>The flags as \<^verbatim>\<open>flag.Parse\<close> leaves them; without arguments they have their defaults.\<close>

record Flags =
  flag_port :: int
  flag_quiet :: bool

definition default_flags :: Flags where
  "default_flags = \<lparr>flag_port = 6969, flag_quiet = False\<rparr>"

fun digits :: "nat \<Rightarrow> string" where
  "digits n = (if n < 10 then [char_of (48 + n)] else digits (n div 10) @ [char_of (48 + n mod 10)])"

declare digits.simps [simp del]

definition decimal :: "int \<Rightarrow> string" where
  "decimal i = (if i < 0 then CHR ''-'' # digits (nat (- i)) else digits (nat i))"

text \<open>
  The process serves, or it has ended with an exit code and left files behind. \<^verbatim>\<open>os.Exit\<close> does not run
  the deferred \<^verbatim>\<open>storageMgr.Close\<close>: it leaves what a crash at that moment leaves.
\<close>

datatype main_state =
    Serving "VectorManager Server"
  | Ended nat vm_disk

definition server_config :: DBSchemaConfig where
  "server_config = \<lparr>PayloadSize = 1024, DataPath = ''./waddlemap_db'', SyncMode = ''strict''\<rparr>"

definition data_path :: path where
  "data_path = filepath_Join [] (DataPath server_config)"

definition exit_disk :: "VectorManager \<Rightarrow> vm_disk" where
  "exit_disk vm = crash_disk (disk_of (vm_Manager vm)) vm"

definition new_logger :: "(writer \<times> string) list \<Rightarrow> Logger" where
  "new_logger lines = \<lparr>currentLevel = LevelInfo, log_writer = Stderr, log_lines = lines\<rparr>"

lemma new_logger_lines [simp]: "log_lines (new_logger lines) = lines"
  by (simp add: new_logger_def)

definition main_start ::
  "(nat \<Rightarrow> Env) \<Rightarrow> (go_error \<Rightarrow> string) \<Rightarrow> Flags \<Rightarrow> go_error option \<Rightarrow> vm_disk \<Rightarrow> Logger \<Rightarrow> Logger \<times> main_state" where
  "main_start Es errText flags logErr disk lg =
     (case logErr of
        Some err \<Rightarrow> (log_output ''Failed to open log file: %v'' [errText err] lg, Ended 1 disk)
      | None \<Rightarrow>
          let lg = Setup StdoutAndFile lg;
              lg = (if flag_quiet flags then SetLevel LevelError lg else SetLevel LevelInfo lg);
              lg = Info ''----------------------------------------'' [] lg;
              lg = Info ''WaddleMap Server Initializing...'' [] lg;
              cfg = server_config
          in case NewVectorManager Es (filepath_Join [] (DataPath cfg)) disk of
               Inl (disk, err) \<Rightarrow>
                 let (lg, code) = Fatal ''Failed to init storage: %v'' [errText err] lg in (lg, Ended code disk)
             | Inr (storageMgr, _) \<Rightarrow>
                 let txMgr = tm_NewManager storageMgr;
                     server = NewServer (flag_port flags) txMgr
                 in (Info ''Server started on port %d. Press Ctrl+C to stop.'' [decimal (flag_port flags)] lg, Serving server))"

definition main_signal :: "VectorManager Server \<Rightarrow> Logger \<Rightarrow> Logger \<times> main_state" where
  "main_signal server lg = (Info ''Shutting down...'' [] lg, Ended 0 (VM_Close (Storage (TxManager server))))"

definition main_listen_fails ::
  "(go_error \<Rightarrow> string) \<Rightarrow> go_error \<Rightarrow> VectorManager Server \<Rightarrow> Logger \<Rightarrow> Logger \<times> main_state" where
  "main_listen_fails errText err server lg =
     (let (lg, code) = Fatal ''Server error: %v'' [errText err] lg in (lg, Ended code (exit_disk (Storage (TxManager server)))))"

subsection \<open>Sessions\<close>

text \<open>
  The steps of a server over its sessions. The requests it carries out have the limits that \<open>vm_step\<close>
  has: names of collections that are names of directories, keywords that can be encoded, room for the
  blocks, and batches of blocks within the limits. The port is opened before a client connects.
\<close>

definition env_ok :: "Libs \<Rightarrow> (string \<Rightarrow> string) \<Rightarrow> Env \<Rightarrow> bool" where
  "env_ok lib ul E \<longleftrightarrow> env_libs E = lib \<and> env_lower E = ul \<and> is_order (env_nodes E) \<and> is_order (env_docs E) \<and> is_order (env_batch E)"

definition request_ok :: "Libs \<Rightarrow> (string \<Rightarrow> string) \<Rightarrow> VectorManager \<Rightarrow> Params \<Rightarrow> bool" where
  "request_ok lib ul vm params = (case params of
       CreateCollectionRequest n dims metric \<Rightarrow> plain_name n
     | AppendBlockRequest n k (Some b) \<Rightarrow> valid_keywords ul (BlockKeywords b) \<and> room_in 1 vm n
     | BatchAppendBlockRequest n reqs \<Rightarrow> reqs \<noteq> [] \<and> (\<exists>c. GetCollection (vm_collections vm) n = Inr c \<and> fits_more (length reqs) c \<and>
         list_all (\<lambda>(k, b). case b of None \<Rightarrow> True | Some b \<Rightarrow> block_acceptable lib ul n (Config c) k b) reqs)
     | _ \<Rightarrow> True)"

definition requests_ok :: "Libs \<Rightarrow> (string \<Rightarrow> string) \<Rightarrow> VectorManager Pipeline \<Rightarrow> bool" where
  "requests_ok lib ul S \<longleftrightarrow> list_all (\<lambda>(c, req, resp). request_ok lib ul (Storage S) (req_Params req)) (running S)"

inductive main_step ::
  "Libs \<Rightarrow> (string \<Rightarrow> string) \<Rightarrow> (go_error \<Rightarrow> string) \<Rightarrow> Logger \<times> main_state \<Rightarrow> Logger \<times> main_state \<Rightarrow> bool" for lib ul errText where
  clients: "client_step (TxManager s) S \<Longrightarrow> main_step lib ul errText (lg, Serving s) (lg, Serving (s\<lparr>TxManager := S\<rparr>))"
| serve: "env_ok lib ul E \<Longrightarrow> requests_ok lib ul (TxManager s) \<Longrightarrow> server_step (handle E) (TxManager s) S \<Longrightarrow>
    main_step lib ul errText (lg, Serving s) (lg, Serving (s\<lparr>TxManager := S\<rparr>))"
| signal: "all_saveable (vm_collections (Storage (TxManager s))) \<Longrightarrow>
    main_step lib ul errText (lg, Serving s) (main_signal s lg)"
| listen_fails: "conns (TxManager s) = [] \<Longrightarrow> main_step lib ul errText (lg, Serving s) (main_listen_fails errText err s lg)"
| start: "\<forall>i. env_ok lib ul (Es i) \<Longrightarrow>
    main_step lib ul errText (lg, Ended exitCode disk) (main_start Es errText flags logErr disk (new_logger (log_lines lg)))"

subsection \<open>What is on disk\<close>

text \<open>
  Files that a start reads as the collections \<open>S\<close> and the records \<open>M\<close>, with no entry in the log and no
  index file that has to be rebuilt from records.
\<close>

definition settled :: "(uint32, shard_disk) gomap \<Rightarrow> bool" where
  "settled sd \<longleftrightarrow> (\<forall>i < PartitionCount. mget0 ([], NoFile) sd i = ([], NoFile) \<or> (\<exists>m. snd (mget0 ([], NoFile) sd i) = GobFile m))"

definition disk_view ::
  "Libs \<Rightarrow> (string \<Rightarrow> string) \<Rightarrow> vm_disk \<Rightarrow> (string \<rightharpoonup> coll_state) \<Rightarrow> (string \<rightharpoonup> bytes list) \<Rightarrow> bool" where
  "disk_view lib ul disk S M \<longleftrightarrow> settled (shard_files disk) \<and> concat (wal_files disk) = [] \<and>
     store_view lib (NewManager (shard_files disk)) M \<and>
     (\<forall>ord. is_order ord \<longrightarrow> (\<exists>cm. NewCollectionManager ord data_path (index_dirs disk) = Inr cm \<and> cm_rep ul cm S))"

lemma data_path: "data_path = [''waddlemap_db'']"
  by (simp add: data_path_def server_config_def filepath_Join_def)

lemma open_bucket_twice:
  assumes "d = ([], NoFile) \<or> (\<exists>m. snd d = GobFile m)"
  shows "open_bucket (BucketFile (open_bucket d), IndexFile (open_bucket d)) = open_bucket d"
    and "\<exists>m. IndexFile (open_bucket d) = GobFile m"
  using assms by (auto simp: open_bucket_def loadIndex_def saveIndex_def rebuildIndex_def Let_def rebuild_from.simps)

lemma MkdirAll_same:
  "\<forall>i \<in> set ns. mget d (take i p) \<noteq> None \<Longrightarrow>
   fold (\<lambda>i d. if mget d (take i p) = None then mput (take i p) empty_dir d else d) ns d = d"
  by (induction ns) auto

lemma MkdirAll_twice: "MkdirAll p (MkdirAll p d) = MkdirAll p d"
proof -
  have "mget (MkdirAll p d) (take i p) \<noteq> None" if "i \<in> set [0..<length p + 1]" for i
    using that mget_MkdirAll [of p d "take i p"] by (metis atLeastLessThan_iff less_Suc_eq_le option.distinct(1) set_upt Suc_eq_plus1)
  then show ?thesis unfolding MkdirAll_def [of p "MkdirAll p d"] by (intro MkdirAll_same) blast
qed

lemma NewManager_cong:
  assumes "\<And>i. i < PartitionCount \<Longrightarrow> open_bucket (mget0 ([], NoFile) d i) = open_bucket (mget0 ([], NoFile) d' i)"
  shows "NewManager d = NewManager d'"
proof -
  have "(of_nat n :: uint32) < PartitionCount" if "n < unat PartitionCount" for n
    using that by (auto simp: word_less_nat_alt PartitionCount_def unat_of_nat)
  with assms show ?thesis
    unfolding NewManager_def Let_def by (intro arg_cong [where f = "\<lambda>bs. \<lparr>Buckets = bs\<rparr>"] fold_cong) simp_all
qed

lemma NewManager_twice:
  assumes "settled sd"
  shows "NewManager (disk_of (NewManager sd)) = NewManager sd" and "settled (disk_of (NewManager sd))"
proof -
  have d: "mget0 ([], NoFile) (disk_of (NewManager sd)) i =
      (BucketFile (open_bucket (mget0 ([], NoFile) sd i)), IndexFile (open_bucket (mget0 ([], NoFile) sd i)))"
    if "i < PartitionCount" for i
    using that by (subst mget0_def) (simp add: mget_disk_of Buckets_NewManager)
  have b: "open_bucket (mget0 ([], NoFile) (disk_of (NewManager sd)) i) = open_bucket (mget0 ([], NoFile) sd i)"
    if "i < PartitionCount" for i
    using that assms open_bucket_twice(1) by (simp add: d settled_def)
  with NewManager_cong show "NewManager (disk_of (NewManager sd)) = NewManager sd" by blast
  show "settled (disk_of (NewManager sd))"
    using assms open_bucket_twice(2) by (simp add: settled_def d)
qed

lemma delete_records_collections:
  "vm_collections (fold (\<lambda>key vm. vm\<lparr>vm_Manager := fst (Mgr_DeleteKey lib (makeStorageKey n key) (vm_Manager vm))\<rparr>) keys vm) = vm_collections vm"
  by (induction keys arbitrary: vm) auto

lemma base_kept:
  "cm_basePath (vm_collections (fst (VM_CreateCollection n d me vm))) = cm_basePath (vm_collections vm)"
  "cm_basePath (vm_collections (fst (VM_DeleteCollection E n vm))) = cm_basePath (vm_collections vm)"
  "cm_basePath (vm_collections (fst (VM_DeleteKey E n k vm))) = cm_basePath (vm_collections vm)"
  "cm_basePath (vm_collections (fst (VM_AppendBlock E n k b vm))) = cm_basePath (vm_collections vm)"
  "cm_basePath (vm_collections (fst (VM_BatchAppendBlocks E n ks bs vm))) = cm_basePath (vm_collections vm)"
  by (simp_all add: VM_CreateCollection_def CreateCollection_def VM_DeleteCollection_def CM_DeleteCollection_def VM_DeleteKey_def
      VM_AppendBlock_def VM_BatchAppendBlocks_def Let_def case_prod_beta put_coll_def set_collection_def delete_records_collections
      split: option.split sum.split)

lemma load_dirs_kept:
  "load_dirs ord ps cm = (cm', err) \<Longrightarrow> cm_disk cm' = cm_disk cm \<and> cm_basePath cm' = cm_basePath cm"
  by (induction ord ps cm rule: load_dirs.induct) (auto split: sum.splits)

lemma NewCollectionManager_kept:
  "NewCollectionManager ord p d = Inr cm \<Longrightarrow>
   cm_disk cm = MkdirAll (filepath_Join p ''indexes'') d \<and> cm_basePath cm = filepath_Join p ''indexes''"
  using load_dirs_kept
  by (fastforce simp: NewCollectionManager_def loadExistingCollections_def Let_def split: prod.splits option.splits)

lemma NewCollectionManager_again:
  "NewCollectionManager ord p d = Inr cm \<Longrightarrow> NewCollectionManager ord' p (cm_disk cm) = NewCollectionManager ord' p d"
  by (drule NewCollectionManager_kept) (simp add: NewCollectionManager_def MkdirAll_twice)

lemma empty_log: "concat ws = [] \<Longrightarrow> Replay (NewWAL ws) = []"
  by (simp add: Replay_def NewWAL_def) (induction ws, auto)

lemma disk_view_Close:
  assumes cm: "cm_rep ul (vm_collections vm) S" and st: "store_view lib (vm_Manager vm) M" and sv: "all_saveable (vm_collections vm)"
    and base: "cm_basePath (vm_collections vm) = filepath_Join data_path ''indexes''"
  shows "disk_view lib ul (VM_Close vm) S M"
proof -
  let ?vm = "VM_Checkpoint vm"
  note ck = Checkpoint_rep [OF cm]
  have "\<exists>cm'. NewCollectionManager ord data_path (cm_disk (fst (CM_Close (vm_collections ?vm)))) = Inr cm' \<and> cm_rep ul cm' S"
    if "is_order ord" for ord
    using manager_restart [of ul "vm_collections ?vm" S ord data_path] ck sv that base by (auto simp: all_saveable_def)
  moreover have "store_view lib (NewManager (Mgr_Close (vm_Manager vm))) M"
    using st restart_after_close unfolding store_view_def by blast
  moreover have "settled (Mgr_Close m)" for m
    by (auto simp: settled_def mget0_def mget_Mgr_Close split: option.split)
  ultimately show ?thesis
    using ck by (simp add: disk_view_def VM_Close_def Let_def case_prod_beta wal_Close_def)
qed

lemma start_view:
  assumes disk: "disk_view lib ul disk S M" and ord: "is_order (env_docs (Es 0))"
  obtains vm where "NewVectorManager Es data_path disk = Inr (vm, None)" and "cm_rep ul (vm_collections vm) S"
    and "store_view lib (vm_Manager vm) M" and "cm_basePath (vm_collections vm) = filepath_Join data_path ''indexes''"
    and "disk_view lib ul (exit_disk vm) S M"
proof -
  have sd: "settled (shard_files disk)" and log: "concat (wal_files disk) = []"
    and st: "store_view lib (NewManager (shard_files disk)) M" using disk by (simp_all add: disk_view_def)
  obtain cm where cm: "NewCollectionManager (env_docs (Es 0)) data_path (index_dirs disk) = Inr cm" "cm_rep ul cm S"
    using disk ord by (auto simp: disk_view_def)
  let ?vm = "\<lparr>vm_Manager = NewManager (shard_files disk), vm_collections = cm, vm_wal = NewWAL (wal_files disk)\<rparr>"
  have "NewVectorManager Es data_path disk = Inr (?vm, None)"
    using cm(1) empty_log [OF log] by (simp add: NewVectorManager_def recoverFromWAL_def)
  moreover have "disk_view lib ul (exit_disk ?vm) S M"
    using disk NewManager_twice [OF sd] NewCollectionManager_again [OF cm(1)]
    by (simp add: disk_view_def exit_disk_def crash_disk_def NewWAL_def)
  ultimately show thesis using that [of ?vm] cm(2) st NewCollectionManager_kept [OF cm(1)] by simp
qed

lemma disk_view_empty:
  assumes "zstd_ok lib"
  shows "disk_view lib ul \<lparr>shard_files = [], index_dirs = [], wal_files = []\<rparr> Map.empty Map.empty"
  using assms NewManager_empty cm_rep_fresh
  by (auto simp: disk_view_def settled_def mget0_def store_view_def NewCollectionManager_fresh)

subsection \<open>Storage that survives its sessions\<close>

text \<open>
  What the program relies on: \<open>view\<close> relates a storage in memory and \<open>disk\<close> the files to their contents;
  a start from files reads their contents, a storage that is closed leaves its contents, and one that
  was just started leaves them also when the process exits.
\<close>

locale session_store =
  fixes view :: "'s \<Rightarrow> 'v \<Rightarrow> bool" and disk :: "'d \<Rightarrow> 'v \<Rightarrow> bool" and opens :: "'d \<Rightarrow> 's \<Rightarrow> bool"
    and closable :: "'s \<Rightarrow> bool" and close :: "'s \<Rightarrow> 'd" and leave :: "'s \<Rightarrow> 'd"
  assumes open_view: "disk d v \<Longrightarrow> opens d s \<Longrightarrow> view s v"
    and open_leave: "disk d v \<Longrightarrow> opens d s \<Longrightarrow> disk (leave s) v"
    and close_view: "view s v \<Longrightarrow> closable s \<Longrightarrow> disk (close s) v"
begin

lemma left_disk: "(\<lambda>d d'. \<exists>s. opens d s \<and> d' = leave s)\<^sup>*\<^sup>* d d' \<Longrightarrow> disk d v \<Longrightarrow> disk d' v"
  by (induction rule: rtranclp_induct) (auto intro: open_leave)

lemma reopened_view:
  assumes "view s v" and "closable s" and "(\<lambda>d d'. \<exists>s. opens d s \<and> d' = leave s)\<^sup>*\<^sup>* (close s) d" and "opens d s'"
  shows "view s' v"
  using open_view [OF left_disk [OF assms(3) close_view [OF assms(1,2)]] assms(4)] .

end

definition storage_view :: "Libs \<Rightarrow> (string \<Rightarrow> string) \<Rightarrow> VectorManager \<Rightarrow> (string \<rightharpoonup> coll_state) \<times> (string \<rightharpoonup> bytes list) \<Rightarrow> bool" where
  "storage_view lib ul vm v \<longleftrightarrow> (case v of (S, M) \<Rightarrow> cm_rep ul (vm_collections vm) S \<and> store_view lib (vm_Manager vm) M \<and>
     cm_basePath (vm_collections vm) = filepath_Join data_path ''indexes'')"

definition opens_storage :: "vm_disk \<Rightarrow> VectorManager \<Rightarrow> bool" where
  "opens_storage disk vm \<longleftrightarrow> (\<exists>Es err. is_order (env_docs (Es 0)) \<and> NewVectorManager Es data_path disk = Inr (vm, err))"

lemma opened_storage:
  assumes "disk_view lib ul disk S M" and "opens_storage disk vm"
  shows "storage_view lib ul vm (S, M)" and "disk_view lib ul (exit_disk vm) S M"
proof -
  obtain Es err where Es: "is_order (env_docs (Es 0))" "NewVectorManager Es data_path disk = Inr (vm, err)"
    using assms(2) by (auto simp: opens_storage_def)
  show "storage_view lib ul vm (S, M)" "disk_view lib ul (exit_disk vm) S M"
    by (rule start_view [where Es = Es, OF assms(1) Es(1)], use Es(2) in \<open>auto simp: storage_view_def\<close>)+
qed

interpretation sessions: session_store "storage_view lib ul" "\<lambda>disk (S, M). disk_view lib ul disk S M" opens_storage
  "\<lambda>vm. all_saveable (vm_collections vm)" VM_Close exit_disk for lib ul
  by unfold_locales (auto simp: storage_view_def opened_storage(2) dest: opened_storage(1) intro: disk_view_Close)

subsection \<open>Requests\<close>

lemma handle_storage:
  "fst (handle E req vm) = (if Operation req = op_of (req_Params req)
     then fst (handle_switch E (Operation req) (req_Params req)
       \<lparr>resp_ReqID = ReqID req, Success = False, resp_Data = None, Error = None\<rparr> vm) else vm)"
  using switch_mismatch [of "Operation req" "req_Params req" E "\<lparr>resp_ReqID = ReqID req, Success = False, resp_Data = None, Error = None\<rparr>" vm]
  by (auto simp: handle_def Let_def case_prod_beta)

lemma batch_request_keeps:
  assumes "vm_ok lib ul vm" and "env_ok lib ul E" and "request_ok lib ul vm (BatchAppendBlockRequest n reqs)"
    and some: "\<not> list_ex (\<lambda>(_, block). block = None) reqs"
  shows "vm_ok lib ul (fst (VM_BatchAppendBlocks E n (map fst reqs) (map (\<lambda>(_, b). the b) reqs) vm))"
proof -
  let ?xs = "map (\<lambda>(k, b). (k, the b)) reqs"
  obtain c where c: "reqs \<noteq> []" "GetCollection (vm_collections vm) n = Inr c" "fits_more (length reqs) c"
    "list_all (\<lambda>(k, b). case b of None \<Rightarrow> True | Some b \<Rightarrow> block_acceptable lib ul n (Config c) k b) reqs"
    using assms(3) by (auto simp: request_ok_def)
  have "list_all (\<lambda>(k, b). block_acceptable lib ul n (Config c) k b) ?xs"
    using c(4) some by (fastforce simp: list_all_iff list_ex_iff)
  with vm_step.batch [of E lib ul ?xs vm n c] c assms(2)
  have "vm_step lib ul vm (fst (VM_BatchAppendBlocks E n (map fst reqs) (map (\<lambda>(_, b). the b) reqs) vm))"
    by (simp add: env_ok_def comp_def case_prod_beta')
  then show ?thesis using assms(1) by (rule vm_step_ok)
qed

lemma request_keeps:
  assumes "vm_ok lib ul vm" and "env_ok lib ul E"
  shows "request_ok lib ul vm (CreateCollectionRequest n d me) \<Longrightarrow> vm_ok lib ul (fst (VM_CreateCollection n d me' vm))"
    and "vm_ok lib ul (fst (VM_DeleteCollection E n vm))"
    and "request_ok lib ul vm (AppendBlockRequest n k (Some b)) \<Longrightarrow> vm_ok lib ul (fst (VM_AppendBlock E n k b vm))"
    and "vm_ok lib ul (fst (VM_DeleteKey E n k vm))"
  using vm_step_ok [OF vm_step.create assms(1)] vm_step_ok [OF vm_step.drop assms(1)] vm_step_ok [OF vm_step.append assms(1)]
    vm_step_ok [OF vm_step.delete assms(1)] assms(2) by (simp_all add: request_ok_def env_ok_def)

lemma handle_keeps:
  assumes ok: "vm_ok lib ul vm" and E: "env_ok lib ul E" and req: "request_ok lib ul vm (req_Params req)"
  shows "vm_ok lib ul (fst (handle E req vm)) \<and>
    cm_basePath (vm_collections (fst (handle E req vm))) = cm_basePath (vm_collections vm)"
proof (cases "Operation req = op_of (req_Params req) \<and> \<not> reads_only (Operation req)")
  case True
  with ok req show ?thesis
    by (cases "req_Params req")
      (auto simp: handle_storage op_of_def reads_only_def handle_switch_def handle_mutators case_prod_beta Let_def base_kept
        request_keeps [OF ok E] batch_request_keeps [OF ok E] split: option.splits)
next
  case False
  then show ?thesis using ok switch_reads [of "Operation req" E] by (auto simp: handle_storage)
qed

subsection \<open>The invariant of all sessions\<close>

text \<open>
  While the server runs, its storage keeps the invariant of the manager; before the first connection
  it is what the start has read. When it has ended, its files can be read.
\<close>

definition idle :: "'s Pipeline \<Rightarrow> bool" where
  "idle S \<longleftrightarrow> conns S = [] \<and> Requests S = [] \<and> fetched S = None \<and> running S = []"

definition main_ok :: "Libs \<Rightarrow> (string \<Rightarrow> string) \<Rightarrow> Logger \<times> main_state \<Rightarrow> bool" where
  "main_ok lib ul st \<longleftrightarrow> (case snd st of
       Serving s \<Rightarrow> vm_ok lib ul (Storage (TxManager s)) \<and>
         cm_basePath (vm_collections (Storage (TxManager s))) = filepath_Join data_path ''indexes'' \<and>
         (conns (TxManager s) = [] \<longrightarrow> idle (TxManager s) \<and> (\<exists>S M. disk_view lib ul (exit_disk (Storage (TxManager s))) S M))
     | Ended exitCode disk \<Rightarrow> \<exists>S M. disk_view lib ul disk S M)"

lemma idle_no_step: "idle S \<Longrightarrow> \<not> server_step h S S'"
  by (auto simp: idle_def conn_at_def elim!: server_stepE)

lemma server_step_conns: "server_step h S S' \<Longrightarrow> conns S' = [] \<longleftrightarrow> conns S = []"
  by (auto simp: set_state_def elim!: server_stepE)

lemma client_step_kept: "client_step S S' \<Longrightarrow> Storage S' = Storage S \<and> conns S' \<noteq> []"
  by (auto simp: set_state_def conn_at_def elim!: client_stepE)

lemma server_step_storage:
  assumes "server_step (handle E) S S'" and "env_ok lib ul E" and "requests_ok lib ul S" and "vm_ok lib ul (Storage S)"
  shows "vm_ok lib ul (Storage S') \<and> cm_basePath (vm_collections (Storage S')) = cm_basePath (vm_collections (Storage S))"
  using assms(1)
proof (cases rule: server_step.cases)
  case (work ws c req ws' st resp)
  then have "request_ok lib ul (Storage S) (req_Params req)" using assms(3) by (simp add: requests_ok_def)
  from handle_keeps [OF assms(4,2) this] work show ?thesis by simp
qed (use assms(4) in \<open>auto simp: set_state_def\<close>)

lemma main_start_ok:
  assumes "disk_view lib ul disk S M" and "env_ok lib ul (Es 0)"
  shows "main_ok lib ul (main_start Es errText flags logErr disk lg)"
proof (cases logErr)
  case None
  have "is_order (env_docs (Es 0))" using assms(2) by (simp add: env_ok_def)
  then show ?thesis
    by (rule start_view [OF assms(1)])
      (auto simp: main_start_def None Let_def main_ok_def NewServer_def tm_NewManager_def idle_def vm_ok_def data_path_def)
qed (use assms(1) in \<open>auto simp: main_start_def main_ok_def\<close>)

lemma main_step_ok: "main_step lib ul errText st st' \<Longrightarrow> main_ok lib ul st \<Longrightarrow> main_ok lib ul st'"
proof (induction rule: main_step.induct)
  case (clients s S lg)
  then show ?case using client_step_kept [OF clients.hyps] by (simp add: main_ok_def)
next
  case (serve E s S lg)
  then show ?case
    using server_step_storage [OF serve.hyps(3,1,2)] server_step_conns [OF serve.hyps(3)] idle_no_step serve.hyps(3)
    by (auto simp: main_ok_def)
next
  case (signal s lg)
  then obtain S M where "cm_rep ul (vm_collections (Storage (TxManager s))) S" "store_view lib (vm_Manager (Storage (TxManager s))) M"
    "cm_basePath (vm_collections (Storage (TxManager s))) = filepath_Join data_path ''indexes''"
    by (auto simp: main_ok_def vm_ok_def)
  from disk_view_Close [OF this(1,2) signal.hyps this(3)] show ?case by (auto simp: main_signal_def main_ok_def)
next
  case (listen_fails s lg err)
  then show ?case by (auto simp: main_ok_def main_listen_fails_def Fatal_def)
next
  case (start Es lg exitCode disk flags logErr)
  then obtain S M where "disk_view lib ul disk S M" by (auto simp: main_ok_def)
  with start.hyps show ?case by (intro main_start_ok) auto
qed

lemma main_run_ok: "(main_step lib ul errText)\<^sup>*\<^sup>* st st' \<Longrightarrow> main_ok lib ul st \<Longrightarrow> main_ok lib ul st'"
  by (induction rule: rtranclp_induct) (auto intro: main_step_ok)

lemma main_start_serves:
  assumes "disk_view lib ul disk S M" and "is_order (env_docs (Es 0))" and db: "db_rep ul S M D"
  shows "\<exists>lg' s. main_start Es errText flags None disk lg = (lg', Serving s) \<and> opens_storage disk (Storage (TxManager s)) \<and>
    vm_rep lib ul (Storage (TxManager s)) D \<and> Port s = flag_port flags \<and> idle (TxManager s) \<and>
    (flag_quiet flags \<longrightarrow> log_lines lg' = log_lines lg)"
proof (rule start_view [where Es = Es, OF assms(1,2)])
  fix vm
  assume "NewVectorManager Es data_path disk = Inr (vm, None)" "cm_rep ul (vm_collections vm) S" "store_view lib (vm_Manager vm) M"
  with assms(2) db show ?thesis
    by (auto simp: main_start_def Let_def NewServer_def tm_NewManager_def idle_def vm_rep_def data_path_def
        Info_level SetLevel_def Setup_def opens_storage_def)
qed

text \<open>One start whose port cannot be opened, from the files and the log of the last one.\<close>

definition failed_start ::
  "(nat \<Rightarrow> Env) \<Rightarrow> (go_error \<Rightarrow> string) \<Rightarrow> Flags \<Rightarrow> go_error \<Rightarrow> Logger \<times> vm_disk \<Rightarrow> Logger \<times> vm_disk" where
  "failed_start Es errText flags err st =
     (case main_start Es errText flags None (snd st) (new_logger (log_lines (fst st))) of
        (lg, Serving s) \<Rightarrow>
          (case main_listen_fails errText err s lg of
             (lg, Ended exitCode disk) \<Rightarrow> (lg, disk)
           | (lg, Serving s) \<Rightarrow> st)
      | (lg, Ended exitCode disk) \<Rightarrow> (lg, disk))"

lemma failed_start_leaves:
  assumes "disk_view lib ul (snd st) S M" and "is_order (env_docs (Es 0))" and "db_rep ul S M D"
  shows "\<exists>vm. opens_storage (snd st) vm \<and> snd (failed_start Es errText flags err st) = exit_disk vm"
proof -
  obtain lg s where "main_start Es errText flags None (snd st) (new_logger (log_lines (fst st))) = (lg, Serving s)"
    "opens_storage (snd st) (Storage (TxManager s))"
    using main_start_serves [where Es = Es, OF assms] by blast
  then show ?thesis by (auto simp: failed_start_def main_listen_fails_def Fatal_def)
qed

lemma failed_starts_leave:
  assumes "disk_view lib ul disk S M" and "is_order (env_docs (Es 0))" and "db_rep ul S M D"
  shows "(\<lambda>d d'. \<exists>vm. opens_storage d vm \<and> d' = exit_disk vm)\<^sup>*\<^sup>* disk (snd ((failed_start Es errText flags err ^^ n) (lg, disk)))"
proof (induction n)
  case (Suc n)
  let ?st = "(failed_start Es errText flags err ^^ n) (lg, disk)"
  have "disk_view lib ul (snd ?st) S M" using sessions.left_disk [OF Suc.IH, of lib ul "(S, M)"] assms(1) by simp
  from failed_start_leaves [where Es = Es, OF this assms(2,3)] Suc.IH show ?case
    by (auto intro: rtranclp.rtrancl_into_rtrancl)
qed simp

subsection \<open>Properties\<close>



text \<open>
  C7. A server that is ended by a signal and started again serves the same database, on the port of
  its flags and with no connection; a quiet one logs nothing. Any number of starts in between may fail
  to open the port: they exit without closing the storage, and nothing is lost.
\<close>

theorem server_restart:
  assumes rep: "vm_rep lib ul (Storage (TxManager s)) D" and sv: "all_saveable (vm_collections (Storage (TxManager s)))"
    and base: "cm_basePath (vm_collections (Storage (TxManager s))) = filepath_Join data_path ''indexes''"
    and ord: "is_order (env_docs (Es 0))" and sig: "main_signal s lg = (lg1, Ended exitCode disk)"
    and fail: "(failed_start Es errText flags err ^^ n) (lg1, disk) = (lg2, disk2)"
  shows "exitCode = 0 \<and> (\<exists>lg3 s3. main_start Es errText flags None disk2 (new_logger (log_lines lg2)) = (lg3, Serving s3) \<and>
      vm_rep lib ul (Storage (TxManager s3)) D \<and> Port s3 = flag_port flags \<and> idle (TxManager s3) \<and>
      (flag_quiet flags \<longrightarrow> log_lines lg3 = log_lines lg2))"
proof -
  obtain S M where cm: "cm_rep ul (vm_collections (Storage (TxManager s))) S"
    and st: "store_view lib (vm_Manager (Storage (TxManager s))) M" and db: "db_rep ul S M D" using rep by (auto simp: vm_rep_def)
  have code: "exitCode = 0" and disk: "disk = VM_Close (Storage (TxManager s))" using sig by (simp_all add: main_signal_def)
  have view: "disk_view lib ul disk S M" using disk_view_Close [OF cm st sv base] disk by simp
  from sessions.left_disk [OF failed_starts_leave [where Es = Es and n = n, OF view ord db], of lib ul "(S, M)"] view fail
  have "disk_view lib ul disk2 S M" by (metis case_prod_conv snd_conv)
  from main_start_serves [where Es = Es and lg = "new_logger (log_lines lg2)", OF this ord db] code show ?thesis
    by (metis new_logger_lines)
qed

theorem server_restart_witness:
  "\<exists>s lg disk lg2 disk2 lg3 s3. vm_rep sample_lib id (Storage (TxManager s)) sample_db \<and>
     main_signal s (new_logger []) = (lg, Ended 0 disk) \<and>
     (failed_start (\<lambda>_. sample_env) (\<lambda>_. ''error'') default_flags FileNotFound ^^ 2) (lg, disk) = (lg2, disk2) \<and>
     main_start (\<lambda>_. sample_env) (\<lambda>_. ''error'') default_flags None disk2 (new_logger (log_lines lg2)) = (lg3, Serving s3) \<and>
     vm_rep sample_lib id (Storage (TxManager s3)) sample_db \<and> Port s3 = 6969"
proof -
  obtain vm0 where 0: "vm_rep sample_lib id vm0 Map.empty" "cm_basePath (vm_collections vm0) = filepath_Join data_path ''indexes''"
    "collections (vm_collections vm0) = []"
    using NewVectorManager_fresh [OF sample_lib_ok, where p = data_path] by metis
  define vm where "vm = fst (VM_CreateCollection ''docs'' 1 MetricL2 vm0)"
  have rep: "vm_rep sample_lib id vm sample_db"
    unfolding vm_def sample_db_def sample_config_def
    using VM_CreateCollection_ok [OF 0(1) _ sample_plain, of 1 MetricL2] by (simp add: ValidateCollectionConfig_def)
  have base: "cm_basePath (vm_collections vm) = filepath_Join data_path ''indexes''" by (simp add: vm_def base_kept 0(2))
  have "collections (vm_collections vm) = [] \<or> (\<exists>c. collections (vm_collections vm) = [(''docs'', c)] \<and> HNSWIndex c = NewHNSWWrapper 1 MetricL2)"
    unfolding vm_def using 0(3) by (auto simp: VM_CreateCollection_def CreateCollection_def Let_def case_prod_beta split: option.split)
  then have sv: "all_saveable (vm_collections vm)"
    by (auto simp: all_saveable_def saveable_def NewHNSWWrapper_def split: if_splits)
  let ?s = "NewServer 1 (tm_NewManager vm)"
  have st: "Storage (TxManager ?s) = vm" by (simp add: NewServer_def tm_NewManager_def)
  let ?lg = "Info ''Shutting down...'' [] (new_logger [])"
  have sig: "main_signal ?s (new_logger []) = (?lg, Ended 0 (VM_Close vm))" by (simp add: main_signal_def st)
  obtain lg2 disk2 where fail: "(failed_start (\<lambda>_. sample_env) (\<lambda>_. ''error'') default_flags FileNotFound ^^ 2) (?lg, VM_Close vm) = (lg2, disk2)"
    by fastforce
  obtain lg3 s3 where "main_start (\<lambda>_. sample_env) (\<lambda>_. ''error'') default_flags None disk2 (new_logger (log_lines lg2)) = (lg3, Serving s3)"
    "vm_rep sample_lib id (Storage (TxManager s3)) sample_db" "Port s3 = flag_port default_flags"
    using server_restart [of sample_lib id ?s sample_db "\<lambda>_. sample_env", OF _ _ _ _ sig fail] rep base sv unfolding st by auto
  then show ?thesis using rep st sig fail
    by (intro exI [of _ ?s] exI [of _ ?lg] exI [of _ "VM_Close vm"] exI [of _ lg2] exI [of _ disk2] exI [of _ lg3] exI [of _ s3])
      (simp add: default_flags_def)
qed

end
