(* ===== verification/Concurrent_Appends.thy ===== *)
theory Concurrent_Appends
  imports Vector_Properties
begin

section \<open>Concurrent appends\<close>

text \<open>
  \<^verbatim>\<open>VectorManager.AppendBlock\<close> holds no lock of its own: the collection, the record store and the log
  are locked one after the other, so that two calls can interleave between the insertion into the
  collection and the write to the record store. Here the call is split at that point into the two
  phases; carried out one after the other they are the whole call.
\<close>

definition append_insert ::
  "Env \<Rightarrow> string \<Rightarrow> string \<Rightarrow> BlockData \<Rightarrow> VectorManager \<Rightarrow> VectorManager \<times> (go_error + uint32 \<times> bytes)" where
  "append_insert E collection key block vm =
     (case GetCollection (vm_collections vm) collection of
        Inl err \<Rightarrow> (vm, Inl err)
      | Inr coll \<Rightarrow>
          let vm = vm\<lparr>vm_wal := LogAdd (env_now E) collection key 0 (Vector block) (BlockKeywords block)
                        (bytes_of_string (Primary block)) (vm_wal vm)\<rparr>;
              (coll, res) = Coll_AppendBlock (env_lower E) (env_rnd E 0) key block coll;
              vm = put_coll collection coll (cm_disk (vm_collections vm)) vm
          in case res of
               Inl err \<Rightarrow> (vm, Inl err)
             | Inr index \<Rightarrow>
                 (case GetBlockVectorID coll key index of
                    Inl err \<Rightarrow> (vm, Inl (wrap_error ''failed to retrieve vector ID after append'' err))
                  | Inr vectorID \<Rightarrow>
                      (case EncodeEntry (env_lower E) (block_entry key vectorID block) of
                         Inl err \<Rightarrow> (vm, Inl (wrap_error ''failed to encode entry'' err))
                       | Inr encoded \<Rightarrow> (vm, Inr (index, encoded)))))"

definition append_store ::
  "Env \<Rightarrow> string \<Rightarrow> string \<Rightarrow> bytes \<Rightarrow> VectorManager \<Rightarrow> VectorManager \<times> go_error option" where
  "append_store E collection key encoded vm =
     (case Mgr_Append (env_libs E) (makeStorageKey collection key) encoded (vm_Manager vm) of
        (m, Some err) \<Rightarrow> (vm\<lparr>vm_Manager := m\<rparr>, Some (wrap_error ''storage append failed'' err))
      | (m, None) \<Rightarrow>
          let vm = vm\<lparr>vm_Manager := m\<rparr>
          in case GetCollection (vm_collections vm) collection of
               Inl err \<Rightarrow> (vm, Some (wrap_error ''HNSW flush failed'' FileNotFound))
             | Inr coll \<Rightarrow>
                 let (coll, d, err) = Coll_FlushHNSW coll (cm_disk (vm_collections vm))
                 in (put_coll collection coll d vm, map_option (wrap_error ''HNSW flush failed'') err))"

lemma AppendBlock_two_phases:
  "VM_AppendBlock E n k b vm = (case append_insert E n k b vm of
     (vm, Inl err) \<Rightarrow> (vm, 0, Some err)
   | (vm, Inr (index, encoded)) \<Rightarrow> let (vm, err) = append_store E n k encoded vm in (vm, index, err))"
proof (cases "GetCollection (vm_collections vm) n")
  case (Inl err)
  then show ?thesis by (simp add: VM_AppendBlock_def append_insert_def)
next
  case (Inr c)
  obtain c1 res where a: "Coll_AppendBlock (env_lower E) (env_rnd E 0) k b c = (c1, res)" by fastforce
  show ?thesis
  proof (cases res)
    case (Inl err)
    with Inr a show ?thesis by (simp add: VM_AppendBlock_def append_insert_def Let_def)
  next
    case res: (Inr i)
    show ?thesis
    proof (cases "GetBlockVectorID c1 k i")
      case (Inl err)
      with Inr a res show ?thesis by (simp add: VM_AppendBlock_def append_insert_def Let_def)
    next
      case v: (Inr v)
      show ?thesis
      proof (cases "EncodeEntry (env_lower E) (block_entry k v b)")
        case (Inl err)
        with Inr a res v show ?thesis by (simp add: VM_AppendBlock_def append_insert_def Let_def)
      next
        case p: (Inr p)
        obtain m err where m: "Mgr_Append (env_libs E) (makeStorageKey n k) p (vm_Manager vm) = (m, err)" by fastforce
        from Inr a res v p m show ?thesis
          by (cases err) (simp_all add: VM_AppendBlock_def append_insert_def append_store_def Let_def GetCollection_def
              put_coll_def set_collection_def mput_twice case_prod_beta)
      qed
    qed
  qed
qed

subsection \<open>The phases on represented states\<close>

lemma insert_step:
  assumes cm: "cm_rep (env_lower E) (vm_collections vm) S" and s: "S n = Some (cfg, A, R)"
    and c: "mget (collections (vm_collections vm)) n = Some c" and cr: "coll_room c A"
    and acc: "block_acceptable (env_libs E) (env_lower E) n cfg k b" and v: "v = GetNextVectorID (DocMap c)"
  shows "\<exists>vm' c' p R'. append_insert E n k b vm = (vm', Inr (of_nat (length (blocks_of A k)), p)) \<and>
    EncodeEntry (env_lower E) (block_entry k v b) = Inr p \<and> append_accepts (env_libs E) (makeStorageKey n k) p \<and>
    cm_rep (env_lower E) (vm_collections vm') (S(n \<mapsto> (cfg, add_block k (v, Vector b) A, R'))) \<and>
    collections (vm_collections vm') = mput n c' (collections (vm_collections vm)) \<and> vm_Manager vm' = vm_Manager vm \<and>
    (\<forall>m. room_for (Suc m) c A \<longrightarrow> room_for m c' (add_block k (v, Vector b) A))"
proof -
  let ?ul = "env_lower E" and ?cm = "vm_collections vm" and ?i = "of_nat (length (blocks_of A k)) :: uint32"
  have cs: "coll_state_rep ?ul (cm_basePath ?cm) n c (cfg, A, R)" using cm_rep_Some [OF cm s] c by (metis option.inject)
  have fit: "block_fits c b" and kws: "valid_keywords ?ul (BlockKeywords b)"
    using acc cs by (auto simp: block_fits_def block_acceptable_def coll_state_rep_def)
  obtain c1 R' where a: "Coll_AppendBlock ?ul (env_rnd E 0) k b c = (c1, Inr ?i)" "GetBlockVectorID c1 k ?i = Inr v"
    and cs1: "coll_state_rep ?ul (cm_basePath ?cm) n c1 (cfg, add_block k (v, Vector b) A, R')"
    and r1: "\<forall>m. room_for (Suc m) c A \<longrightarrow> room_for m c1 (add_block k (v, Vector b) A)"
    using append_phase [OF cs cr fit kws v] .
  obtain p where p: "EncodeEntry ?ul (block_entry k v b) = Inr p" "append_accepts (env_libs E) (makeStorageKey n k) p"
    using encode_acceptable [OF acc] .
  let ?vm = "put_coll n c1 (cm_disk ?cm) (vm\<lparr>vm_wal := LogAdd (env_now E) n k 0 (Vector b) (BlockKeywords b)
    (bytes_of_string (Primary b)) (vm_wal vm)\<rparr>)"
  have 1: "append_insert E n k b vm = (?vm, Inr (?i, p))"
    using c a p by (simp add: append_insert_def GetCollection_def Let_def)
  have "cm_rep ?ul (set_collection n c1 (cm_disk ?cm) ?cm) (S(n \<mapsto> (cfg, add_block k (v, Vector b) A, R')))"
    using set_collection_rep [OF cm s cs1] cm by (simp add: cm_rep_def)
  moreover have "collections (vm_collections ?vm) = mput n c1 (collections ?cm)" by (simp add: set_collection_def)
  ultimately show ?thesis using 1 p r1 by (intro exI [of _ ?vm] exI [of _ c1]) auto
qed

lemma store_step:
  assumes cm: "cm_rep (env_lower E) (vm_collections vm) S" and s: "S n = Some (cfg, A, R)"
    and st: "store_view (env_libs E) (vm_Manager vm) M" and p: "append_accepts (env_libs E) (makeStorageKey n k) p"
  shows "\<exists>vm'. append_store E n k p vm = (vm', None) \<and> cm_rep (env_lower E) (vm_collections vm') S \<and>
    store_view (env_libs E) (vm_Manager vm') (spec_append (makeStorageKey n k, p) M) \<and>
    (\<forall>m D. vm_room m vm D \<longrightarrow> vm_room m vm' D)"
proof -
  let ?ul = "env_lower E" and ?cm = "vm_collections vm"
  obtain c where c: "mget (collections ?cm) n = Some c" and cs: "coll_state_rep ?ul (cm_basePath ?cm) n c (cfg, A, R)"
    using cm_rep_Some [OF cm s] .
  have base: "coll_basePath c = cm_basePath ?cm @ [n]" using cs by (simp add: coll_state_rep_def)
  obtain dir where "mget (cm_disk ?cm) (coll_basePath c) = Some dir" using cm_rep_directory [OF cm s] base by auto
  from Coll_FlushHNSW_ok [OF this] obtain d' where
    fl: "Coll_FlushHNSW c (cm_disk ?cm) = (c\<lparr>HNSWIndex := fst (hw_Save (HNSWIndex c))\<rparr>, d', None)"
    "\<And>q. meta_at d' q = meta_at (cm_disk ?cm) q" "wf_map (cm_disk ?cm) \<longrightarrow> wf_map d'" by auto
  note put = shards.put_accepted [OF st p]
  obtain m where m: "Mgr_Append (env_libs E) (makeStorageKey n k) p (vm_Manager vm) = (m, None)"
    using put by (cases "Mgr_Append (env_libs E) (makeStorageKey n k) p (vm_Manager vm)") auto
  let ?c = "c\<lparr>HNSWIndex := fst (hw_Save (HNSWIndex c))\<rparr>"
  have "cm_rep ?ul (set_collection n ?c d' ?cm) (S(n \<mapsto> (cfg, A, R)))"
    using set_collection_rep [OF cm s coll_state_saved [OF cs] _ _ fl(2)] cm fl(3) by (simp add: cm_rep_def)
  moreover have "S(n \<mapsto> (cfg, A, R)) = S" using s by auto
  moreover have "append_store E n k p vm = ((put_coll n ?c d' (vm\<lparr>vm_Manager := m\<rparr>)), None)"
    using m c fl(1) by (simp add: append_store_def GetCollection_def Let_def)
  moreover have "vm_room i (put_coll n ?c d' (vm\<lparr>vm_Manager := m\<rparr>)) D" if "vm_room i vm D" for i D
    using that c by (auto simp: vm_room_def set_collection_def mget_mput)
  ultimately show ?thesis using put m by auto
qed

text \<open>Every second phase reads a first phase's answer back at the position the record store gave it.\<close>

lemma GetBlock_nth:
  assumes "cm_rep ul (vm_collections vm) S" and "store_view (env_libs E) (vm_Manager vm) M" and "S n = Some (cfg, A, R)"
    and "A k \<noteq> None" and "M (makeStorageKey n k) = Some ps" and "unat i < length ps"
    and "EncodeEntry (env_lower E) (block_entry k v b) = Inr (ps ! unat i)" and "length (Primary b) < 2 ^ 32"
  shows "\<exists>blk. VM_GetBlock E n k i vm = Inr blk \<and> Primary blk = Primary b"
  using VM_GetBlock_store [OF assms(1-3), of k i] assms(4-6)
    decode_stored [OF assms(7,8), of "the (mget (collections (vm_collections vm)) n)"] by auto

text \<open>
  Splitting \<^verbatim>\<open>AppendBlock\<close> between its last change of the collection and its first change of the
  record store loses nothing: in every state the call is the two phases one after the other, with the
  same final state, the same index and the same error on every branch.
\<close>

theorem AppendBlock_phases:
  "VM_AppendBlock E n k b vm = (case append_insert E n k b vm of
     (vm, Inl err) \<Rightarrow> (vm, 0, Some err)
   | (vm, Inr (index, encoded)) \<Rightarrow> let (vm, err) = append_store E n k encoded vm in (vm, index, err))"
  by (rule AppendBlock_two_phases)

text \<open>
  C38. Two appends to a new key of one collection, started in the order b1, b2 and finished in the
  opposite order: both report success, the first with index 0 and the second with index 1, but
  reading index 0 returns the second block and reading index 1 the first.
\<close>

theorem concurrent_appends_swap:
  assumes rep: "vm_rep (env_libs E) (env_lower E) vm D" and D: "D n = Some (cfg, K)" and k: "K k = None"
    and room: "vm_room 2 vm D"
    and acc: "block_acceptable (env_libs E) (env_lower E) n cfg k b1" "block_acceptable (env_libs E) (env_lower E) n cfg k b2"
  shows "\<exists>vm1 vm2 vm3 vm4 p1 p2 x y. append_insert E n k b1 vm = (vm1, Inr (0, p1)) \<and>
    append_insert E n k b2 vm1 = (vm2, Inr (1, p2)) \<and> append_store E n k p2 vm2 = (vm3, None) \<and>
    append_store E n k p1 vm3 = (vm4, None) \<and> VM_GetBlock E n k 0 vm4 = Inr x \<and> Primary x = Primary b2 \<and>
    VM_GetBlock E n k 1 vm4 = Inr y \<and> Primary y = Primary b1"
proof -
  obtain S M where cm: "cm_rep (env_lower E) (vm_collections vm) S" and st: "store_view (env_libs E) (vm_Manager vm) M"
    and db: "db_rep (env_lower E) S M D" using rep by (auto simp: vm_rep_def)
  obtain A R where s: "S n = Some (cfg, A, R)" and ks: "\<And>k. key_state (env_lower E) k (A k) (M (makeStorageKey n k)) (K k)"
    using db_repD [OF db D] by blast
  have a: "A k = None" "M (makeStorageKey n k) = None" using ks [of k] k by (simp_all add: key_state_def)
  obtain c where c: "mget (collections (vm_collections vm)) n = Some c" using cm_rep_Some [OF cm s] .
  then have "GetCollection (vm_collections vm) n = Inr c" by (simp add: GetCollection_def)
  note r = vm_room_collection [OF room D this ks, unfolded numeral_2_eq_2]
  let ?v = "GetNextVectorID (DocMap c)"
  let ?A1 = "add_block k (?v, Vector b1) A"
  obtain vm1 c1 p1 R1 where 1: "append_insert E n k b1 vm = (vm1, Inr (0, p1))"
    "EncodeEntry (env_lower E) (block_entry k ?v b1) = Inr p1" "append_accepts (env_libs E) (makeStorageKey n k) p1"
    "cm_rep (env_lower E) (vm_collections vm1) (S(n \<mapsto> (cfg, ?A1, R1)))"
    "mget (collections (vm_collections vm1)) n = Some c1" "vm_Manager vm1 = vm_Manager vm" "room_for (Suc 0) c1 ?A1"
    using insert_step [OF cm s c room_for_coll_room [OF r] acc(1) refl] r a(1) by (auto simp: blocks_of_def)
  have s1: "(S(n \<mapsto> (cfg, ?A1, R1))) n = Some (cfg, ?A1, R1)" by simp
  let ?v2 = "GetNextVectorID (DocMap c1)"
  let ?A2 = "add_block k (?v2, Vector b2) ?A1"
  have i1: "length (blocks_of ?A1 k) = 1" using a(1) by (simp add: add_block_def blocks_of_def)
  obtain vm2 p2 R2 where 2: "append_insert E n k b2 vm1 = (vm2, Inr (1, p2))"
    "EncodeEntry (env_lower E) (block_entry k ?v2 b2) = Inr p2" "append_accepts (env_libs E) (makeStorageKey n k) p2"
    "cm_rep (env_lower E) (vm_collections vm2) (S(n \<mapsto> (cfg, ?A2, R2)))" "vm_Manager vm2 = vm_Manager vm"
    using insert_step [OF 1(4) s1 1(5) room_for_coll_room [OF 1(7)] acc(2) refl, unfolded i1 fun_upd_upd of_nat_1] 1(6)
    by auto
  have s2: "(S(n \<mapsto> (cfg, ?A2, R2))) n = Some (cfg, ?A2, R2)" by simp
  from st 2(5) have st2: "store_view (env_libs E) (vm_Manager vm2) M" by simp
  obtain vm3 where 3: "append_store E n k p2 vm2 = (vm3, None)"
    "cm_rep (env_lower E) (vm_collections vm3) (S(n \<mapsto> (cfg, ?A2, R2)))"
    "store_view (env_libs E) (vm_Manager vm3) (spec_append (makeStorageKey n k, p2) M)"
    using store_step [OF 2(4) s2 st2 2(3)] by blast
  obtain vm4 where 4: "append_store E n k p1 vm3 = (vm4, None)"
    "cm_rep (env_lower E) (vm_collections vm4) (S(n \<mapsto> (cfg, ?A2, R2)))"
    "store_view (env_libs E) (vm_Manager vm4) (spec_append (makeStorageKey n k, p1) (spec_append (makeStorageKey n k, p2) M))"
    using store_step [OF 3(2) s2 3(3) 1(3)] by blast
  have A2: "?A2 k \<noteq> None" and M4: "spec_append (makeStorageKey n k, p1) (spec_append (makeStorageKey n k, p2) M) (makeStorageKey n k) = Some [p2, p1]"
    using a by (simp_all add: add_block_def spec_append_def)
  note get = GetBlock_nth [OF 4(2,3) s2 A2 M4]
  from get [of 0 ?v2 b2] get [of 1 ?v b1] 1(1,2) 2(1,2) 3(1) 4(1) acc show ?thesis
    by (simp add: block_acceptable_def)
qed

theorem concurrent_appends_swap_witness:
  "\<exists>vm1 vm2 vm3 vm4 p1 p2 x y. append_insert sample_env ''docs'' ''a'' (text_block ''x'') sample_vm = (vm1, Inr (0, p1)) \<and>
    append_insert sample_env ''docs'' ''a'' (text_block ''y'') vm1 = (vm2, Inr (1, p2)) \<and>
    append_store sample_env ''docs'' ''a'' p2 vm2 = (vm3, None) \<and> append_store sample_env ''docs'' ''a'' p1 vm3 = (vm4, None) \<and>
    VM_GetBlock sample_env ''docs'' ''a'' 0 vm4 = Inr x \<and> Primary x = ''y'' \<and>
    VM_GetBlock sample_env ''docs'' ''a'' 1 vm4 = Inr y \<and> Primary y = ''x''"
  using concurrent_appends_swap [of sample_env sample_vm sample_db "''docs''" sample_config Map.empty "''a''" "text_block ''x''" "text_block ''y''"]
    sample_vm_rep sample_docs sample_vm_room [of 2] text_block_acceptable [of "''x''" "''a''"] text_block_acceptable [of "''y''" "''a''"]
  by simp

end
