(* ===== verification/Interleaved_Appends.thy ===== *)
theory Interleaved_Appends
  imports Concurrent_Appends
begin

section \<open>Interleaved appends\<close>

text \<open>
  Any number of calls of \<^verbatim>\<open>AppendBlock\<close> in progress: \<open>pending\<close> are the calls between their two phases,
  \<open>started\<close> the calls whose first phase has been carried out, in that order, with the index they
  return, and \<open>errors\<close> what the calls that have ended returned as errors. A step is one phase of one
  call; \<open>calls\<close> says which calls are made. Calls for the same key do not overlap.
\<close>

record Appends =
  av_vm :: VectorManager
  pending :: "(string \<times> string \<times> bytes) list"
  started :: "(string \<times> string \<times> BlockData \<times> uint32) list"
  errors :: "go_error option list"

inductive append_step :: "Libs \<Rightarrow> (string \<Rightarrow> string) \<Rightarrow> (string \<Rightarrow> string \<Rightarrow> BlockData \<Rightarrow> bool) \<Rightarrow> Appends \<Rightarrow> Appends \<Rightarrow> bool"
  for lib ul calls where
  insert: "env_libs E = lib \<Longrightarrow> env_lower E = ul \<Longrightarrow> calls n k b \<Longrightarrow> \<forall>p. (n, k, p) \<notin> set (pending s) \<Longrightarrow>
    append_insert E n k b (av_vm s) = (vm, Inr (i, p)) \<Longrightarrow>
    append_step lib ul calls s (s\<lparr>av_vm := vm, pending := pending s @ [(n, k, p)], started := started s @ [(n, k, b, i)]\<rparr>)"
| insert_fails: "env_libs E = lib \<Longrightarrow> env_lower E = ul \<Longrightarrow> calls n k b \<Longrightarrow> \<forall>p. (n, k, p) \<notin> set (pending s) \<Longrightarrow>
    append_insert E n k b (av_vm s) = (vm, Inl err) \<Longrightarrow>
    append_step lib ul calls s (s\<lparr>av_vm := vm, started := started s @ [(n, k, b, 0)], errors := errors s @ [Some err]\<rparr>)"
| store: "env_libs E = lib \<Longrightarrow> env_lower E = ul \<Longrightarrow> pending s = xs @ (n, k, p) # ys \<Longrightarrow>
    append_store E n k p (av_vm s) = (vm, err) \<Longrightarrow>
    append_step lib ul calls s (s\<lparr>av_vm := vm, pending := xs @ ys, errors := errors s @ [err]\<rparr>)"

definition no_appends :: "VectorManager \<Rightarrow> Appends" where
  "no_appends vm = \<lparr>av_vm = vm, pending = [], started = [], errors = []\<rparr>"

definition db_appends :: "(string \<times> string \<times> BlockData \<times> uint32) list \<Rightarrow> db \<Rightarrow> db" where
  "db_appends cs D = fold (\<lambda>(n, k, b, i). db_append n k b) cs D"

text \<open>The indexes the calls return: the lengths of their keys when they are inserted.\<close>

fun indexes_ok :: "db \<Rightarrow> (string \<times> string \<times> BlockData \<times> uint32) list \<Rightarrow> bool" where
  "indexes_ok D [] \<longleftrightarrow> True"
| "indexes_ok D ((n, k, b, i) # cs) \<longleftrightarrow> i = of_nat (length (key_blocks D n k)) \<and> indexes_ok (db_append n k b D) cs"

lemma indexes_ok_snoc: "indexes_ok D (cs @ [(n, k, b, i)]) \<longleftrightarrow> indexes_ok D cs \<and> i = of_nat (length (key_blocks (db_appends cs D) n k))"
  by (induction D cs rule: indexes_ok.induct) (simp_all add: db_appends_def)

lemma db_appends_snoc: "db_appends (cs @ [(n, k, b, i)]) D = db_append n k b (db_appends cs D)"
  by (simp add: db_appends_def)

lemma db_append_config: "D n = Some (cfg, K) \<Longrightarrow> \<exists>K'. db_append n' k b D n = Some (cfg, K')"
  by (auto simp: db_append_def split: option.split)

lemma db_appends_config: "D n = Some (cfg, K) \<Longrightarrow> \<exists>K'. db_appends cs D n = Some (cfg, K')"
proof (induction cs arbitrary: D K)
  case (Cons c cs)
  obtain n' k b i where c: "c = (n', k, b, i)" by (cases c)
  obtain K' where K': "db_append n' k b D n = Some (cfg, K')" using db_append_config [of D n cfg K n' k b] Cons.prems by blast
  from Cons.IH [of "db_append n' k b D" K'] K' show ?case by (simp add: c db_appends_def)
qed (auto simp: db_appends_def)

text \<open>
  The pending records, appended to the record store, would complete the database of the started calls.
  Appends for different keys commute, so that they can be completed in any order.
\<close>

definition pend_record :: "string \<times> string \<times> bytes \<Rightarrow> string \<times> bytes" where
  "pend_record q = (case q of (n, k, p) \<Rightarrow> (makeStorageKey n k, p))"

lemma spec_append_commute: "fst a \<noteq> fst b \<Longrightarrow> spec_append a (spec_append b M) = spec_append b (spec_append a M)"
  by (auto simp: spec_append_def fun_eq_iff)

lemma fold_spec_append_commute:
  "fst a \<notin> fst ` set xs \<Longrightarrow> fold spec_append xs (spec_append a M) = spec_append a (fold spec_append xs M)"
  by (induction xs arbitrary: M) (auto simp: spec_append_commute)

lemma fold_spec_append_other: "x \<notin> fst ` set xs \<Longrightarrow> fold spec_append xs M x = M x"
  by (induction xs arbitrary: M) (auto simp: spec_append_def)

definition conc_rep :: "Libs \<Rightarrow> (string \<Rightarrow> string) \<Rightarrow> Appends \<Rightarrow> db \<Rightarrow> bool" where
  "conc_rep lib ul s D \<longleftrightarrow> distinct (map (fst \<circ> pend_record) (pending s)) \<and>
     list_all (\<lambda>(n, k, p). D n \<noteq> None \<and> append_accepts lib (makeStorageKey n k) p) (pending s) \<and>
     (\<exists>S M. cm_rep ul (vm_collections (av_vm s)) S \<and> store_view lib (vm_Manager (av_vm s)) M \<and>
        db_rep ul S (fold spec_append (map pend_record (pending s)) M) D)"

lemma conc_rep_start: "vm_rep lib ul vm D \<Longrightarrow> conc_rep lib ul (no_appends vm) D"
  by (simp add: conc_rep_def vm_rep_def no_appends_def)

lemma conc_rep_end: "conc_rep lib ul s D \<Longrightarrow> pending s = [] \<Longrightarrow> vm_rep lib ul (av_vm s) D"
  by (simp add: conc_rep_def vm_rep_def)

lemma conc_insert:
  assumes rep: "conc_rep (env_libs E) (env_lower E) s D" and D: "D n = Some (cfg, K)" and room: "vm_room (Suc m) (av_vm s) D"
    and acc: "block_acceptable (env_libs E) (env_lower E) n cfg k b" and free: "\<forall>p. (n, k, p) \<notin> set (pending s)"
  obtains vm p where "append_insert E n k b (av_vm s) = (vm, Inr (of_nat (length (key_blocks D n k)), p))"
    and "vm_room m vm (db_append n k b D)"
    and "conc_rep (env_libs E) (env_lower E) (s\<lparr>av_vm := vm, pending := pending s @ [(n, k, p)],
      started := cs, errors := es\<rparr>) (db_append n k b D)"
proof -
  let ?ul = "env_lower E" and ?lib = "env_libs E" and ?vm = "av_vm s"
  let ?fold = "fold spec_append (map pend_record (pending s))"
  obtain S M where cm: "cm_rep ?ul (vm_collections ?vm) S" and st: "store_view ?lib (vm_Manager ?vm) M"
    and db: "db_rep ?ul S (?fold M) D" using rep by (auto simp: conc_rep_def)
  obtain A R where n: "CHR '':'' \<notin> set n" and s: "S n = Some (cfg, A, R)"
    and ks: "\<And>k. key_state ?ul k (A k) (?fold M (makeStorageKey n k)) (K k)"
    using db_repD [OF db D] by blast
  obtain c where c: "mget (collections (vm_collections ?vm)) n = Some c" using cm_rep_Some [OF cm s] .
  then have "GetCollection (vm_collections ?vm) n = Inr c" by (simp add: GetCollection_def)
  note r = vm_room_collection [OF room D this ks]
  obtain vm c' p R' where 1: "append_insert E n k b ?vm = (vm, Inr (of_nat (length (blocks_of A k)), p))"
    and p: "EncodeEntry ?ul (block_entry k (GetNextVectorID (DocMap c)) b) = Inr p" "append_accepts ?lib (makeStorageKey n k) p"
    and cm': "cm_rep ?ul (vm_collections vm) (S(n \<mapsto> (cfg, add_block k (GetNextVectorID (DocMap c), Vector b) A, R')))"
    and cs: "collections (vm_collections vm) = mput n c' (collections (vm_collections ?vm))" and m: "vm_Manager vm = vm_Manager ?vm"
    and r': "\<forall>m. room_for (Suc m) c A \<longrightarrow> room_for m c' (add_block k (GetNextVectorID (DocMap c), Vector b) A)"
    using insert_step [OF cm s c room_for_coll_room [OF r] acc refl] by blast
  have "length (Primary b) < 2 ^ 32" using acc by (simp add: block_acceptable_def)
  from db_rep_append [OF db D s p(1) this, of R'] m st cm'
  have "\<exists>S M. cm_rep ?ul (vm_collections vm) S \<and> store_view ?lib (vm_Manager vm) M \<and>
      db_rep ?ul S (spec_append (makeStorageKey n k, p) (?fold M)) (db_append n k b D)" by auto
  moreover have "makeStorageKey n k \<noteq> makeStorageKey n' k'" if q: "(n', k', p') \<in> set (pending s)" for n' k' p'
  proof -
    obtain cfg' K' where "D n' = Some (cfg', K')" using rep q by (fastforce simp: conc_rep_def list_all_iff)
    from conjunct1 [OF db_repD [OF db this]] storage_key_eq [OF n] free q show ?thesis by auto
  qed
  moreover have "db_append n k b D n' \<noteq> None" if "D n' \<noteq> None" for n'
    using that db_append_config [of D n'] by fastforce
  ultimately have "conc_rep ?lib ?ul (s\<lparr>av_vm := vm, pending := pending s @ [(n, k, p)], started := cs, errors := es\<rparr>) (db_append n k b D)" for cs es
    using rep p(2) D by (fastforce simp: conc_rep_def list_all_iff pend_record_def)
  moreover have "length (blocks_of A k) = length (key_blocks D n k)"
    using key_state_blocks [OF ks, of k] D by (simp add: blocks_of_def key_blocks_def)
  ultimately show thesis using that 1 vm_room_append [OF room D cs mp [OF spec [OF r'] r]] by auto
qed

lemma conc_store:
  assumes rep: "conc_rep (env_libs E) (env_lower E) s D" and q: "pending s = xs @ (n, k, p) # ys"
  obtains vm where "append_store E n k p (av_vm s) = (vm, None)"
    and "conc_rep (env_libs E) (env_lower E) (s\<lparr>av_vm := vm, pending := xs @ ys, errors := es\<rparr>) D"
    and "\<forall>m D. vm_room m (av_vm s) D \<longrightarrow> vm_room m vm D"
proof -
  let ?ul = "env_lower E" and ?lib = "env_libs E" and ?a = "(makeStorageKey n k, p)"
  obtain S M where cm: "cm_rep ?ul (vm_collections (av_vm s)) S" and st: "store_view ?lib (vm_Manager (av_vm s)) M"
    and db: "db_rep ?ul S (fold spec_append (map pend_record (pending s)) M) D" using rep by (auto simp: conc_rep_def)
  have p: "D n \<noteq> None" "append_accepts ?lib (makeStorageKey n k) p" using rep by (simp_all add: conc_rep_def q)
  then obtain cfg K where "D n = Some (cfg, K)" by fastforce
  then obtain A R where s: "S n = Some (cfg, A, R)" using db_repD [OF db] by blast
  obtain vm where vm: "append_store E n k p (av_vm s) = (vm, None)" "cm_rep ?ul (vm_collections vm) S"
    "store_view ?lib (vm_Manager vm) (spec_append ?a M)" "\<forall>m D. vm_room m (av_vm s) D \<longrightarrow> vm_room m vm D"
    using store_step [OF cm s st p(2)] by blast
  have d: "fst ?a \<notin> fst ` set (map pend_record xs)" using rep by (auto simp: conc_rep_def q pend_record_def image_image)
  have "fold spec_append (map pend_record (xs @ ys)) (spec_append ?a M) = fold spec_append (map pend_record (pending s)) M"
    using fold_spec_append_commute [OF d, of M] by (simp add: q pend_record_def)
  with db have "db_rep ?ul S (fold spec_append (map pend_record (xs @ ys)) (spec_append ?a M)) D" by simp
  with vm rep have "conc_rep ?lib ?ul (s\<lparr>av_vm := vm, pending := xs @ ys, errors := es\<rparr>) D"
    by (auto simp: conc_rep_def q)
  with vm that show thesis by blast
qed

text \<open>
  The invariant of all interleavings: the state represents the database with the started calls
  appended in the order they started, no call has failed, and their indexes are the positions of their
  blocks in it.
\<close>

definition conc_ok :: "Libs \<Rightarrow> (string \<Rightarrow> string) \<Rightarrow> nat \<Rightarrow> db \<Rightarrow> Appends \<Rightarrow> bool" where
  "conc_ok lib ul N D s \<longleftrightarrow> (length (started s) \<le> N \<longrightarrow>
     conc_rep lib ul s (db_appends (started s) D) \<and> vm_room (N - length (started s)) (av_vm s) (db_appends (started s) D) \<and>
     indexes_ok D (started s) \<and> list_all (\<lambda>err. err = None) (errors s))"

definition calls_ok :: "Libs \<Rightarrow> (string \<Rightarrow> string) \<Rightarrow> (string \<Rightarrow> string \<Rightarrow> BlockData \<Rightarrow> bool) \<Rightarrow> db \<Rightarrow> bool" where
  "calls_ok lib ul calls D \<longleftrightarrow>
     (\<forall>n k b. calls n k b \<longrightarrow> (\<exists>cfg K. D n = Some (cfg, K) \<and> block_acceptable lib ul n cfg k b))"

lemma conc_start:
  assumes ok: "conc_ok lib ul N D s" and calls: "calls_ok lib ul calls D" and env: "env_libs E = lib" "env_lower E = ul"
    and c: "calls n k b" "\<forall>p. (n, k, p) \<notin> set (pending s)" and l: "Suc (length (started s)) \<le> N"
  obtains vm i p where "append_insert E n k b (av_vm s) = (vm, Inr (i, p))"
    and "conc_ok lib ul N D (s\<lparr>av_vm := vm, pending := pending s @ [(n, k, p)], started := started s @ [(n, k, b, i)]\<rparr>)"
proof -
  let ?D = "db_appends (started s) D" and ?l = "length (started s)"
  obtain cfg K0 where "D n = Some (cfg, K0)" and acc: "block_acceptable lib ul n cfg k b"
    using calls c(1) unfolding calls_ok_def by blast
  from db_appends_config [of D n cfg K0, OF this(1)] obtain K where D: "?D n = Some (cfg, K)" by blast
  have rep: "conc_rep (env_libs E) (env_lower E) s ?D" and room: "vm_room (Suc (N - Suc ?l)) (av_vm s) ?D"
    and old: "indexes_ok D (started s)" "list_all (\<lambda>err. err = None) (errors s)"
    using ok l env by (simp_all add: conc_ok_def Suc_diff_Suc)
  obtain vm p where 1: "append_insert E n k b (av_vm s) = (vm, Inr (of_nat (length (key_blocks ?D n k)), p))"
    and 2: "vm_room (N - Suc ?l) vm (db_append n k b ?D)"
    "conc_rep (env_libs E) (env_lower E) (s\<lparr>av_vm := vm, pending := pending s @ [(n, k, p)],
       started := started s @ [(n, k, b, of_nat (length (key_blocks ?D n k)))], errors := errors s\<rparr>) (db_append n k b ?D)"
    using conc_insert [OF rep D room _ c(2)] acc env by blast
  from 2 old env have "conc_ok lib ul N D (s\<lparr>av_vm := vm, pending := pending s @ [(n, k, p)],
       started := started s @ [(n, k, b, of_nat (length (key_blocks ?D n k)))]\<rparr>)"
    by (auto simp: conc_ok_def db_appends_snoc indexes_ok_snoc)
  with 1 show thesis by (rule that)
qed

lemma append_step_ok:
  assumes "append_step lib ul calls s s'" and ok: "conc_ok lib ul N D s" and calls: "calls_ok lib ul calls D"
  shows "conc_ok lib ul N D s'"
proof -
  let ?D = "db_appends (started s) D" and ?l = "length (started s)"
  from assms(1) show ?thesis
  proof (cases rule: append_step.cases)
    case (insert E n k b vm i p)
    show ?thesis
    proof (cases "Suc ?l \<le> N")
      case True
      show ?thesis by (rule conc_start [OF ok calls insert(2,3,4,5) True]) (use insert(1,6) in auto)
    qed (use insert(1) in \<open>simp add: conc_ok_def\<close>)
  next
    case (insert_fails E n k b vm err)
    show ?thesis
    proof (cases "Suc ?l \<le> N")
      case True
      show ?thesis by (rule conc_start [OF ok calls insert_fails(2,3,4,5) True]) (use insert_fails(6) in auto)
    qed (use insert_fails(1) in \<open>simp add: conc_ok_def\<close>)
  next
    case (store E xs n k p ys vm err)
    have "conc_ok lib ul N D s'" if l: "?l \<le> N"
    proof -
      have rep: "conc_rep (env_libs E) (env_lower E) s ?D" using ok l store(2,3) by (simp add: conc_ok_def)
      obtain vm' where
        "append_store E n k p (av_vm s) = (vm', None)" "\<forall>m D. vm_room m (av_vm s) D \<longrightarrow> vm_room m vm' D"
        "conc_rep (env_libs E) (env_lower E) (s\<lparr>av_vm := vm', pending := xs @ ys, errors := errors s @ [None]\<rparr>) ?D"
        by (rule conc_store [OF rep store(4), where es = "errors s @ [None]"])
      then have s': "s' = s\<lparr>av_vm := vm', pending := xs @ ys, errors := errors s @ [None]\<rparr>"
        and rep': "conc_rep lib ul s' ?D" and room: "\<forall>m D. vm_room m (av_vm s) D \<longrightarrow> vm_room m (av_vm s') D"
        using store(1,2,3,5) by simp_all
      from s' have "started s' = started s" "errors s' = errors s @ [None]" by simp_all
      with rep' room ok l show ?thesis by (simp add: conc_ok_def)
    qed
    moreover have "started s' = started s" using store(1) by simp
    ultimately show ?thesis unfolding conc_ok_def by metis
  qed
qed

lemma append_run_ok:
  "(append_step lib ul calls)\<^sup>*\<^sup>* s s' \<Longrightarrow> conc_ok lib ul N D s \<Longrightarrow> calls_ok lib ul calls D \<Longrightarrow> conc_ok lib ul N D s'"
  by (induction rule: rtranclp_induct) (auto intro: append_step_ok)

lemma conc_ok_start: "vm_rep lib ul vm D \<Longrightarrow> vm_room N vm D \<Longrightarrow> conc_ok lib ul N D (no_appends vm)"
  using conc_rep_start [of lib ul vm D] by (simp add: conc_ok_def no_appends_def db_appends_def)

text \<open>Reading while appends are pending: a key without a pending call reads as in the database.\<close>

lemma conc_GetBlock:
  assumes rep: "conc_rep (env_libs E) (env_lower E) s D" and free: "\<forall>p. (n, k, p) \<notin> set (pending s)"
  shows "VM_GetBlock E n k i (av_vm s) = spec_GetBlock (env_lower E) D n k (unat i)"
proof -
  let ?ul = "env_lower E" and ?vm = "av_vm s"
  obtain S M where cm: "cm_rep ?ul (vm_collections ?vm) S" and st: "store_view (env_libs E) (vm_Manager ?vm) M"
    and db: "db_rep ?ul S (fold spec_append (map pend_record (pending s)) M) D" using rep by (auto simp: conc_rep_def)
  show ?thesis
  proof (cases "D n")
    case None
    then show ?thesis using db_no_collection [OF cm db] by (simp add: VM_GetBlock_def spec_GetBlock_def)
  next
    case (Some ck)
    obtain cfg K where ck: "ck = (cfg, K)" by (cases ck)
    obtain c A R where c: "GetCollection (vm_collections ?vm) n = Inr c" "coll_rep c A"
      and key: "key_state ?ul k (A k) (fold spec_append (map pend_record (pending s)) M (makeStorageKey n k)) (K k)"
      and n: "CHR '':'' \<notin> set n"
      using db_collection [OF cm db Some [unfolded ck]] by metis
    have "makeStorageKey n k \<noteq> fst (pend_record q)" if q: "q \<in> set (pending s)" for q
    proof -
      obtain n' k' p' where q': "q = (n', k', p')" by (cases q)
      obtain cfg' K' where "D n' = Some (cfg', K')" using rep q q' by (fastforce simp: conc_rep_def list_all_iff)
      from conjunct1 [OF db_repD [OF db this]] storage_key_eq [OF n] free q q' show ?thesis by (auto simp: pend_record_def)
    qed
    then have "makeStorageKey n k \<notin> fst ` set (map pend_record (pending s))" unfolding list.set_map by blast
    then have "fold spec_append (map pend_record (pending s)) M (makeStorageKey n k) = M (makeStorageKey n k)"
      by (rule fold_spec_append_other)
    with VM_GetBlock_key [OF c st] key Some ck show ?thesis by (simp add: spec_GetBlock_def)
  qed
qed

subsection \<open>Interleavings of calls for different keys\<close>

text \<open>
  C8. Concurrent appends are linearizable as long as calls for one key do not overlap: whatever the
  order in which the two phases of any number of calls are carried out, no call fails, each returns
  the position of its block in the database to which the calls are appended in the order of their
  first phases, a key without a pending call always reads as in that database, and when no call is
  pending the manager represents it.
\<close>

theorem interleaved_appends_refine:
  assumes "vm_rep lib ul vm D" and "vm_room N vm D" and "calls_ok lib ul calls D"
    and "(append_step lib ul calls)\<^sup>*\<^sup>* (no_appends vm) s" and "length (started s) \<le> N"
  shows "list_all (\<lambda>err. err = None) (errors s) \<and> indexes_ok D (started s) \<and>
    (pending s = [] \<longrightarrow> vm_rep lib ul (av_vm s) (db_appends (started s) D)) \<and>
    (\<forall>E n k i. env_libs E = lib \<and> env_lower E = ul \<and> (\<forall>p. (n, k, p) \<notin> set (pending s)) \<longrightarrow>
       VM_GetBlock E n k i (av_vm s) = spec_GetBlock ul (db_appends (started s) D) n k (unat i))"
proof -
  have "conc_ok lib ul N D s" using append_run_ok [OF assms(4) conc_ok_start [OF assms(1,2)] assms(3)] .
  then have "conc_rep lib ul s (db_appends (started s) D)" "indexes_ok D (started s)" "list_all (\<lambda>err. err = None) (errors s)"
    using assms(5) by (simp_all add: conc_ok_def)
  with conc_rep_end conc_GetBlock show ?thesis by blast
qed

text \<open>
  Every call can start and every pending call can be completed: a run with two calls that are finished
  in the opposite order.
\<close>

lemma start_possible:
  assumes ok: "conc_ok lib ul N D s" and calls: "calls_ok lib ul calls D" and env: "env_libs (E :: Env) = lib" "env_lower E = ul"
    and c: "calls n k b" "\<forall>p. (n, k, p) \<notin> set (pending s)" and l: "Suc (length (started s)) \<le> N"
  obtains s' i p where "append_step lib ul calls s s'" and "conc_ok lib ul N D s'" and "started s' = started s @ [(n, k, b, i)]"
    and "pending s' = pending s @ [(n, k, p)]"
proof (rule conc_start [OF assms])
  fix vm i p
  let ?s = "s\<lparr>av_vm := vm, pending := pending s @ [(n, k, p)], started := started s @ [(n, k, b, i)]\<rparr>"
  assume "append_insert E n k b (av_vm s) = (vm, Inr (i, p))" and "conc_ok lib ul N D ?s"
  with append_step.insert [of E lib ul calls n k b s vm i p] env c that [of ?s i p] show thesis by simp
qed

lemma store_possible:
  assumes "pending s = xs @ (n, k, p) # ys" and "env_libs (E :: Env) = lib" and "env_lower E = ul"
  obtains s' where "append_step lib ul calls s s'" and "started s' = started s" and "pending s' = xs @ ys"
proof -
  obtain vm err where "append_store E n k p (av_vm s) = (vm, err)" by fastforce
  then have "append_step lib ul calls s (s\<lparr>av_vm := vm, pending := xs @ ys, errors := errors s @ [err]\<rparr>)"
    using append_step.store assms by blast
  then show thesis by (rule that) simp_all
qed

definition sample_calls :: "string \<Rightarrow> string \<Rightarrow> BlockData \<Rightarrow> bool" where
  "sample_calls n k b \<longleftrightarrow> n = ''docs'' \<and> (k = ''a'' \<and> b = text_block ''x'' \<or> k = ''b'' \<and> b = text_block ''y'')"

lemma sample_calls_ok: "calls_ok sample_lib id sample_calls sample_db"
  using text_block_acceptable by (auto simp: calls_ok_def sample_calls_def sample_docs)

lemma two_appends_run:
  "\<exists>s i j. (append_step sample_lib id sample_calls)\<^sup>*\<^sup>* (no_appends sample_vm) s \<and>
     started s = [(''docs'', ''a'', text_block ''x'', i), (''docs'', ''b'', text_block ''y'', j)] \<and> pending s = []"
proof -
  let ?step = "append_step sample_lib id sample_calls" and ?s0 = "no_appends sample_vm"
  note env = sample_env_fields(1,2)
  have s0: "started ?s0 = []" "pending ?s0 = []" by (simp_all add: no_appends_def)
  have ok: "conc_ok sample_lib id 2 sample_db ?s0" by (intro conc_ok_start sample_vm_rep sample_vm_room) simp
  obtain s1 i p where 1: "?step ?s0 s1" "conc_ok sample_lib id 2 sample_db s1"
    "started s1 = [(''docs'', ''a'', text_block ''x'', i)]" "pending s1 = [(''docs'', ''a'', p)]"
    by (rule start_possible [OF ok sample_calls_ok env, of "''docs''" "''a''" "text_block ''x''"]) (simp_all add: sample_calls_def s0)
  obtain s2 j q where 2: "?step s1 s2"
    "started s2 = [(''docs'', ''a'', text_block ''x'', i), (''docs'', ''b'', text_block ''y'', j)]"
    "pending s2 = [(''docs'', ''a'', p)] @ [(''docs'', ''b'', q)]"
    by (rule start_possible [OF 1(2) sample_calls_ok env, of "''docs''" "''b''" "text_block ''y''"]) (simp_all add: sample_calls_def 1(3,4))
  obtain s3 where 3: "?step s2 s3" "started s3 = started s2" "pending s3 = [] @ [(''docs'', ''a'', p)]"
    by (rule store_possible [OF 2(3) env]) simp
  obtain s4 where 4: "?step s3 s4" "started s4 = started s3" "pending s4 = []"
    by (rule store_possible [OF 3(3) env]) simp
  have "?step\<^sup>*\<^sup>* ?s0 s4" using 1(1) 2(1) 3(1) 4(1) by (meson converse_rtranclp_into_rtranclp rtranclp.rtrancl_refl)
  with 2(2) 3(2) 4(2,3) show ?thesis by auto
qed

theorem interleaved_appends_refine_witness:
  "\<exists>s. (append_step sample_lib id sample_calls)\<^sup>*\<^sup>* (no_appends sample_vm) s \<and> length (started s) = 2 \<and>
     list_all (\<lambda>err. err = None) (errors s) \<and> indexes_ok sample_db (started s) \<and> pending s = [] \<and>
     vm_rep sample_lib id (av_vm s) (db_appends (started s) sample_db) \<and>
     VM_GetBlock sample_env ''docs'' ''a'' 0 (av_vm s) = spec_GetBlock id (db_appends (started s) sample_db) ''docs'' ''a'' 0"
proof -
  obtain s i j where s: "(append_step sample_lib id sample_calls)\<^sup>*\<^sup>* (no_appends sample_vm) s" "pending s = []"
    "started s = [(''docs'', ''a'', text_block ''x'', i), (''docs'', ''b'', text_block ''y'', j)]"
    using two_appends_run by blast
  have len: "length (started s) \<le> 2" using s(3) by simp
  have room: "vm_room 2 sample_vm sample_db" by (rule sample_vm_room) simp
  note * = interleaved_appends_refine [OF sample_vm_rep room sample_calls_ok s(1) len]
  have "VM_GetBlock sample_env ''docs'' ''a'' 0 (av_vm s) = spec_GetBlock id (db_appends (started s) sample_db) ''docs'' ''a'' (unat 0)"
    using * [THEN conjunct2, THEN conjunct2, THEN conjunct2, THEN spec, of sample_env] s(2) by simp
  moreover have "length (started s) = 2" using s(3) by simp
  ultimately show ?thesis using * s(1,2) by (intro exI [of _ s]) simp
qed

end
