(* ===== verification/Shard_Crash.thy ===== *)
theory Shard_Crash
  imports Shard_Refinement
begin

section \<open>Writes that a crash cuts short\<close>

text \<open>
  A crash during \<^verbatim>\<open>Append\<close> of \<^verbatim>\<open>internal/storage/storage.go\<close> can leave the first bytes of the last
  record of a shard, and a crash during \<^verbatim>\<open>saveIndex\<close>, which truncates the index file before it writes
  it, a file that does not decode. This theory shows what \<^verbatim>\<open>rebuildIndex\<close> and the reads make of it.
\<close>

subsection \<open>Rebuilding in front of other bytes\<close>

lemma rebuild_from_log_post:
  "list_all (record_ok lib) log \<Longrightarrow>
   rebuild_from (BucketFile b @ log_bytes lib log @ post) (length (BucketFile b)) (Index b) =
     rebuild_from (BucketFile b @ log_bytes lib log @ post) (length (BucketFile b @ log_bytes lib log))
       (Index (fold (bucket_append lib) log b))"
proof (induction log arbitrary: b)
  case (Cons kp log)
  obtain k p where kp: "kp = (k, p)" by (cases kp)
  show ?case
    using Cons.IH [of "bucket_append lib kp b"] Cons.prems
      rebuild_from_step [of lib k p "BucketFile b" "log_bytes lib log @ post" "Index b"]
    by (simp add: kp bucket_append_def add.assoc)
qed simp

text \<open>A record without its end is indexed when its header is complete; its payload is skipped unseen.\<close>

lemma torn_fields:
  assumes "record_ok lib (k, p)" and "n < length (rec_bytes lib (k, p))"
  defines "t \<equiv> take n (rec_bytes lib (k, p))"
  shows "length t = n" and "4 \<le> n \<Longrightarrow> unat (BE_Uint32 (take 4 t)) = length k"
    and "4 + length k \<le> n \<Longrightarrow> take (length k) (drop 4 t) = bytes_of_string k"
    and "8 + length k \<le> n \<Longrightarrow> unat (BE_Uint32 (take 4 (drop (4 + length k) t))) = length (CompressBytes lib p)"
  using rec_bytes_fields [OF assms(1)] assms(2) by (auto simp: t_def drop_take min_def)

lemma rebuild_from_torn:
  assumes "record_ok lib (k, p)" and "n < length (rec_bytes lib (k, p))"
    and "length post + n \<le> length (rec_bytes lib (k, p))" and "post = [] \<or> 8 + length k \<le> n"
  shows "rebuild_from (pre @ take n (rec_bytes lib (k, p)) @ post) (length pre) idx =
    (if n < 8 + length k then idx else mput k (mget0 [] idx k @ [length pre]) idx)"
proof -
  define t where "t = take n (rec_bytes lib (k, p))"
  note f = torn_fields [OF assms(1,2), folded t_def]
  let ?f = "pre @ t @ post"
  have s: "slice ?f (length pre) (length pre + 4) = take 4 t" if "4 \<le> n"
    using that f(1) by (simp add: slice_def)
  have s2: "slice ?f (length pre + 4) (length pre + (4 + length k)) = take (length k) (drop 4 t)" if "4 + length k \<le> n"
    using that f(1) by (simp add: slice_def)
  have s3: "slice ?f (length pre + (4 + length k)) (length pre + (8 + length k)) = take 4 (drop (4 + length k) t)"
    if "8 + length k \<le> n"
    using that f(1) by (simp add: slice_def)
  have len: "length (rec_bytes lib (k, p)) = 8 + length k + length (CompressBytes lib p)" using rec_bytes_fields(5) [OF assms(1)] .
  consider "n < 4" "post = []" | "4 \<le> n" "n < 8 + length k" "post = []" | "8 + length k \<le> n" using assms(4) by linarith
  then show ?thesis
  proof cases
    case 1
    then show ?thesis by (subst rebuild_from.simps) (simp add: f(1) t_def [symmetric])
  next
    case 2
    then have "unat (BE_Uint32 (slice (pre @ t) (length pre) (length pre + 4))) = length k" using s f(2) by simp
    with 2 show ?thesis
      by (subst rebuild_from.simps) (auto simp: Let_def f(1) t_def [symmetric] add.assoc)
  next
    case 3
    have stop: "rebuild_from ?f (length pre + (8 + (length k + length (CompressBytes lib p)))) idx' = idx'" for idx'
      using assms(3) len f(1) by (subst rebuild_from.simps) simp
    from 3 show ?thesis
      by (subst rebuild_from.simps) (simp add: Let_def s s2 s3 f stop t_def [symmetric] add.assoc)
  qed
qed

subsection \<open>A restart after a cut append\<close>

text \<open>
  What is on disk when an append of \<open>(k, p)\<close> stops after \<open>n\<close> bytes and the index files are lost.
\<close>

definition torn_disk :: "Libs \<Rightarrow> string \<Rightarrow> bytes \<Rightarrow> nat \<Rightarrow> Manager \<Rightarrow> (uint32, shard_disk) gomap" where
  "torn_disk lib k p n m = map (\<lambda>(i, b). (i, (BucketFile b @
     (if i = getBucketID lib k then take n (rec_bytes lib (k, p)) else []), BadFile))) (Buckets m)"

lemma mget_map_key: "mget (map (\<lambda>(i, b). (i, f i b)) m) i = map_option (f i) (mget m i)"
  by (induction m) auto

lemma mget_torn_disk: "mget (torn_disk lib k p n m) i = map_option (\<lambda>b. (BucketFile b @
     (if i = getBucketID lib k then take n (rec_bytes lib (k, p)) else []), BadFile)) (mget (Buckets m) i)"
  unfolding torn_disk_def by (rule mget_map_key)

text \<open>The index of a shard: that of its complete records, and the offset of the cut record.\<close>

definition torn_index :: "string \<Rightarrow> nat \<Rightarrow> nat \<Rightarrow> offset_index \<Rightarrow> offset_index" where
  "torn_index k n off idx = (if n < 8 + length k then idx else mput k (mget0 [] idx k @ [off]) idx)"

lemma torn_shard:
  assumes "list_all (record_ok lib) log" and "record_ok lib (k, p)" and "n < length (rec_bytes lib (k, p))"
  obtains idx where "rebuild_from (log_bytes lib log @ take n (rec_bytes lib (k, p))) 0 [] = torn_index k n (length (log_bytes lib log)) idx"
    and "bucket_rep lib \<lparr>BucketFile = log_bytes lib log @ extra, Index = idx, IndexFile = NoFile\<rparr> (log_view log)"
proof -
  let ?e = "\<lparr>BucketFile = [], Index = [], IndexFile = NoFile\<rparr>" and ?t = "take n (rec_bytes lib (k, p))"
  let ?idx = "Index (fold (bucket_append lib) log ?e)"
  have "rebuild_from (log_bytes lib log @ ?t) 0 [] = torn_index k n (length (log_bytes lib log)) ?idx"
    using rebuild_from_log_post [OF assms(1), of ?e ?t] rebuild_from_torn [OF assms(2,3), of "[]" "log_bytes lib log" ?idx] assms(3)
    by (simp add: torn_index_def)
  moreover have "bucket_rep lib (fold (bucket_append lib) log ?e) (log_view log)"
    unfolding log_view_def using bucket_rep_empty [of ?e lib] assms(1) by (intro bucket_rep_fold) simp_all
  then have "bucket_rep lib \<lparr>BucketFile = log_bytes lib log @ extra, Index = ?idx, IndexFile = NoFile\<rparr> (log_view log)"
    unfolding bucket_rep_def
    by (auto simp: BucketFile_fold_append elim!: option.rel_mono_strong list_all2_mono record_at_append)
  ultimately show thesis by (rule that)
qed

text \<open>A read at the offset of a cut record meets the end of the file.\<close>

lemma read_torn:
  assumes "record_ok lib (k, p)" and "n < length (rec_bytes lib (k, p))" and "8 + length k \<le> n"
    and "BucketFile b = pre @ take n (rec_bytes lib (k, p))"
  shows "readRecordAt lib b (length pre) = Inl UnexpectedEOF"
proof -
  let ?t = "take n (rec_bytes lib (k, p))"
  note f = torn_fields [OF assms(1,2)] and r = rec_bytes_fields(5) [OF assms(1)]
  have d: "drop (length pre) (BucketFile b) = ?t" using assms(4) by simp
  have kl: "unat (BE_Uint32 (take 4 ?t)) = length k" using f(2) assms(3) by simp
  have "readRecordAt lib b (length pre) = parse_record lib ?t"
    unfolding d [symmetric] by (rule readRecordAt_parse) (use assms(1) kl in \<open>simp add: d record_ok_def\<close>)
  also have "\<dots> = Inl UnexpectedEOF"
    using assms(2,3) r f(1,4) unfolding parse_record_def kl Let_def by simp
  finally show ?thesis .
qed

definition contents_get :: "contents \<Rightarrow> string \<Rightarrow> int \<Rightarrow> go_error + bytes" where
  "contents_get A k i = (case A k of None \<Rightarrow> Inl IndexOutOfBounds
     | Some ps \<Rightarrow> if 0 \<le> i \<and> i < int (length ps) then Inr (ps ! nat i) else Inl IndexOutOfBounds)"

lemma Mgr_Get_bucket:
  "mget (Buckets m) (getBucketID lib k) = Some b \<Longrightarrow> Mgr_Get lib k i m = (case mget (Index b) k of None \<Rightarrow> Inl IndexOutOfBounds
     | Some offs \<Rightarrow> if 0 \<le> i \<and> i < int (length offs) then readRecordAt lib b (offs ! nat i) else Inl IndexOutOfBounds)"
  by (auto simp: Mgr_Get_def bucket_of_def split: option.split)

lemma bucket_rep_get:
  assumes "zstd_ok lib" and "bucket_rep lib b A" and "mget (Buckets m) (getBucketID lib k) = Some b"
  shows "Mgr_Get lib k i m = contents_get A k i"
proof -
  have "rel_option (list_all2 (record_at lib (BucketFile b) k)) (mget (Index b) k) (A k)"
    using assms(2) by (simp add: bucket_rep_def)
  with list_all2_read [OF assms(1), of b k] show ?thesis
    unfolding Mgr_Get_bucket [OF assms(3)] contents_get_def
    by (cases "mget (Index b) k"; cases "A k") (auto dest: list_all2_lengthD)
qed

lemma contents_get_shard: "contents_get (shard_view lib (getBucketID lib k) A) k i = contents_get A k i"
  by (simp add: contents_get_def shard_view_def)

lemma torn_bucket:
  assumes rep: "store_rep lib m A L" and "i < PartitionCount"
  defines "d \<equiv> log_bytes lib (shard_log lib i L)"
  shows "mget (Buckets (NewManager (torn_disk lib k p n m))) i = Some (open_bucket (d @
     (if i = getBucketID lib k then take n (rec_bytes lib (k, p)) else []), BadFile))"
proof -
  obtain b where b: "mget (Buckets m) i = Some b" "BucketFile b = d"
    using assms by (cases "mget (Buckets m) i") (auto simp: store_rep_def)
  then show ?thesis using assms(2) by (simp add: Buckets_NewManager mget0_def mget_torn_disk)
qed

lemma open_bucket_bad:
  "open_bucket (file, BadFile) = \<lparr>BucketFile = file, Index = rebuild_from file 0 [], IndexFile = GobFile (rebuild_from file 0 [])\<rparr>"
  by (simp add: open_bucket_def loadIndex_def saveIndex_def rebuildIndex_def)

lemma torn_get:
  assumes z: "zstd_ok lib" and rep: "store_rep lib m A L" and acc: "append_accepts lib k p"
    and n: "n < length (rec_bytes lib (k, p))"
  shows "Mgr_Get lib k' i (NewManager (torn_disk lib k p n m)) =
    (if k' = k \<and> 8 + length k \<le> n \<and> i = int (length (case log_view L k of None \<Rightarrow> [] | Some ps \<Rightarrow> ps))
     then Inl UnexpectedEOF else contents_get (log_view L) k' i)"
proof (cases "getBucketID lib k' = getBucketID lib k")
  case False
  have ok: "list_all (record_ok lib) (shard_log lib (getBucketID lib k') L)"
    using rep shard_log_ok by (simp add: store_rep_def)
  from open_bucket_rebuilds [of "(log_bytes lib (shard_log lib (getBucketID lib k') L), BadFile)", OF _ _ ok]
  have "bucket_rep lib (open_bucket (log_bytes lib (shard_log lib (getBucketID lib k') L), BadFile)) (shard_view lib (getBucketID lib k') (log_view L))"
    by (simp add: shard_view_log_view)
  from bucket_rep_get [OF z this, of "NewManager (torn_disk lib k p n m)"] torn_bucket [OF rep getBucketID_less [of lib k'], where k = k and p = p and n = n] False show ?thesis
    by (auto simp: contents_get_shard)
next
  case True
  let ?i = "getBucketID lib k" and ?t = "take n (rec_bytes lib (k, p))"
  let ?log = "shard_log lib ?i L"
  have r: "record_ok lib (k, p)" using append_accepts_record_ok [OF acc] .
  have ok: "list_all (record_ok lib) ?log" using rep shard_log_ok by (simp add: store_rep_def)
  let ?off = "length (log_bytes lib ?log)"
  obtain idx where idx: "rebuild_from (log_bytes lib ?log @ ?t) 0 [] = torn_index k n ?off idx"
    and br: "bucket_rep lib \<lparr>BucketFile = log_bytes lib ?log @ ?t, Index = idx, IndexFile = NoFile\<rparr> (log_view ?log)"
    using torn_shard [OF ok r n] .
  let ?b = "\<lparr>BucketFile = log_bytes lib ?log @ ?t, Index = torn_index k n ?off idx, IndexFile = GobFile (torn_index k n ?off idx)\<rparr>"
  have b: "mget (Buckets (NewManager (torn_disk lib k p n m))) (getBucketID lib k') = Some ?b"
    using torn_bucket [OF rep getBucketID_less [of lib k], where k = k and p = p and n = n] True idx by (simp add: open_bucket_bad)
  have v: "log_view ?log k' = log_view L k'"
    using True shard_view_log_view [of lib ?i L] by (metis shard_view_def)
  have "rel_option (list_all2 (record_at lib (BucketFile ?b) k')) (mget idx k') (log_view L k')"
    using br unfolding v [symmetric] by (simp add: bucket_rep_def)
  with list_all2_read [OF z, of ?b k'] list_all2_lengthD
  have old: "case mget idx k' of None \<Rightarrow> log_view L k' = None | Some offs \<Rightarrow> \<exists>ps. log_view L k' = Some ps \<and> length offs = length ps \<and>
      (\<forall>j < length offs. readRecordAt lib ?b (offs ! j) = Inr (ps ! j))"
    by (cases "mget idx k'"; cases "log_view L k'") fastforce+
  have eof: "readRecordAt lib ?b ?off = Inl UnexpectedEOF" if "8 + length k \<le> n"
    using read_torn [OF r n that, of ?b "log_bytes lib ?log"] by simp
  show ?thesis
    using old eof unfolding Mgr_Get_bucket [OF b] contents_get_def
    by (cases "mget idx k'") (auto simp: torn_index_def mget0_def nth_append split: if_splits)
qed

subsection \<open>Appending behind a cut record\<close>

text \<open>
  The next append goes to the end of the file, into the bytes that the header of the cut record
  announces as its payload; the next rebuild skips it with them.
\<close>

definition bad_index_disk :: "Manager \<Rightarrow> (uint32, shard_disk) gomap" where
  "bad_index_disk m = map (\<lambda>(i, b). (i, (BucketFile b, BadFile))) (Buckets m)"

lemma rebuild_hidden:
  assumes "list_all (record_ok lib) log" and "record_ok lib (k, p)" and "8 + length k \<le> n"
    and "n < length (rec_bytes lib (k, p))" and "length post + n \<le> length (rec_bytes lib (k, p))"
  shows "rebuild_from (log_bytes lib log @ take n (rec_bytes lib (k, p)) @ post) 0 [] =
    rebuild_from (log_bytes lib log @ take n (rec_bytes lib (k, p))) 0 []"
proof -
  let ?e = "\<lparr>BucketFile = [], Index = [], IndexFile = NoFile\<rparr>" and ?t = "take n (rec_bytes lib (k, p))"
  have "rebuild_from (log_bytes lib log @ ?t @ q) 0 [] = rebuild_from (log_bytes lib log @ ?t @ q) (length (log_bytes lib log))
      (Index (fold (bucket_append lib) log ?e))" for q
    using rebuild_from_log_post [OF assms(1), of ?e "?t @ q"] by simp
  from this [of post] this [of "[]"] show ?thesis
    using rebuild_from_torn [OF assms(2,4,5), of "log_bytes lib log"] rebuild_from_torn [OF assms(2,4), of "[]" "log_bytes lib log"]
      assms(3,4) by simp
qed

lemma hidden_append:
  assumes z: "zstd_ok lib" and rep: "store_rep lib m A L" and acc: "append_accepts lib k p" "append_accepts lib k2 p2"
    and n: "8 + length k \<le> n" "n + length (rec_bytes lib (k2, p2)) \<le> length (rec_bytes lib (k, p))"
    and same: "getBucketID lib k2 = getBucketID lib k" and other: "k2 \<noteq> k"
  defines "m1 \<equiv> NewManager (torn_disk lib k p n m)" and "i \<equiv> int (length (case log_view L k2 of None \<Rightarrow> [] | Some ps \<Rightarrow> ps))"
  shows "\<exists>m2. Mgr_Append lib k2 p2 m1 = (m2, None) \<and> Mgr_Get lib k2 i m2 = Inr p2 \<and>
    Mgr_Get lib k2 i (NewManager (bad_index_disk m2)) = Inl IndexOutOfBounds"
proof -
  let ?i = "getBucketID lib k" and ?t = "take n (rec_bytes lib (k, p))" and ?r2 = "rec_bytes lib (k2, p2)"
  let ?log = "shard_log lib ?i L"
  have r: "record_ok lib (k, p)" "record_ok lib (k2, p2)" using append_accepts_record_ok acc by blast+
  have ok: "list_all (record_ok lib) ?log" using rep shard_log_ok by (simp add: store_rep_def)
  have n': "n < length (rec_bytes lib (k, p))" using n(2) rec_bytes_fields(5) [OF r(2)] by simp
  define idx where "idx = rebuild_from (log_bytes lib ?log @ ?t) 0 []"
  define b where "b = \<lparr>BucketFile = log_bytes lib ?log @ ?t, Index = idx, IndexFile = GobFile idx\<rparr>"
  have b: "mget (Buckets m1) ?i = Some b"
    using torn_bucket [OF rep getBucketID_less [of lib k], where k = k and p = p and n = n]
    by (simp add: open_bucket_bad b_def idx_def m1_def)
  define m2 where "m2 = set_bucket ?i (bucket_append lib (k2, p2) b) m1"
  have app: "Mgr_Append lib k2 p2 m1 = (m2, None)"
    using acc(2) b same by (simp add: Mgr_Append_def append_accepts_def bucket_of_def m2_def bucket_append_def rec_bytes_def Let_def)
  have b2: "mget (Buckets m2) ?i = Some (bucket_append lib (k2, p2) b)" by (simp add: m2_def set_bucket_def)
  obtain idx0 where idx0: "idx = torn_index k n (length (log_bytes lib ?log)) idx0"
    and br: "bucket_rep lib \<lparr>BucketFile = log_bytes lib ?log @ [], Index = idx0, IndexFile = NoFile\<rparr> (log_view ?log)"
    unfolding idx_def using torn_shard [OF ok r(1) n'] .
  have v: "log_view ?log k2 = log_view L k2"
    using same shard_view_log_view [of lib ?i L] by (metis shard_view_def)
  have "rel_option (list_all2 (record_at lib (log_bytes lib ?log) k2)) (mget idx k2) (log_view L k2)"
    using br other unfolding v [symmetric] by (simp add: bucket_rep_def idx0 torn_index_def)
  then have len: "i = int (length (mget0 [] idx k2))"
    by (cases "mget idx k2"; cases "log_view L k2") (auto simp: i_def mget0_def dest: list_all2_lengthD)
  have "readRecordAt lib (bucket_append lib (k2, p2) b) (length (BucketFile b)) = Inr p2"
    by (rule read_record_at [OF z, where k = k2]) (simp add: bucket_append_def record_at_end [OF r(2)])
  then have "Mgr_Get lib k2 i m2 = Inr p2"
    unfolding Mgr_Get_bucket [OF b2 [folded same]] by (simp add: bucket_append_def len b_def nth_append)
  moreover have b3: "mget (Buckets (NewManager (bad_index_disk m2))) ?i = Some (open_bucket (log_bytes lib ?log @ ?t @ ?r2, BadFile))"
    using b2 getBucketID_less [of lib k]
    by (simp add: Buckets_NewManager bad_index_disk_def mget0_def mget_map_key [of "\<lambda>i b. (BucketFile b, BadFile)"] bucket_append_def b_def)
  have "Mgr_Get lib k2 i (NewManager (bad_index_disk m2)) = Inl IndexOutOfBounds"
    unfolding Mgr_Get_bucket [OF b3 [folded same]] using rebuild_hidden [OF ok r(1) n(1) n', of ?r2] n(2) len
    by (simp add: open_bucket_bad idx_def [symmetric] same mget0_def split: option.split)
  ultimately show ?thesis using app by blast
qed

subsection \<open>Properties\<close>

text \<open>
  C30. A start after an append that was cut off after \<open>n\<close> bytes, with index files that do not decode:
  every record appended before is read back, in order, whatever the length of the cut. When the cut
  lies within the lengths or the key, nothing of the cut record is left; when it lies within the
  payload, the key has one more position, and reading it reports the unexpected end of the file.
\<close>

theorem restart_after_torn_append:
  assumes "zstd_ok lib" and "store_rep lib m A L" and "append_accepts lib k p"
    and "n < length (record_bytes k (CompressBytes lib p))"
  shows "Mgr_Get lib k' i (NewManager (torn_disk lib k p n m)) =
    (if k' = k \<and> 8 + length k \<le> n \<and> i = int (length (case log_view L k of None \<Rightarrow> [] | Some ps \<Rightarrow> ps))
     then Inl UnexpectedEOF else contents_get (log_view L) k' i)"
  using torn_get [OF assms(1-3)] assms(4) by (simp add: rec_bytes_def)

theorem restart_after_torn_append_witness:
  "Mgr_Get sample_lib ''k'' 0 (NewManager (torn_disk sample_lib ''k'' [1, 2] 10 sample_store)) = Inr [1, 2] \<and>
   Mgr_Get sample_lib ''k'' 1 (NewManager (torn_disk sample_lib ''k'' [1, 2] 10 sample_store)) = Inl UnexpectedEOF"
proof -
  have "10 < length (record_bytes ''k'' (CompressBytes sample_lib [1, 2]))" by (simp add: CompressBytes_def sample_lib_def)
  from restart_after_torn_append [OF sample_lib_ok sample_store_rep sample_accepts this, of "''k''" 0]
    restart_after_torn_append [OF sample_lib_ok sample_store_rep sample_accepts this, of "''k''" 1]
  show ?thesis by (simp add: contents_get_def log_view_def spec_append_def)
qed

text \<open>
  C37. A record that is appended behind a cut record is lost at the next rebuild: the append succeeds
  and the record is read back, but when the indexes are rebuilt once more, the record lies inside the
  payload that the header of the cut record announces, and its position is out of bounds.
\<close>

theorem append_after_torn_record_lost:
  assumes "zstd_ok lib" and "store_rep lib m A L" and "append_accepts lib k p" and "append_accepts lib k2 p2"
    and "8 + length k \<le> n"
    and "n + length (record_bytes k2 (CompressBytes lib p2)) \<le> length (record_bytes k (CompressBytes lib p))"
    and "getBucketID lib k2 = getBucketID lib k" and "k2 \<noteq> k"
  shows "\<exists>m2. let i = int (length (case log_view L k2 of None \<Rightarrow> [] | Some ps \<Rightarrow> ps)) in
    Mgr_Append lib k2 p2 (NewManager (torn_disk lib k p n m)) = (m2, None) \<and> Mgr_Get lib k2 i m2 = Inr p2 \<and>
    Mgr_Get lib k2 i (NewManager (bad_index_disk m2)) = Inl IndexOutOfBounds"
  using hidden_append [OF assms(1-5) _ assms(7,8)] assms(6) by (simp add: rec_bytes_def Let_def)

theorem append_after_torn_record_lost_witness:
  "\<exists>m2. Mgr_Append sample_lib ''abcde'' [7] (NewManager (torn_disk sample_lib ''abcd'' (replicate 40 1) 12 (NewManager []))) = (m2, None) \<and>
     Mgr_Get sample_lib ''abcde'' 0 m2 = Inr [7] \<and> Mgr_Get sample_lib ''abcde'' 0 (NewManager (bad_index_disk m2)) = Inl IndexOutOfBounds"
proof -
  have acc: "append_accepts sample_lib k p" if "k \<noteq> []" "length k \<le> 10" "length p \<le> 100" for k p
    using that by (simp add: append_accepts_def sample_lib_def CompressBytes_def maxKeyLen_def MaxInt32_def)
  have same: "getBucketID sample_lib ''abcde'' = getBucketID sample_lib ''abcd''"
    by (simp add: getBucketID_def sample_lib_def bytes_of_string_def)
  from append_after_torn_record_lost [OF sample_lib_ok NewManager_empty acc acc _ _ same, of "replicate 40 1" "[7]" 12] show ?thesis
    by (simp add: sample_lib_def CompressBytes_def log_view_def Let_def)
qed

end
