(* ===== verification/HNSW_Hidden.thy ===== *)
theory HNSW_Hidden
  imports HNSW_Index
begin

section \<open>Vectors that no search finds\<close>

text \<open>
  Searches follow neighbour lists from the entry point. Here: a search returns only what it can reach,
  and an insertion next to nodes whose lists are full leaves the new vector out of every list:
  \<^verbatim>\<open>pruneConnections\<close> looks up the neighbours in the index before the new node is stored there, so
  that it drops the new neighbour first, and it keeps the oldest neighbours, not the nearest.
\<close>

subsection \<open>Searches stay within what is linked\<close>

definition edge_closed :: "HNSWWrapper \<Rightarrow> nat \<Rightarrow> uint64 set \<Rightarrow> bool" where
  "edge_closed hw l R \<longleftrightarrow> (\<forall>u w. u \<in> R \<and> layer_edge hw l u w \<longrightarrow> w \<in> R)"

fun within :: "uint64 set \<Rightarrow> search_state \<Rightarrow> bool" where
  "within R (visited, cands, results) \<longleftrightarrow> cand_ID ` set cands \<subseteq> R \<and> cand_ID ` set results \<subseteq> R"

lemma set_push_result: "set (push_result ef c results) \<subseteq> insert c (set results)"
proof -
  have "set (heap_Push maxCandidateHeap_Less c results) = insert c (set results)" by simp
  with set_Pop [of maxCandidateHeap_Less "heap_Push maxCandidateHeap_Less c results"] show ?thesis
    by (auto simp: push_result_def Let_def split: option.split)
qed

lemma within_visit:
  assumes "within R st" and "mget (hw_nodes hw) n \<noteq> None \<longrightarrow> n \<in> R"
  shows "within R (visit_neighbor hw q ef n st)"
proof -
  obtain visited cands results where st: "st = (visited, cands, results)" by (cases st)
  show ?thesis
  proof (cases rule: visit_neighbor_cases [of n visited hw q ef cands results])
    case (near node c)
    then have "cand_ID ` insert c (set results) \<subseteq> R" using assms by (simp add: st)
    then have "cand_ID ` set (push_result ef c results) \<subseteq> R" using set_push_result [of ef c results] by blast
    with near assms show ?thesis by (simp add: st)
  qed (use assms in \<open>auto simp: st\<close>)
qed

lemma within_fold:
  "within R st \<Longrightarrow> \<forall>n \<in> set ns. mget (hw_nodes hw) n \<noteq> None \<longrightarrow> n \<in> R \<Longrightarrow> within R (fold (visit_neighbor hw q ef) ns st)"
  by (induction ns arbitrary: st) (simp_all add: within_visit del: within.simps)

lemma search_loop_within:
  assumes "edge_closed hw level R" and "within R (visited, cands, results)"
  shows "cand_ID ` set (search_loop hw q ef level (visited, cands, results)) \<subseteq> R"
proof (rule search_loop_rule [where Inv = "within R" and Q = "\<lambda>r. cand_ID ` set r \<subseteq> R"])
  fix visited cands results c cands'
  assume "within R (visited, cands, results)" and pop: "heap_Pop candidateHeap_Less cands = Some (c, cands')"
  then have w: "within R (visited, cands', results)" and c: "cand_ID c \<in> R" by (auto simp: set_Pop)
  have "within R (fold (visit_neighbor hw q ef) (node_Neighbors node ! level) (visited, cands', results))"
    if "mget (hw_nodes hw) (cand_ID c) = Some node" "level < length (node_Neighbors node)" for node
    using that c assms(1) by (intro within_fold [OF w]) (auto simp: edge_closed_def layer_edge_def)
  with w show "case mget (hw_nodes hw) (cand_ID c) of None \<Rightarrow> within R (visited, cands', results)
     | Some node \<Rightarrow> if level \<ge> length (node_Neighbors node) then within R (visited, cands', results)
       else within R (fold (visit_neighbor hw q ef) (node_Neighbors node ! level) (visited, cands', results))"
    by (simp split: option.split del: within.simps)
qed (use assms(2) in auto)

lemma searchLayer_within:
  assumes "edge_closed hw level R" and "e \<in> R"
  shows "cand_ID ` set (searchLayer hw q e ef level) \<subseteq> R"
proof (cases "mget (hw_nodes hw) e")
  case None
  then show ?thesis by (simp add: searchLayer_def)
next
  case (Some node)
  show ?thesis
    unfolding searchLayer_start [OF Some] set_heap_drain
    by (rule search_loop_within [OF assms(1)]) (use assms(2) in simp)
qed

lemma base_entry_within:
  assumes "\<And>l. edge_closed hw l R" and "hw_entryPoint hw \<in> R"
  shows "base_entry hw q \<in> R"
proof -
  have "fold (\<lambda>l ep. case searchLayer hw q ep 1 (nat l) of [] \<Rightarrow> ep | c # _ \<Rightarrow> cand_ID c) ls ep \<in> R" if "ep \<in> R" for ls ep
    using that
  proof (induction ls arbitrary: ep)
    case (Cons l ls)
    have "(case searchLayer hw q ep 1 (nat l) of [] \<Rightarrow> ep | c # _ \<Rightarrow> cand_ID c) \<in> R"
      using searchLayer_within [OF assms(1) Cons.prems, of q 1 "nat l"] Cons.prems by (auto split: list.split)
    then show ?case using Cons.IH by simp
  qed simp
  with assms(2) show ?thesis by (simp add: base_entry_def)
qed

lemma hw_Search_within:
  assumes ok: "hnsw_ok hw" and closed: "edge_closed hw 0 R" and e: "base_entry hw q \<in> R"
    and r: "hw_Search hw q k flt = Inr rs"
  shows "VectorID ` set rs \<subseteq> R"
proof (cases "hw_hasEntry hw")
  case False
  with r show ?thesis by (auto simp: hw_Search_def split: if_splits)
next
  case True
  have dim: "of_nat (length q) = hw_dimensions hw" using r by (auto simp: hw_Search_def split: if_splits)
  obtain ef where "hw_Search hw q k flt = Inr (map as_result (take (max k 1)
       (filter (\<lambda>c. passes flt (cand_ID c)) (searchLayer hw q (base_entry hw q) ef 0))))"
    by (rule hw_Search_result [OF ok dim True, of flt k])
  with r searchLayer_within [OF closed e, where q = q and ef = ef] show ?thesis
    by (fastforce simp: as_result_def dest!: in_set_takeD)
qed

text \<open>A search returns only what its starting point in the bottom layer reaches by neighbour lists.\<close>

lemma hw_Search_reachable:
  assumes "hnsw_ok hw" and "hw_Search hw q k flt = Inr rs" and "r \<in> set rs"
  shows "reachable hw 0 (base_entry hw q) (VectorID r)"
proof -
  have "edge_closed hw 0 {w. reachable hw 0 (base_entry hw q) w}"
    by (auto simp: edge_closed_def intro: rtranclp.rtrancl_into_rtrancl)
  from hw_Search_within [OF assms(1) this _ assms(2)] assms(3) show ?thesis by auto
qed

subsection \<open>Insertion next to full lists\<close>

text \<open>
  No list mentions \<open>v\<close>, and the lists of the given nodes and levels have twice \<^verbatim>\<open>M\<close> neighbours.
\<close>

definition crowded_on :: "(uint64 \<times> nat) set \<Rightarrow> uint64 \<Rightarrow> HNSWWrapper \<Rightarrow> bool" where
  "crowded_on Q v hw \<longleftrightarrow> (\<forall>u node l. mget (hw_nodes hw) u = Some node \<and> l < length (node_Neighbors node) \<longrightarrow>
     v \<notin> set (node_Neighbors node ! l) \<and> ((u, l) \<in> Q \<longrightarrow> hw_M hw * 2 \<le> length (node_Neighbors node ! l)))"

lemma crowded_subset: "crowded_on Q v hw \<Longrightarrow> Q' \<subseteq> Q \<Longrightarrow> crowded_on Q' v hw"
  by (auto simp: crowded_on_def)

lemma pruned_neighbors:
  "map cand_ID (concat (map (\<lambda>n. case mget m n of None \<Rightarrow> [] | Some x \<Rightarrow> [\<lparr>cand_ID = n, cand_Distance = d x\<rparr>]) ns)) =
   filter (\<lambda>n. mget m n \<noteq> None) ns"
  by (induction ns) (auto split: option.split)

text \<open>What a full list becomes: the first \<^verbatim>\<open>M\<close> of the old neighbours that exist.\<close>

lemma addConnection_full:
  assumes s: "mget (hw_nodes hw) s = Some source" and l: "l < length (node_Neighbors source)"
    and new: "v \<notin> set (node_Neighbors source ! l)" "mget (hw_nodes hw) v = None"
    and full: "hw_M hw * 2 \<le> length (node_Neighbors source ! l)"
  shows "addConnection s v l hw = set_neighbors s l
     (take (hw_M hw) (filter (\<lambda>n. mget (hw_nodes hw) n \<noteq> None) (node_Neighbors source ! l))) source hw"
proof -
  let ?hw = "set_neighbors s l (node_Neighbors source ! l @ [v]) source hw"
  have m: "mget (hw_nodes ?hw) n = None \<longleftrightarrow> mget (hw_nodes hw) n = None" for n
    using s by (simp add: set_neighbors_def)
  have f: "filter (\<lambda>n. mget (hw_nodes ?hw) n \<noteq> None) (node_Neighbors source ! l @ [v]) =
      filter (\<lambda>n. mget (hw_nodes hw) n \<noteq> None) (node_Neighbors source ! l)"
    using new(2) unfolding m by simp
  have sel: "map cand_ID (selectNeighbors cs k) = take k (map cand_ID cs)" for cs k
    by (simp add: selectNeighbors_def take_map)
  have "pruneConnections s l ?hw = set_neighbors s l
     (take (hw_M hw) (filter (\<lambda>n. mget (hw_nodes hw) n \<noteq> None) (node_Neighbors source ! l))) source hw"
    using s l f unfolding pruneConnections_def Let_def sel pruned_neighbors by (simp add: set_neighbors_def mput_twice)
  with s l new full show ?thesis by (simp add: addConnection_def Let_def set_neighbors_def)
qed

lemma crowded_set_neighbors:
  assumes "crowded_on Q v hw" and "mget (hw_nodes hw) s = Some source" and "v \<notin> set ns"
  shows "crowded_on (Q - {(s, l)}) v (set_neighbors s l ns source hw)"
  unfolding crowded_on_def
proof (intro allI impI, elim conjE)
  fix u node l'
  assume u: "mget (hw_nodes (set_neighbors s l ns source hw)) u = Some node" and l': "l' < length (node_Neighbors node)"
  show "v \<notin> set (node_Neighbors node ! l') \<and> ((u, l') \<in> Q - {(s, l)} \<longrightarrow>
      hw_M (set_neighbors s l ns source hw) * 2 \<le> length (node_Neighbors node ! l'))"
    using assms u l' by (cases "u = s"; cases "l' = l") (auto simp: crowded_on_def set_neighbors_def)
qed

lemma addConnection_crowded:
  assumes c: "crowded_on Q v hw" and v: "mget (hw_nodes hw) v = None" and q: "(s, l) \<in> Q"
  shows "crowded_on (Q - {(s, l)}) v (addConnection s v l hw)"
proof (cases "mget (hw_nodes hw) s")
  case None
  with c show ?thesis by (simp add: addConnection_def crowded_subset)
next
  case (Some source)
  show ?thesis
  proof (cases "l < length (node_Neighbors source)")
    case False
    with Some c show ?thesis by (simp add: addConnection_def crowded_subset)
  next
    case True
    have "v \<notin> set (node_Neighbors source ! l)" "hw_M hw * 2 \<le> length (node_Neighbors source ! l)"
      using c Some True q by (auto simp: crowded_on_def)
    with crowded_set_neighbors [OF c Some] addConnection_full [OF Some True this(1) v this(2)] show ?thesis
      by (metis (no_types, lifting) filter_is_subset in_set_takeD subsetD)
  qed
qed

lemma fold_crowded:
  assumes "crowded_on Q v hw" and "mget (hw_nodes hw) v = None" and "distinct (map cand_ID cs)"
    and "(\<lambda>c. (cand_ID c, l)) ` set cs \<subseteq> Q"
  shows "crowded_on (Q - (\<lambda>c. (cand_ID c, l)) ` set cs) v (fold (\<lambda>n hw. addConnection (cand_ID n) v l hw) cs hw)"
  using assms
proof (induction cs arbitrary: hw Q)
  case (Cons c cs)
  let ?hw = "addConnection (cand_ID c) v l hw"
  have "v \<notin> node_ids ?hw" using Cons.prems(2) same_frame_ids [OF addConnection_frame [of hw "cand_ID c" v l]] by (simp add: node_ids_def)
  then have "mget (hw_nodes ?hw) v = None" by (simp add: node_ids_def)
  with Cons.IH [of "Q - {(cand_ID c, l)}" ?hw] addConnection_crowded [OF Cons.prems(1,2), of "cand_ID c" l] Cons.prems(3,4)
  show ?case by (auto simp: image_iff Diff_insert2 [symmetric] insert_Diff_if)
qed simp

fun crowded_insert :: "HNSWWrapper \<Rightarrow> uint64 \<Rightarrow> nat set \<Rightarrow> HNSWWrapper \<times> uint64 \<times> uint64 list list \<Rightarrow> bool" where
  "crowded_insert hw0 v L (hw, ep, ns) \<longleftrightarrow> same_frame hw0 hw \<and> ep \<in> node_ids hw0 \<and> crowded_on (UNIV \<times> L) v hw \<and>
     list_all (\<lambda>xs. v \<notin> set xs) ns"

lemma insert_level_crowded:
  assumes ef: "1 \<le> hw_EfConstruction hw0" and v: "v \<notin> node_ids hw0" and inv: "crowded_insert hw0 v L st" and l: "nat l \<in> L"
  shows "crowded_insert hw0 v (L - {nat l}) (insert_level v q l st)"
proof -
  obtain hw ep ns where st: "st = (hw, ep, ns)" by (cases st)
  have fr: "same_frame hw0 hw" and ep: "ep \<in> node_ids hw" and c: "crowded_on (UNIV \<times> L) v hw" and ns: "list_all (\<lambda>xs. v \<notin> set xs) ns"
    using inv same_frame_ids by (auto simp: st)
  have v': "v \<notin> node_ids hw" using v same_frame_ids [OF fr] by simp
  have ef': "1 \<le> hw_EfConstruction hw" using ef same_frame_fields(7) [OF fr] by simp
  obtain enode where e: "mget (hw_nodes hw) ep = Some enode" using ep by (auto simp: node_ids_def)
  define nb where "nb = searchLayer hw q ep (hw_EfConstruction hw) (nat l)"
  define sel where "sel = selectNeighbors nb (hw_M hw)"
  define hw' where "hw' = fold (\<lambda>n hw. addConnection (cand_ID n) v (nat l) hw) sel hw"
  have ids: "cand_ID c \<in> node_ids hw" if "c \<in> set nb" for c
    using searchLayer_ids [OF ep ef', of c q "nat l"] that by (simp add: nb_def)
  have sel: "distinct (map cand_ID sel)" "set sel \<subseteq> set nb"
    using searchLayer_facts(1) [OF e ef', of q "nat l"] set_selectNeighbors [of nb "hw_M hw"]
    by (auto simp: sel_def nb_def selectNeighbors_def take_map [symmetric] distinct_take)
  have "crowded_on (UNIV \<times> L - (\<lambda>c. (cand_ID c, nat l)) ` set sel) v hw'"
    unfolding hw'_def using v' l sel(1) by (intro fold_crowded [OF c]) (auto simp: node_ids_def)
  then have "crowded_on (UNIV \<times> (L - {nat l})) v hw'" by (rule crowded_subset) auto
  moreover have "same_frame hw hw'"
    using fold_frame [of "\<lambda>n hw. addConnection (cand_ID n) v (nat l) hw" hw sel] connection_frames by (auto simp: hw'_def)
  moreover have "list_all (\<lambda>xs. v \<notin> set xs) (ns[nat l := map cand_ID sel])"
    using ns ids sel(2) v' by (fastforce simp: list_all_iff dest!: subsetD [OF set_update_subset_insert])
  moreover have "cand_ID (nb ! 0) \<in> node_ids hw" if "nb \<noteq> []" using ids [of "nb ! 0"] that by simp
  moreover have "insert_level v q l st =
      (hw', if length nb > 0 then cand_ID (nb ! 0) else ep, ns[nat l := map cand_ID sel])"
    by (simp add: st insert_level_def nb_def sel_def hw'_def Let_def)
  ultimately show ?thesis using fr ep same_frame_ids [OF fr] same_frame_trans by auto
qed

lemma insert_levels_crowded:
  assumes "1 \<le> hw_EfConstruction hw0" and "v \<notin> node_ids hw0"
  shows "crowded_insert hw0 v L st \<Longrightarrow> distinct (map nat ls) \<Longrightarrow> nat ` set ls \<subseteq> L \<Longrightarrow>
    crowded_insert hw0 v (L - nat ` set ls) (fold (insert_level v q) ls st)"
proof (induction ls arbitrary: st L)
  case (Cons l ls)
  have "crowded_insert hw0 v (L - {nat l}) (insert_level v q l st)"
    using insert_level_crowded [OF assms Cons.prems(1)] Cons.prems(3) by simp
  from Cons.IH [OF this] Cons.prems(2,3) show ?case by (auto simp: Diff_insert2 [symmetric] insert_Diff_if)
qed simp

definition crowded :: "HNSWWrapper \<Rightarrow> uint64 \<Rightarrow> bool" where
  "crowded hw v \<longleftrightarrow> list_all (\<lambda>(u, node). list_all (\<lambda>ns. v \<notin> set ns \<and> hw_M hw * 2 \<le> length ns) (node_Neighbors node)) (hw_nodes hw)"

lemma crowded_all: "crowded hw v \<Longrightarrow> crowded_on UNIV v hw"
  by (fastforce simp: crowded_def crowded_on_def list_all_iff dest!: map_of_SomeD)

lemma distinct_levels: "distinct (map nat (rev [0..i]))"
  by (auto simp: rev_map [symmetric] distinct_map inj_on_def)

lemma add_crowded:
  assumes ok: "hnsw_ok hw" and dim: "of_nat (length vec) = hw_dimensions hw" and v: "v \<notin> node_ids hw" and has: "hw_hasEntry hw"
    and c: "crowded hw v" and low: "int (randomLevel rnd) \<le> hw_MaxLevel hw"
  shows "\<not> layer_edge (fst (hw_Add rnd v vec hw)) l u v \<and> hw_entryPoint (fst (hw_Add rnd v vec hw)) = hw_entryPoint hw"
proof -
  let ?level = "int (randomLevel rnd)" and ?ns = "replicate (randomLevel rnd + 1) [] :: uint64 list list"
  have ep: "hw_entryPoint hw \<in> node_ids hw" using ok has by (auto simp: hnsw_ok_def entry_ok_def node_ids_def)
  obtain ep where d: "descend hw vec (rev [?level + 1..hw_MaxLevel hw]) (hw_entryPoint hw) = Inr ep" and e: "ep \<in> node_ids hw"
    using descend_ok [OF ep] by metis
  obtain hw' ep' ns where f: "fold (insert_level v vec) (rev [0..min ?level (hw_MaxLevel hw)]) (hw, ep, ?ns) = (hw', ep', ns)"
    by (metis prod_cases3)
  have "crowded_insert hw v UNIV (hw, ep, ?ns)" using crowded_all [OF c] e by (simp add: list_all_iff crowded_subset)
  from insert_levels_crowded [OF _ v this distinct_levels, of "min ?level (hw_MaxLevel hw)" vec] ok
  have inv: "same_frame hw hw'" "crowded_on {} v hw'" "list_all (\<lambda>xs. v \<notin> set xs) ns"
    unfolding f hnsw_ok_def by (auto intro: crowded_subset)
  have "fst (hw_Add rnd v vec hw) = hw'\<lparr>hw_nodes := mput v \<lparr>node_ID = v, node_Vector = vec, node_Level = ?level, node_Neighbors = ns\<rparr> (hw_nodes hw'),
      hw_dirty := True\<rparr>"
    using dim v has d f low same_frame_fields [OF inv(1)]
    by (auto simp: hw_Add_def addUnlocked_def node_ids_def Let_def simp del: replicate_Suc)
  moreover have "v \<notin> set (ns ! l)" if "l < length ns" for l using inv(3) that by (simp add: list_all_length)
  ultimately show ?thesis using inv(2) same_frame_fields(4) [OF inv(1)]
    by (auto simp: layer_edge_def crowded_on_def split: if_splits)
qed

subsection \<open>Properties\<close>


text \<open>Three nodes that are neighbours of each other, with room for two neighbours.\<close>

definition triangle :: HNSWWrapper where
  "triangle = (NewHNSWWrapper 1 MetricL2)\<lparr>hw_M := 1, hw_hasEntry := True, hw_entryPoint := 1,
     hw_nodes := map (\<lambda>(i, ns). (i, \<lparr>node_ID = i, node_Vector = [f_zero], node_Level = 0, node_Neighbors = [ns]\<rparr>))
       [(1, [2, 3]), (2, [1, 3]), (3, [1, 2])]\<rparr>"


end
