(* ===== verification/Repair.thy ===== *)
theory Repair
  imports Vector_Manager_Rep
begin

section \<open>Consistency checks and repair\<close>

text \<open>
  \<^verbatim>\<open>internal/storage/repair.go\<close>: the comparison of the vector index of a collection with its forward
  index, and the removal of vectors the forward index does not know. The repair manager holds the
  collection manager; \<open>ordN\<close> and \<open>ordD\<close> are the orders in which the nodes of the vector index and
  the map of document ids are visited.
\<close>

record RepairReport =
  rr_Collection :: string
  TotalVectors :: int
  OrphanVectors :: int
  MissingVectors :: int
  OrphanIDs :: "uint64 list"
  MissingIDs :: "uint64 list"
  Repaired :: bool

text \<open>One node of the vector index: an orphan is reported, and the id is marked as found.\<close>

definition check_node :: "uint64 \<Rightarrow> RepairReport \<times> (uint64, bool) gomap \<Rightarrow> RepairReport \<times> (uint64, bool) gomap" where
  "check_node nid st =
     (case st of (report, docMapIDs) \<Rightarrow>
        let report = (if \<not> mget0 False docMapIDs nid
              then report\<lparr>OrphanIDs := OrphanIDs report @ [nid], OrphanVectors := OrphanVectors report + 1\<rparr>
              else report)
        in (report, mdel nid docMapIDs))"

definition CheckConsistency ::
  "((uint64, hnswNode) gomap \<Rightarrow> (uint64, hnswNode) gomap) \<Rightarrow> ((uint64, bool) gomap \<Rightarrow> (uint64, bool) gomap) \<Rightarrow>
   string \<Rightarrow> CollectionManager \<Rightarrow> go_error + RepairReport" where
  "CheckConsistency ordN ordD collectionName cm =
     (case GetCollection cm collectionName of
        Inl err \<Rightarrow> Inl err
      | Inr coll \<Rightarrow>
          let report = \<lparr>rr_Collection = collectionName, TotalVectors = 0, OrphanVectors = 0, MissingVectors = 0,
                        OrphanIDs = [], MissingIDs = [], Repaired = False\<rparr>;
              (docMapIDs, report) = fold (\<lambda>vectorID (ids, report). (mput vectorID True ids,
                  report\<lparr>TotalVectors := TotalVectors report + 1\<rparr>)) (mkeys (mapping (DocMap coll))) ([], report);
              (report, docMapIDs) = fold check_node (mkeys (ordN (hw_nodes (HNSWIndex coll)))) (report, docMapIDs);
              report = fold (\<lambda>nid report. report\<lparr>MissingIDs := MissingIDs report @ [nid],
                  MissingVectors := MissingVectors report + 1\<rparr>) (mkeys (ordD docMapIDs)) report
          in Inr report)"

text \<open>A failed deletion of one vector is printed; \<^verbatim>\<open>Save\<close> is the file of the collection's directory.\<close>

definition RepairOrphans ::
  "((uint64, hnswNode) gomap \<Rightarrow> (uint64, hnswNode) gomap) \<Rightarrow> ((uint64, bool) gomap \<Rightarrow> (uint64, bool) gomap) \<Rightarrow>
   string \<Rightarrow> CollectionManager \<Rightarrow> CollectionManager \<times> go_error option" where
  "RepairOrphans ordN ordD collectionName cm =
     (case CheckConsistency ordN ordD collectionName cm of
        Inl err \<Rightarrow> (cm, Some err)
      | Inr report \<Rightarrow>
          if length (OrphanIDs report) = 0 then (cm, None)
          else
            case GetCollection cm collectionName of
              Inl err \<Rightarrow> (cm, Some err)
            | Inr coll \<Rightarrow>
                let coll = fold (\<lambda>orphanID coll. coll\<lparr>HNSWIndex := fst (hw_Delete ordN orphanID (HNSWIndex coll))\<rparr>)
                             (OrphanIDs report) coll;
                    (coll, d, err) = Coll_FlushHNSW coll (cm_disk cm)
                in (set_collection collectionName coll d cm, err))"

definition VerifyIntegrity ::
  "((uint64, hnswNode) gomap \<Rightarrow> (uint64, hnswNode) gomap) \<Rightarrow> ((uint64, bool) gomap \<Rightarrow> (uint64, bool) gomap) \<Rightarrow>
   string \<Rightarrow> CollectionManager \<Rightarrow> go_error option" where
  "VerifyIntegrity ordN ordD collectionName cm =
     (case CheckConsistency ordN ordD collectionName cm of
        Inl err \<Rightarrow> Some err
      | Inr report \<Rightarrow>
          if OrphanVectors report > 0 \<or> MissingVectors report > 0 then Some IntegrityFailed else None)"

subsection \<open>What a check finds\<close>

definition doc_ids :: "Collection \<Rightarrow> uint64 set" where
  "doc_ids c = fst ` set (mapping (DocMap c))"

definition vec_ids :: "Collection \<Rightarrow> uint64 set" where
  "vec_ids c = fst ` set (hw_nodes (HNSWIndex c))"

lemma count_docs:
  "fold (\<lambda>v (ids, r). (mput v True ids, r\<lparr>TotalVectors := TotalVectors r + 1\<rparr>)) vs (ids, r) =
   (fold (\<lambda>v. mput v True) vs ids, r\<lparr>TotalVectors := TotalVectors r + int (length vs)\<rparr>)"
  by (induction vs arbitrary: ids r) (simp_all add: add.assoc)

lemma marked_docs: "mget (fold (\<lambda>v. mput v True) vs ids) v = (if v \<in> set vs then Some True else mget ids v)"
  by (induction vs arbitrary: ids) auto

lemma wf_marked_docs: "wf_map ids \<Longrightarrow> wf_map (fold (\<lambda>v. mput v True) vs ids)"
  by (induction vs arbitrary: ids) auto

lemma check_nodes:
  assumes "distinct vs" and "wf_map ids" and "\<And>v. mget ids v \<in> {None, Some True}"
  shows "\<exists>ids'. fold check_node vs (r, ids) =
      (r\<lparr>OrphanIDs := OrphanIDs r @ filter (\<lambda>v. mget ids v = None) vs,
         OrphanVectors := OrphanVectors r + int (length (filter (\<lambda>v. mget ids v = None) vs))\<rparr>, ids') \<and>
    wf_map ids' \<and> (\<forall>v. mget ids' v = (if v \<in> set vs then None else mget ids v))"
  using assms
proof (induction vs arbitrary: r ids)
  case (Cons v vs)
  let ?r = "if mget ids v = None then r\<lparr>OrphanIDs := OrphanIDs r @ [v], OrphanVectors := OrphanVectors r + 1\<rparr> else r"
  have step: "check_node v (r, ids) = (?r, mdel v ids)"
    using Cons.prems(3) [of v] by (auto simp: check_node_def mget0_def)
  have f: "filter (\<lambda>w. mget (mdel v ids) w = None) vs = filter (\<lambda>w. mget ids w = None) vs"
    using Cons.prems(1) by (intro filter_cong) auto
  have "mget (mdel v ids) w \<in> {None, Some True}" for w using Cons.prems(3) [of w] by auto
  then obtain ids' where "fold check_node vs (?r, mdel v ids) =
      (?r\<lparr>OrphanIDs := OrphanIDs ?r @ filter (\<lambda>w. mget ids w = None) vs,
          OrphanVectors := OrphanVectors ?r + int (length (filter (\<lambda>w. mget ids w = None) vs))\<rparr>, ids')"
    "wf_map ids'" "\<forall>w. mget ids' w = (if w \<in> set vs then None else mget (mdel v ids) w)"
    using Cons.IH [of "mdel v ids" ?r] Cons.prems(1,2) unfolding f by auto
  then show ?case by (auto simp: step add.assoc)
qed simp

lemma missing_docs:
  "fold (\<lambda>v r. r\<lparr>MissingIDs := MissingIDs r @ [v], MissingVectors := MissingVectors r + 1\<rparr>) vs r =
   r\<lparr>MissingIDs := MissingIDs r @ vs, MissingVectors := MissingVectors r + int (length vs)\<rparr>"
  by (induction vs arbitrary: r) (simp_all add: add.assoc)

lemma CheckConsistency_report:
  assumes c: "GetCollection cm n = Inr c" and wf: "wf_map (mapping (DocMap c))" "wf_map (hw_nodes (HNSWIndex c))"
    and ord: "is_order ordN" "is_order ordD"
  shows "\<exists>r. CheckConsistency ordN ordD n cm = Inr r \<and> rr_Collection r = n \<and> TotalVectors r = int (card (doc_ids c)) \<and>
    distinct (OrphanIDs r) \<and> set (OrphanIDs r) = vec_ids c - doc_ids c \<and> OrphanVectors r = int (length (OrphanIDs r)) \<and>
    distinct (MissingIDs r) \<and> set (MissingIDs r) = doc_ids c - vec_ids c \<and> MissingVectors r = int (length (MissingIDs r))"
proof -
  let ?ds = "mkeys (mapping (DocMap c))" and ?vs = "mkeys (ordN (hw_nodes (HNSWIndex c)))"
  let ?r = "\<lparr>rr_Collection = n, TotalVectors = 0, OrphanVectors = 0, MissingVectors = 0, OrphanIDs = [], MissingIDs = [], Repaired = False\<rparr>"
  let ?ids = "fold (\<lambda>v. mput v True) ?ds []" and ?r1 = "?r\<lparr>TotalVectors := int (length ?ds)\<rparr>"
  have perm: "mset (ordN (hw_nodes (HNSWIndex c))) = mset (hw_nodes (HNSWIndex c))" using ord(1) by (simp add: is_order_def)
  then have vs: "distinct ?vs" "set ?vs = vec_ids c"
    using wf(2) unfolding wf_map_def vec_ids_def
    by (metis mset_eq_imp_distinct_iff mset_map, metis image_set set_mset_mset)
  have ds: "distinct ?ds" "set ?ds = doc_ids c" using wf(1) by (simp_all add: wf_map_def doc_ids_def)
  have ids: "mget ?ids v = (if v \<in> doc_ids c then Some True else None)" for v using marked_docs [of ?ds "[]" v] ds(2) by simp
  then have ok: "mget ?ids v \<in> {None, Some True}" for v by (metis insertCI)
  let ?os = "filter (\<lambda>v. mget ?ids v = None) ?vs"
  obtain ids' where 1: "fold check_node ?vs (?r1, ?ids) = (?r1\<lparr>OrphanIDs := ?os, OrphanVectors := int (length ?os)\<rparr>, ids')"
    "wf_map ids'" "\<forall>v. mget ids' v = (if v \<in> set ?vs then None else mget ?ids v)"
    using check_nodes [OF vs(1) wf_marked_docs [OF wf_map_Nil] ok, of ?r1] by auto
  let ?ms = "mkeys (ordD ids')"
  have "mset (ordD ids') = mset ids'" using ord(2) by (simp add: is_order_def)
  then have ms: "distinct ?ms" "set ?ms = set (mkeys ids')"
    using 1(2) unfolding wf_map_def by (metis mset_eq_imp_distinct_iff mset_map, metis image_set set_mset_mset)
  have "mget ids' v = (if v \<in> vec_ids c then None else if v \<in> doc_ids c then Some True else None)" for v
    using 1(3) ids [of v] unfolding vs(2) by simp
  then have "set (mkeys ids') = doc_ids c - vec_ids c" unfolding set_mkeys dom_def by (auto split: if_splits)
  moreover have "set ?os = vec_ids c - doc_ids c" using ids vs(2) by auto
  moreover have "card (doc_ids c) = length ?ds" using ds by (metis distinct_card)
  moreover have "CheckConsistency ordN ordD n cm = Inr (?r1\<lparr>OrphanIDs := ?os, OrphanVectors := int (length ?os),
      MissingIDs := ?ms, MissingVectors := int (length ?ms)\<rparr>)"
    using c 1(1) by (simp add: CheckConsistency_def Let_def count_docs missing_docs)
  ultimately show ?thesis using vs(1) ms by (auto simp: distinct_filter)
qed

lemma vec_ids_node_ids: "v \<in> vec_ids c \<longleftrightarrow> vector_of (HNSWIndex c) v \<noteq> None"
  by (simp add: vec_ids_def vector_of_def map_of_eq_None_iff)

lemma delete_orphans:
  assumes "hnsw_ok (HNSWIndex c)" and ord: "is_order ordN"
  defines "del \<equiv> \<lambda>v (c :: Collection). c\<lparr>HNSWIndex := fst (hw_Delete ordN v (HNSWIndex c))\<rparr>"
  shows "\<exists>hw. fold del vs c = c\<lparr>HNSWIndex := hw\<rparr> \<and> hnsw_ok hw \<and>
    vector_of hw = (\<lambda>v. if v \<in> set vs then None else vector_of (HNSWIndex c) v)"
  using assms(1)
proof (induction vs arbitrary: c)
  case Nil
  show ?case by (intro exI [of _ "HNSWIndex c"]) (use Nil in simp)
next
  case (Cons v vs)
  note d = hw_Delete_vectors [OF Cons.prems ord, of v]
  from Cons.IH [of "del v c"] obtain hw where "fold del vs (del v c) = (del v c)\<lparr>HNSWIndex := hw\<rparr>" "hnsw_ok hw"
    "vector_of hw = (\<lambda>w. if w \<in> set vs then None else vector_of (HNSWIndex (del v c)) w)"
    using d by (auto simp: del_def)
  then show ?case using d by (intro exI [of _ hw]) (auto simp: del_def fun_eq_iff)
qed

lemma RepairOrphans_ok:
  assumes c: "GetCollection cm n = Inr c" and wf: "wf_map (mapping (DocMap c))" and ok: "hnsw_ok (HNSWIndex c)"
    and ord: "is_order ordN" "is_order ordD" and dir: "mget (cm_disk cm) (coll_basePath c) = Some dir"
  shows "\<exists>cm' c'. RepairOrphans ordN ordD n cm = (cm', None) \<and> GetCollection cm' n = Inr c' \<and> hnsw_ok (HNSWIndex c') \<and>
    DocMap c' = DocMap c \<and> (\<forall>v. vector_of (HNSWIndex c') v = (if v \<in> doc_ids c then vector_of (HNSWIndex c) v else None))"
proof -
  have wfn: "wf_map (hw_nodes (HNSWIndex c))" using ok by (simp add: hnsw_ok_def)
  obtain r where r: "CheckConsistency ordN ordD n cm = Inr r" "set (OrphanIDs r) = vec_ids c - doc_ids c"
    using CheckConsistency_report [OF c wf wfn ord] by blast
  have only: "(if v \<in> set (OrphanIDs r) then None else vector_of (HNSWIndex c) v) =
      (if v \<in> doc_ids c then vector_of (HNSWIndex c) v else None)" for v
    using r(2) vec_ids_node_ids [of v c] by auto
  show ?thesis
  proof (cases "OrphanIDs r")
    case Nil
    have "RepairOrphans ordN ordD n cm = (cm, None)" using r(1) Nil by (simp add: RepairOrphans_def)
    moreover have "vector_of (HNSWIndex c) v = (if v \<in> doc_ids c then vector_of (HNSWIndex c) v else None)" for v
      using only [of v] Nil by simp
    ultimately show ?thesis using c ok by blast
  next
    case (Cons v vs)
    obtain hw where hw: "fold (\<lambda>v c. c\<lparr>HNSWIndex := fst (hw_Delete ordN v (HNSWIndex c))\<rparr>) (OrphanIDs r) c = c\<lparr>HNSWIndex := hw\<rparr>"
      "hnsw_ok hw" "vector_of hw = (\<lambda>v. if v \<in> set (OrphanIDs r) then None else vector_of (HNSWIndex c) v)"
      using delete_orphans [OF ok ord(1), of "OrphanIDs r"] by blast
    let ?c = "c\<lparr>HNSWIndex := hw\<rparr>"
    have "mget (cm_disk cm) (coll_basePath ?c) = Some dir" using dir by simp
    from Coll_FlushHNSW_ok [OF this] obtain d' where
      "Coll_FlushHNSW ?c (cm_disk cm) = (?c\<lparr>HNSWIndex := fst (hw_Save hw)\<rparr>, d', None)" by auto
    then have "RepairOrphans ordN ordD n cm = (set_collection n (c\<lparr>HNSWIndex := fst (hw_Save hw)\<rparr>) d' cm, None)"
      using r(1) Cons c hw(1) by (simp add: RepairOrphans_def Let_def)
    then show ?thesis
      using hw(2,3) only by (auto simp: GetCollection_def set_collection_def hw_Save_ok)
  qed
qed

lemma coll_rep_ids:
  assumes "coll_rep c A"
  shows "doc_ids c = {v. \<exists>k vec. (v, vec) \<in> set (blocks_of A k)}"
    and "vec_ids c = {v. \<exists>k vec. (v, vec) \<in> set (blocks_of A k) \<and> vec \<noteq> []}"
proof -
  have doc: "docs_rep (DocMap c) A" and vec: "vecs_rep (Config c) (HNSWIndex c) A" using assms by (simp_all add: coll_rep_def)
  have ok: "spec_ok A" using doc by (simp add: docs_rep_def)
  have "v \<in> doc_ids c \<longleftrightarrow> (\<exists>loc. located A v loc)" for v
  proof -
    have "v \<in> doc_ids c \<longleftrightarrow> FI_Get (DocMap c) v \<noteq> None" by (simp add: doc_ids_def FI_Get_def map_of_eq_None_iff)
    also have "\<dots> \<longleftrightarrow> (\<exists>loc. located A v loc)" using doc by (auto simp: docs_rep_def)
    finally show ?thesis .
  qed
  moreover have "(\<exists>loc. located A v loc) \<longleftrightarrow> (\<exists>k vec. (v, vec) \<in> set (blocks_of A k))" for v
  proof
    assume "\<exists>loc. located A v loc"
    then obtain loc :: DocLocation where "unat (LocIndex loc) < length (blocks_of A (LocKey loc))"
      "fst (blocks_of A (LocKey loc) ! unat (LocIndex loc)) = v" unfolding located_def by blast
    then show "\<exists>k vec. (v, vec) \<in> set (blocks_of A k)" by (metis nth_mem prod.collapse)
  next
    assume "\<exists>k vec. (v, vec) \<in> set (blocks_of A k)"
    then show "\<exists>loc. located A v loc" using located_member [OF ok] by metis
  qed
  ultimately show "doc_ids c = {v. \<exists>k vec. (v, vec) \<in> set (blocks_of A k)}" by auto
  show "vec_ids c = {v. \<exists>k vec. (v, vec) \<in> set (blocks_of A k) \<and> vec \<noteq> []}"
  proof (intro set_eqI)
    fix v
    have "v \<in> vec_ids c \<longleftrightarrow> (\<exists>vec. vector_of (HNSWIndex c) v = Some vec)" by (simp add: vec_ids_node_ids)
    then show "v \<in> vec_ids c \<longleftrightarrow> v \<in> {v. \<exists>k vec. (v, vec) \<in> set (blocks_of A k) \<and> vec \<noteq> []}"
      using vec by (auto simp: vecs_rep_def holds_vector_def)
  qed
qed

lemma VerifyIntegrity_rep:
  assumes c: "GetCollection cm n = Inr c" and rep: "coll_rep c A" and ord: "is_order ordN" "is_order ordD"
  shows "VerifyIntegrity ordN ordD n cm =
    (if \<exists>k v. (v, []) \<in> set (blocks_of A k) then Some IntegrityFailed else None)"
proof -
  have doc: "docs_rep (DocMap c) A" using rep by (simp add: coll_rep_def)
  have wf: "wf_map (mapping (DocMap c))" "wf_map (hw_nodes (HNSWIndex c))"
    using rep by (simp_all add: coll_rep_def docs_rep_def vecs_rep_def hnsw_ok_def)
  obtain r where r: "CheckConsistency ordN ordD n cm = Inr r" "set (OrphanIDs r) = vec_ids c - doc_ids c"
    "OrphanVectors r = int (length (OrphanIDs r))" "set (MissingIDs r) = doc_ids c - vec_ids c"
    "MissingVectors r = int (length (MissingIDs r))" using CheckConsistency_report [OF c wf ord] by (elim exE conjE) blast
  have "vec_ids c \<subseteq> doc_ids c" unfolding coll_rep_ids [OF rep] by blast
  then have "set (OrphanIDs r) = {}" unfolding r(2) Diff_eq_empty_iff .
  then have "OrphanVectors r = 0" using r(3) by simp
  moreover have "MissingVectors r > 0 \<longleftrightarrow> doc_ids c - vec_ids c \<noteq> {}"
    using r(4,5) by (metis length_greater_0_conv of_nat_0_less_iff set_empty)
  moreover have "doc_ids c - vec_ids c \<noteq> {} \<longleftrightarrow> (\<exists>k v. (v, []) \<in> set (blocks_of A k))"
  proof
    assume "\<exists>k v. (v, []) \<in> set (blocks_of A k)"
    then obtain k v where kv: "(v, []) \<in> set (blocks_of A k)" by blast
    then have "v \<in> doc_ids c" unfolding coll_rep_ids(1) [OF rep] by blast
    moreover have "v \<notin> vec_ids c"
      using coll.vector_rep [OF rep kv] vec_ids_node_ids [of v c] by (simp add: GetVectorByID_def vector_of_def)
    ultimately show "doc_ids c - vec_ids c \<noteq> {}" by blast
  qed (use coll_rep_ids [OF rep] in blast)
  ultimately show ?thesis using r(1) by (simp add: VerifyIntegrity_def)
qed

subsection \<open>Properties\<close>

text \<open>
  C34. A consistency check reports exactly the ids of vectors the forward index does not know and the
  ids of the forward index that have no vector, each once and with their numbers; the integrity check
  fails exactly when there is one of either kind. Because blocks without a vector are allowed, a
  consistent collection with such a block is reported as damaged.
\<close>

theorem CheckConsistency_exact:
  assumes "GetCollection cm n = Inr c" and "wf_map (mapping (DocMap c))" and "wf_map (hw_nodes (HNSWIndex c))"
    and "is_order ordN" and "is_order ordD"
  shows "(\<exists>r. CheckConsistency ordN ordD n cm = Inr r \<and> TotalVectors r = int (card (doc_ids c)) \<and>
      distinct (OrphanIDs r) \<and> set (OrphanIDs r) = vec_ids c - doc_ids c \<and> OrphanVectors r = int (length (OrphanIDs r)) \<and>
      distinct (MissingIDs r) \<and> set (MissingIDs r) = doc_ids c - vec_ids c \<and> MissingVectors r = int (length (MissingIDs r))) \<and>
    (\<forall>A. coll_rep c A \<longrightarrow> VerifyIntegrity ordN ordD n cm =
      (if \<exists>k v. (v, []) \<in> set (blocks_of A k) then Some IntegrityFailed else None))"
  using CheckConsistency_report [OF assms] VerifyIntegrity_rep [OF assms(1) _ assms(4,5)] by blast

definition sample_text_coll :: Collection where
  "sample_text_coll = fst (Coll_AppendBlock id (\<lambda>_. False) ''a'' \<lparr>Primary = ''text'', Vector = [], BlockKeywords = []\<rparr>
     (empty_coll sample_config []))"

lemma sample_text_rep: "coll_rep sample_text_coll [''a'' \<mapsto> [(1, [])]]"
  using coll.append_accepts [OF empty_coll_rep empty_coll_room, of sample_config "[]"
      "\<lparr>Primary = ''text'', Vector = [], BlockKeywords = []\<rparr>" id "\<lambda>_. False" "''a''"]
  by (simp add: sample_text_coll_def next_id_empty add_block_def block_fits_def)

theorem CheckConsistency_exact_witness:
  "VerifyIntegrity (\<lambda>m. m) (\<lambda>m. m) ''docs'' \<lparr>collections = [(''docs'', sample_text_coll)], cm_basePath = [], cm_disk = []\<rparr> =
     Some IntegrityFailed \<and> coll_rep sample_text_coll [''a'' \<mapsto> [(1, [])]]"
proof -
  let ?cm = "\<lparr>collections = [(''docs'', sample_text_coll)], cm_basePath = [], cm_disk = []\<rparr>"
  have "GetCollection ?cm ''docs'' = Inr sample_text_coll" by (simp add: GetCollection_def)
  moreover have "wf_map (mapping (DocMap sample_text_coll))" "wf_map (hw_nodes (HNSWIndex sample_text_coll))"
    using sample_text_rep by (simp_all add: coll_rep_def docs_rep_def vecs_rep_def hnsw_ok_def)
  ultimately have "VerifyIntegrity (\<lambda>m. m) (\<lambda>m. m) ''docs'' ?cm =
      (if \<exists>k v. (v, []) \<in> set (blocks_of [''a'' \<mapsto> [(1, [])]] k) then Some IntegrityFailed else None)"
    using CheckConsistency_exact [of ?cm "''docs''" sample_text_coll "\<lambda>m. m" "\<lambda>m. m"] sample_text_rep
    by (simp only: is_order_id simp_thms)
  moreover have "(1, []) \<in> set (blocks_of [''a'' \<mapsto> [(1 :: uint64, [] :: float32 list)]] ''a'')" by (simp add: blocks_of_def)
  ultimately show ?thesis using sample_text_rep by (metis (full_types))
qed

text \<open>
  Repairing the orphans of a collection: exactly the vectors the forward index does not know are
  removed, the vector index stays well formed, the forward index is not touched, and no orphan is left.
\<close>

theorem RepairOrphans_correct:
  assumes "GetCollection cm n = Inr c" and "wf_map (mapping (DocMap c))" and "hnsw_ok (HNSWIndex c)"
    and "is_order ordN" and "is_order ordD" and "mget (cm_disk cm) (coll_basePath c) = Some dir"
  shows "\<exists>cm' c'. RepairOrphans ordN ordD n cm = (cm', None) \<and> GetCollection cm' n = Inr c' \<and> hnsw_ok (HNSWIndex c') \<and>
    DocMap c' = DocMap c \<and> (\<forall>v. vector_of (HNSWIndex c') v = (if v \<in> doc_ids c then vector_of (HNSWIndex c) v else None)) \<and>
    vec_ids c' \<subseteq> doc_ids c'"
proof -
  obtain cm' c' where "RepairOrphans ordN ordD n cm = (cm', None)" "GetCollection cm' n = Inr c'" "hnsw_ok (HNSWIndex c')"
    "DocMap c' = DocMap c" and v: "\<forall>v. vector_of (HNSWIndex c') v = (if v \<in> doc_ids c then vector_of (HNSWIndex c) v else None)"
    using RepairOrphans_ok [OF assms] by blast
  moreover have "vec_ids c' \<subseteq> doc_ids c"
  proof
    fix x
    assume "x \<in> vec_ids c'"
    with v show "x \<in> doc_ids c" by (auto simp: vec_ids_node_ids split: if_splits)
  qed
  moreover from calculation have "doc_ids c' = doc_ids c" by (simp add: doc_ids_def)
  ultimately show ?thesis by auto
qed

theorem RepairOrphans_correct_witness:
  "\<exists>cm' c'. RepairOrphans (\<lambda>m. m) (\<lambda>m. m) ''docs''
       \<lparr>collections = [(''docs'', sample_coll\<lparr>DocMap := NewForwardIndex\<rparr>)], cm_basePath = [''data'', ''indexes''],
        cm_disk = [(coll_basePath sample_coll, empty_dir)]\<rparr> = (cm', None) \<and>
     GetCollection cm' ''docs'' = Inr c' \<and> vector_of (HNSWIndex sample_coll) 1 = Some [f_one] \<and> vector_of (HNSWIndex c') 1 = None"
proof -
  let ?c = "sample_coll\<lparr>DocMap := NewForwardIndex\<rparr>"
  let ?cm = "\<lparr>collections = [(''docs'', ?c)], cm_basePath = [''data'', ''indexes''], cm_disk = [(coll_basePath sample_coll, empty_dir)]\<rparr>"
  have rep: "vecs_rep (Config sample_coll) (HNSWIndex sample_coll) [''a'' \<mapsto> [(1, [f_one])]]" using sample_coll_rep by (simp add: coll_rep_def)
  then have "hnsw_ok (HNSWIndex ?c)" by (simp add: vecs_rep_def)
  moreover have "vector_of (HNSWIndex sample_coll) 1 = Some [f_one]"
    using rep by (auto simp: vecs_rep_def holds_vector_def intro!: exI [of _ "''a''"])
  moreover have "1 \<notin> doc_ids ?c" by (simp add: doc_ids_def NewForwardIndex_def)
  ultimately show ?thesis
    using RepairOrphans_correct [of ?cm "''docs''" ?c "\<lambda>m. m" "\<lambda>m. m" empty_dir] is_order_id
    by (auto simp: GetCollection_def NewForwardIndex_def)
qed

end
