(* ===== verification/Spec2Isabelle.thy ===== *)
theory Spec2Isabelle
  imports Server_Program Interleaved_Appends Shard_Crash HNSW_Hidden Repair
begin

text \<open>
  WaddleMap DB is a vector database: clients send framed protocol buffer requests over TCP, and the
  server keeps collections of keys, each key a list of blocks of text, an optional vector and
  keywords, with nearest-neighbour and keyword search. This development models the Go packages
  \<^verbatim>\<open>internal/storage\<close>, \<^verbatim>\<open>internal/transaction\<close>, \<^verbatim>\<open>internal/network\<close>, \<^verbatim>\<open>internal/types\<close> and
  \<^verbatim>\<open>internal/logger\<close>, and the program \<^verbatim>\<open>cmd/server\<close>.

  \<^bold>\<open>The program and its theories.\<close> A request travels from \<^verbatim>\<open>server.go\<close> through the channel of
  \<^verbatim>\<open>transaction/manager.go\<close> to \<^verbatim>\<open>vector_manager.go\<close>, which joins three stores: the record store of
  \<^verbatim>\<open>storage.go\<close> with the encoded blocks, the collections of \<^verbatim>\<open>collection.go\<close> with their vector index,
  keyword index and forward index, and the write-ahead log of \<^verbatim>\<open>wal.go\<close>.

  \<^item> \<open>Go_Prelude\<close>, \<open>Go_Strings\<close>, \<open>CRC32\<close>, \<open>Float32\<close>, \<open>Go_Heap\<close>: what the code uses of Go and its library:
    integers as words of their width, byte order, maps as association lists without repeated keys,
    slices, errors, UTF-8, checksums, IEEE single-precision arithmetic on bit patterns,
    \<^verbatim>\<open>container/heap\<close>.
  \<^item> \<open>Types\<close>: \<^verbatim>\<open>internal/types/vector_types.go\<close>, the configurations, blocks, filters and flags.
  \<^item> \<open>Logger\<close>: \<^verbatim>\<open>logger.go\<close>, the level, the writer and the lines.
  \<^item> \<open>Entry_Codec\<close>: \<^verbatim>\<open>entry.go\<close>, the binary form of a stored block. Round trip, exact domain, and
    rejection of every one-byte change.
  \<^item> \<open>Bit_Set\<close>, \<open>Forward_Index\<close>: \<^verbatim>\<open>bitset.go\<close>, \<^verbatim>\<open>forward_index.go\<close>. Set operations, fresh ids.
  \<^item> \<open>Levenshtein\<close>, \<open>Keyword_Index\<close>: \<^verbatim>\<open>keyword_index.go\<close>. The distance is the least number of edits;
    each search mode returns exactly the ids whose keywords match.
  \<^item> \<open>Shard_Store\<close>, \<open>Shard_Refinement\<close>: \<^verbatim>\<open>storage.go\<close>, \<^verbatim>\<open>compress.go\<close>. The sixteen shards refine a map
    from keys to lists of payloads; rebuild and restart.
  \<^item> \<open>Shard_Crash\<close>: a start after an append that was cut off at an arbitrary byte. The earlier records are
    read back; a record appended behind the cut one is lost at the next rebuild.
  \<^item> \<open>HNSW\<close>, \<open>HNSW_Search\<close>, \<open>HNSW_Index\<close>, \<open>HNSW_File\<close>: \<^verbatim>\<open>hnsw_wrapper.go\<close>. The graph keeps its invariant
    and refines a map from ids to vectors; searches are sound, and exact on small connected graphs;
    the index file round-trips.
  \<^item> \<open>HNSW_Hidden\<close>: searches return only what neighbour lists reach, and a vector inserted next to nodes
    with full lists is in no list.
  \<^item> \<open>Collection\<close>, \<open>Collection_Rep\<close>, \<open>Collection_Disk\<close>: \<^verbatim>\<open>collection.go\<close>. A collection refines a map from
    keys to blocks, the collection manager a map from names to collections; restart.
  \<^item> \<open>WAL\<close>: \<^verbatim>\<open>wal.go\<close>, the log as the entries of each encoder that wrote to the file.
  \<^item> \<open>Vector_Manager\<close>, \<open>Vector_Manager_Rep\<close>, \<open>Vector_Recovery\<close>, \<open>Vector_Properties\<close>: \<^verbatim>\<open>vector_manager.go\<close>. The
    three stores together refine the database \<open>db\<close>, a map from collections to keys to blocks
    (\<open>vm_rep\<close>); an invariant of all reachable states (\<open>vm_step\<close>, \<open>vm_ok\<close>); start after \<^verbatim>\<open>Close\<close> and
    after a crash.
  \<^item> \<open>Concurrent_Appends\<close>, \<open>Interleaved_Appends\<close>: \<^verbatim>\<open>AppendBlock\<close> as the two phases between which requests
    can interleave. Two overlapping calls for one key can store their blocks at each other's position;
    any number of calls that do not overlap for one key refine appending them one after the other.
  \<^item> \<open>Repair\<close>: \<^verbatim>\<open>repair.go\<close>, consistency reports and the removal of orphan vectors.
  \<^item> \<open>Transaction\<close>: \<^verbatim>\<open>types.go\<close> and \<^verbatim>\<open>handle\<close> of \<^verbatim>\<open>transaction/manager.go\<close>, one definition per operation.
    Every request is answered under its id with the type of data of its operation.
  \<^item> \<open>Network\<close>: \<^verbatim>\<open>handleConnection\<close> of \<^verbatim>\<open>server.go\<close> as a function on the bytes of a connection.
  \<^item> \<open>Dispatcher\<close>: connections, dispatcher and workers as step relations with the channel of 100
    requests, the semaphore of 100 workers and the unbuffered response channels. Invariant, end of all
    runs, delivery to waiting connections, and the response that is lost.
  \<^item> \<open>Server_Program\<close>: \<^verbatim>\<open>main.go\<close> and \<^verbatim>\<open>NewServer\<close>, a start from the files on disk, the pipeline at work, the
    end by a signal or by a port that cannot be opened, and the next start, as steps of one relation.
    The invariant of all sessions, and the database a restarted server serves.
  \<^item> This theory holds the property that spans all of them.

  \<^bold>\<open>Conventions.\<close> An operation that changes state returns the new state with its result. An error is a
  value of \<open>go_error\<close>, a panic the error \<open>GoPanic\<close>; what an operation has changed before it fails is in
  the state it returns. Operations whose effect depends on the order in which Go visits a map take
  the order as a parameter, of which only \<open>is_order\<close> is assumed; random levels and the time are
  parameters too (\<open>Env\<close>). The interfaces between components are locales interpreted on the model:
  \<open>fixed_codec\<close>, \<open>id_set\<close>, \<open>doc_map\<close>, \<open>heap_order\<close>, \<open>vector_index\<close>, \<open>record_store\<close>, \<open>block_collection\<close>,
  \<open>request_handler\<close> and \<open>session_store\<close>.

  \<^bold>\<open>Parameters.\<close> BLAKE3 and zstd (\<open>Libs\<close>, with the hypothesis \<open>zstd_ok\<close> that decompression inverts
  compression), lower case of non-ASCII text, and the protocol buffer library (\<open>Protobuf\<close>, with the
  hypothesis that no message has 4 GiB).

  \<^bold>\<open>Bounds.\<close> Ids are words of 64 bits and positions words of 32: the refinement theorems assume
  \<open>vm_room\<close> or \<open>room_for\<close>, that is, that neither wraps around during the operation. No definition uses
  fuel: every loop is a recursion with a measure, the search of a layer by the ids not yet visited, a
  connection by the bytes not yet read, the pipeline by the steps each request has left.

  \<^bold>\<open>Not modelled.\<close> Failures of the operating system other than ends of files and missing directories;
  locks, except where their absence is the subject (\<open>Concurrent_Appends\<close>, \<open>Interleaved_Appends\<close>,
  \<open>Dispatcher\<close>); \<^verbatim>\<open>WAL.Size\<close>, which returns the size of a file of package \<^verbatim>\<open>gob\<close>; the generated protocol
  code; the parsing of the command line, whose flags are arguments; the lines that the storage, the
  handler and the connections log. In the pipeline the work of one request is a single step, and a
  signal ends the program between two steps. Products and sums of floating-point numbers are rounded
  one by one, as on amd64; on platforms with fused multiply-add Go may round once.
\<close>

section \<open>From request bytes to response bytes\<close>

text \<open>
  C1. From the bytes a client sends to the bytes it receives: on a connection with two messages, the
  first a request to append a block within the limits to a key and the second a request for the
  position the block gets, the server answers both with success; the second answer carries the text,
  the vector and the normalised keywords of the block. In the state it leaves, the database has the
  block at the end of the key.
\<close>

theorem client_append_then_get:
  assumes "vm_rep (env_libs E) (env_lower E) vm D" and "D n = Some (cfg, K)" and "vm_room 1 vm D"
    and "block_acceptable (env_libs E) (env_lower E) n cfg k b"
    and "Unmarshal P b1 = Some \<lparr>RequestId = id1, pb_Operation = Some (AppendBlockRequest n k (Some b))\<rparr>"
    and "Unmarshal P b2 = Some \<lparr>RequestId = id2, pb_Operation = Some (GetBlockRequest n k (of_nat (length (key_blocks D n k))))\<rparr>"
    and "length b1 < 2 ^ 32" and "length b2 < 2 ^ 32"
    and "Marshal P \<lparr>pb_RequestId = id1, pb_Success = True, ErrorMessage = [], pb_Result = None\<rparr> = Some d1"
    and "Marshal P \<lparr>pb_RequestId = id2, pb_Success = True, ErrorMessage = [],
      pb_Result = Some (Result_Block (norm_block (env_lower E) b))\<rparr> = Some d2"
  shows "\<exists>vm'. handleConnection P (handle E) (frame b1 @ frame b2) vm = (vm', frame d1 @ frame d2) \<and>
    vm_rep (env_libs E) (env_lower E) vm' (db_append n k b D)"
proof -
  obtain vm' where vm': "handle E \<lparr>ReqID = id1, Operation = OpAppendBlock, req_Params = AppendBlockRequest n k (Some b)\<rparr> vm =
      (vm', \<lparr>resp_ReqID = id1, Success = True, resp_Data = None, Error = None\<rparr>)"
    "handle E \<lparr>ReqID = id2, Operation = OpGetBlock, req_Params = GetBlockRequest n k (of_nat (length (key_blocks D n k)))\<rparr> vm' =
      (vm', \<lparr>resp_ReqID = id2, Success = True, resp_Data = Some (BlockData_Data (norm_block (env_lower E) b)), Error = None\<rparr>)"
    "vm_rep (env_libs E) (env_lower E) vm' (db_append n k b D)"
    using handle_append_get [OF assms(1-4), of id1 id2] by blast
  have "handleConnection P (handle E) (concat (map frame [b1, b2]) @ []) vm =
      (let (s, out) = serve P (handle E) [b1, b2] vm in (s, concat (map frame out)))"
    using assms(7,8) by (intro handleConnection_frames) auto
  moreover have "serve P (handle E) [b1, b2] vm = (vm', [d1, d2])"
    using vm'(1,2) assms(5,6,9,10)
    by (simp add: decode_request_def request_ctx_def op_of_def encode_response_def map_response_def map_result_def)
  ultimately show ?thesis using vm'(3) by simp
qed

definition block_protobuf :: Protobuf where
  "block_protobuf = \<lparr>
     Unmarshal = (\<lambda>b. Some \<lparr>RequestId = ''r'', pb_Operation = Some (if b = [1]
       then AppendBlockRequest ''docs'' ''a'' (Some (text_block ''hello'')) else GetBlockRequest ''docs'' ''a'' 0)\<rparr>),
     Marshal = (\<lambda>r. Some (case pb_Result r of Some (Result_Block b) \<Rightarrow> bytes_of_string (Primary b) | _ \<Rightarrow> [])),
     ErrorText = (\<lambda>_. ''error'')\<rparr>"

theorem client_append_then_get_witness:
  "\<exists>vm'. handleConnection block_protobuf (handle sample_env) (frame [1] @ frame [2]) sample_vm =
     (vm', frame [] @ frame (bytes_of_string ''hello''))"
proof -
  have rep: "vm_rep (env_libs sample_env) (env_lower sample_env) sample_vm sample_db" using sample_vm_rep by simp
  have acc: "block_acceptable (env_libs sample_env) (env_lower sample_env) ''docs'' sample_config ''a'' (text_block ''hello'')"
    using text_block_acceptable by simp
  show ?thesis
    using client_append_then_get [OF rep sample_docs sample_vm_room acc, of block_protobuf "[1]" "''r''" "[2]" "''r''" "[]"
        "bytes_of_string ''hello''"]
    by (auto simp: block_protobuf_def norm_block_def)
qed

end
